(* ===== verification/Prelude.thy ===== *)
theory Prelude
  imports Main "HOL-Library.Word"
begin

unbundle bit_operations_syntax

text \<open>
  Shared vocabulary of the development: the machine-integer types of the receiver, byte buffers as
  lists with an explicit in-place write, and the generic facts about words, lists and iteration
  that the component theories use.  The collection \<open>wire_simps\<close> holds facts about the little-endian
  codecs, \<open>buf_simps\<close> facts about buffer writes.
\<close>

type_synonym u8 = "8 word"
type_synonym u16 = "16 word"
type_synonym u32 = "32 word"
type_synonym u64 = "64 word"

named_theorems wire_simps "lengths and inverses of the little-endian codecs"
named_theorems buf_simps "reads after writes of byte buffers"

section \<open>Buffers\<close>

text \<open>\<open>buf_put buf off bs\<close> is \<open>memcpy(buf + off, bs, length bs)\<close> for a write inside the buffer.\<close>

definition buf_put :: "'a list \<Rightarrow> nat \<Rightarrow> 'a list \<Rightarrow> 'a list" where
  "buf_put buf off bs = take off buf @ bs @ drop (off + length bs) buf"

text \<open>
  \<open>a[i] = v\<close> on a C array.  The array keeps its length; a store beyond it is undefined behaviour, and the model
  makes it visible by leaving no array at all.
\<close>

definition array_write :: "'a list \<Rightarrow> nat \<Rightarrow> 'a \<Rightarrow> 'a list" where
  "array_write a i v = (if i < length a then a[i := v] else [])"

lemma array_write_in [simp]: "i < length a \<Longrightarrow> array_write a i v = a[i := v]"
  by (simp add: array_write_def)

text \<open>A loop that fills the first \<open>n\<close> entries of an array with room for them.\<close>

lemma fold_array_write:
  "n \<le> length a \<Longrightarrow> fold (\<lambda>i a. array_write a i (f i)) [0..<n] a = map f [0..<n] @ drop n a"
proof (induction n)
  case (Suc n)
  then have "(map f [0..<n] @ drop n a)[n := f n] = map f [0..<n] @ f n # drop (Suc n) a"
    by (simp add: list_update_append Cons_nth_drop_Suc [symmetric])
  with Suc show ?case by simp
qed simp

text \<open>\<open>buf_get buf off n\<close> is the span of \<open>n\<close> bytes at \<open>buf + off\<close>.\<close>

definition buf_get :: "'a list \<Rightarrow> nat \<Rightarrow> nat \<Rightarrow> 'a list" where
  "buf_get buf off n = take n (drop off buf)"

lemma length_buf_put [simp, buf_simps]:
  "off + length bs \<le> length buf \<Longrightarrow> length (buf_put buf off bs) = length buf"
  by (simp add: buf_put_def)

lemma length_buf_get [simp, buf_simps]:
  "off + n \<le> length buf \<Longrightarrow> length (buf_get buf off n) = n"
  by (simp add: buf_get_def)

lemma nth_buf_put:
  "off + length bs \<le> length buf \<Longrightarrow> i < length buf \<Longrightarrow>
   buf_put buf off bs ! i = (if off \<le> i \<and> i < off + length bs then bs ! (i - off) else buf ! i)"
  by (auto simp: buf_put_def nth_append min_def)

lemma nth_buf_get [buf_simps]:
  "off + n \<le> length buf \<Longrightarrow> i < n \<Longrightarrow> buf_get buf off n ! i = buf ! (off + i)"
  by (simp add: buf_get_def)

lemma buf_get_put_same [buf_simps]:
  "off + length bs \<le> length buf \<Longrightarrow> n = length bs \<Longrightarrow> buf_get (buf_put buf off bs) off n = bs"
  by (simp add: buf_put_def buf_get_def)

lemma buf_get_put_other [buf_simps]:
  assumes "off' + length bs \<le> length buf" and "off + n \<le> length buf"
    and "off + n \<le> off' \<or> off' + length bs \<le> off"
  shows "buf_get (buf_put buf off' bs) off n = buf_get buf off n"
  by (rule nth_equalityI) (use assms in \<open>auto simp: nth_buf_get nth_buf_put\<close>)

section \<open>Folds and iteration\<close>

lemma foldl_inj_left:
  assumes "\<And>s s' b. f s b = f s' b \<Longrightarrow> s = s'"
    and "foldl f s bs = foldl f s' bs"
  shows "s = s'"
  using assms(2) by (induction bs arbitrary: s s') (auto dest: assms(1))

lemma funpow_inj:
  fixes f :: "'a \<Rightarrow> 'a"
  assumes "inj f"
  shows "inj (f ^^ n)"
  using assms by (rule inj_fn)

lemma upt_0_3: "[0..<3] = [0, 1, 2 :: nat]"
  by (simp add: upt_rec)

lemma funpow_8: "(f ^^ 8) x = f (f (f (f (f (f (f (f x)))))))"
  by (simp add: numeral_eq_Suc)

lemma list_update_split:
  "i < length xs \<Longrightarrow> xs[i := b] = take i xs @ b # drop (Suc i) xs"
  by (simp add: upd_conv_take_nth_drop)

section \<open>Words\<close>

lemma word_xor_cancel_left: "(a XOR b = a XOR c) = (b = c)" for a :: "'a::len word"
  by (metis xor.assoc xor_self_eq xor.left_neutral)

lemma word_xor_cancel_right: "(b XOR a = c XOR a) = (b = c)" for a :: "'a::len word"
  by (metis word_xor_cancel_left xor.commute)

lemmas word_xor_cancel = word_xor_cancel_left word_xor_cancel_right

lemma ucast_u8_inj:
  assumes "8 \<le> LENGTH('a::len)" and "(ucast (b :: u8) :: 'a word) = ucast b'"
  shows "b = b'"
proof (rule bit_word_eqI)
  fix n assume "n < LENGTH(8)"
  then have "n < LENGTH('a)" using assms(1) by simp
  then have "bit (ucast b :: 'a word) n = bit b n" "bit (ucast b' :: 'a word) n = bit b' n"
    by (simp_all add: bit_simps)
  then show "bit b n = bit b' n" using assms(2) by simp
qed

lemma bit_times_2_Suc [simp]: "bit (x * 2) (Suc n) = (Suc n < LENGTH('a) \<and> bit x n)"
  for x :: "'a::len word"
  by (simp add: bit_push_bit_iff [where m = 1, simplified])

lemma bit_word_ge: "LENGTH('a) \<le> n \<Longrightarrow> \<not> bit (w :: 'a::len word) n"
  using bit_imp_le_length leD by blast

lemma unat_lt_exp: "unat (w :: 'a::len word) < 2 ^ LENGTH('a)"
  by (rule unsigned_less)

lemma unat_inc: "unat w < unat c \<Longrightarrow> unat (w + 1) = unat w + 1" for w c :: "'a::len word"
proof -
  assume "unat w < unat c"
  then have "unat w + 1 < 2 ^ LENGTH('a)" using unat_lt_exp [of c] by linarith
  then show ?thesis by (simp add: unat_word_ariths(1))
qed

lemma unat_dec: "0 < unat w \<Longrightarrow> unat (w - 1) = unat w - 1" for w :: "'a::len word"
  by (simp add: unat_minus_one unat_gt_0)

lemma unat_of_nat_small: "x < 2 ^ LENGTH('a) \<Longrightarrow> unat (of_nat x :: 'a::len word) = x"
  by (simp add: unat_of_nat)

lemma of_nat_word_inj:
  "i < 2 ^ LENGTH('a) \<Longrightarrow> j < 2 ^ LENGTH('a) \<Longrightarrow> (of_nat i :: 'a::len word) = of_nat j \<Longrightarrow> i = j"
  by (metis unat_of_nat_small)

lemma ucast_down_up [simp]:
  "LENGTH('a) \<le> LENGTH('b) \<Longrightarrow> (ucast (ucast (w :: 'a::len word) :: 'b::len word) :: 'a word) = w"
  by (rule bit_word_eqI) (simp add: bit_ucast_iff)

section \<open>Integers in memory\<close>

text \<open>An integer read from its bytes on little-endian x86, as \<open>std::memcpy(&v, p, 8)\<close> and a \<open>uint64_t*\<close> do.\<close>

fun load_le :: "u8 list \<Rightarrow> 'a::len word" where
  "load_le [] = 0"
| "load_le (b # bs) = ucast b OR push_bit 8 (load_le bs)"

lemma bit_load_le: "8 * length bs \<le> n \<Longrightarrow> \<not> bit (load_le bs :: 'a::len word) n"
proof (induction bs arbitrary: n)
  case (Cons b bs)
  then have "\<not> bit (load_le bs :: 'a word) (n - 8)" and "8 \<le> n" by simp_all
  then show ?case by (auto simp: bit_or_iff bit_push_bit_iff bit_ucast_iff bit_word_ge)
qed simp

lemma load_le_Cons_xor: "load_le (b # bs) = ucast b XOR push_bit 8 (load_le bs :: 'a::len word)"
  by (rule bit_word_eqI) (auto simp: bit_simps bit_word_ge)

text \<open>Memory is a function from byte addresses to bytes.\<close>

definition le_bytes :: "nat \<Rightarrow> 'a::len word \<Rightarrow> u8 list" where
  "le_bytes len v = map (\<lambda>i. ucast (drop_bit (8 * i) v)) [0..<len]"

definition mem_write :: "nat \<Rightarrow> u8 list \<Rightarrow> (nat \<Rightarrow> u8) \<Rightarrow> nat \<Rightarrow> u8" where
  "mem_write off bs m = (\<lambda>a. if off \<le> a \<and> a < off + length bs then bs ! (a - off) else m a)"

definition mem_read :: "nat \<Rightarrow> nat \<Rightarrow> (nat \<Rightarrow> u8) \<Rightarrow> u8 list" where
  "mem_read off len m = map m [off..<off + len]"

definition load64 :: "(nat \<Rightarrow> u8) \<Rightarrow> nat \<Rightarrow> u64" where
  "load64 m off = load_le (mem_read off 8 m)"

definition store64 :: "nat \<Rightarrow> u64 \<Rightarrow> (nat \<Rightarrow> u8) \<Rightarrow> nat \<Rightarrow> u8" where
  "store64 off v m = mem_write off (le_bytes 8 v) m"

lemma length_le_bytes [simp]: "length (le_bytes len v) = len"
  by (simp add: le_bytes_def)

lemma length_mem_read [simp]: "length (mem_read off len m) = len"
  by (simp add: mem_read_def)

lemma le_bytes_Suc: "le_bytes (Suc len) v = ucast v # le_bytes len (drop_bit 8 v)"
  by (simp add: le_bytes_def upt_conv_Cons map_Suc_upt [symmetric] drop_bit_drop_bit comp_def add.commute
        del: upt_Suc)

lemma load_le_bytes: "load_le (le_bytes len v) = take_bit (8 * len) v"
proof (induction len arbitrary: v)
  case (Suc len)
  have "load_le (le_bytes (Suc len) v) = ucast (ucast v :: u8) OR push_bit 8 (take_bit (8 * len) (drop_bit 8 v))"
    by (simp add: le_bytes_Suc Suc)
  also have "\<dots> = take_bit (8 * Suc len) v"
    by (rule bit_word_eqI) (auto simp: bit_simps)
  finally show ?case .
qed (simp add: le_bytes_def)

lemma mem_read_write_same [simp]:
  "len = length bs \<Longrightarrow> mem_read off len (mem_write off bs m) = bs"
  by (rule nth_equalityI) (simp_all add: mem_read_def mem_write_def)

lemma mem_read_write_other:
  "off + len \<le> off' \<or> off' + length bs \<le> off \<Longrightarrow> mem_read off len (mem_write off' bs m) = mem_read off len m"
  by (auto simp: mem_read_def mem_write_def)

lemma load64_store64_same [simp]: "load64 (store64 off v m) off = v"
  by (simp add: load64_def store64_def load_le_bytes take_bit_word_eq_self)

lemma load64_write_other:
  "off + 8 \<le> off' \<or> off' + length bs \<le> off \<Longrightarrow> load64 (mem_write off' bs m) off = load64 m off"
  by (simp add: load64_def mem_read_write_other)

lemma load64_store64_other:
  "off + 8 \<le> off' \<or> off' + 8 \<le> off \<Longrightarrow> load64 (store64 off' v m) off = load64 m off"
  by (simp add: store64_def load64_write_other)

end
