(* ===== verification/Crc.thy ===== *)
theory Crc
  imports Prelude
begin

text \<open>
  \<^verbatim>\<open>src/common/crc.cpp\<close>: CRC-16/CCITT-FALSE over the wire header, and CRC32C over the protobuf
  body in its portable and its SSE4.2 form.  The two intrinsics of \<^verbatim>\<open>nmmintrin.h\<close> are parameters of
  the hardware path; \<open>sse42_documented\<close> is Intel's published description of the instruction.
\<close>

section \<open>CRC16\<close>

definition crc16_bit :: "u16 \<Rightarrow> u16" where
  "crc16_bit crc =
     (if crc AND 0x8000 \<noteq> 0 then push_bit 1 crc XOR 0x1021 else push_bit 1 crc)"

definition crc16_byte :: "u16 \<Rightarrow> u8 \<Rightarrow> u16" where
  "crc16_byte crc b = (crc16_bit ^^ 8) (crc XOR push_bit 8 (ucast b))"

definition crc16_ccitt_false :: "u8 list \<Rightarrow> u16" where
  "crc16_ccitt_false data = foldl crc16_byte 0xFFFF data"

section \<open>CRC32C, portable\<close>

definition crc32c_bit :: "u32 \<Rightarrow> u32" where
  "crc32c_bit crc =
     (let mask = 0 - (crc AND 1) in drop_bit 1 crc XOR (0x82F63B78 AND mask))"

definition crc32c_byte :: "u32 \<Rightarrow> u8 \<Rightarrow> u32" where
  "crc32c_byte crc b = (crc32c_bit ^^ 8) (crc XOR ucast b)"

definition crc32c_sw :: "u8 list \<Rightarrow> u32" where
  "crc32c_sw data = NOT (foldl crc32c_byte 0xFFFFFFFF data)"

section \<open>CRC32C, SSE4.2\<close>

text \<open>
  The machine \<open>crc32c()\<close> runs on: the cached cpuid answer and the two intrinsics.
\<close>

record cpu =
  cpu_has_sse42 :: bool
  mm_crc32_u8 :: "u32 \<Rightarrow> u8 \<Rightarrow> u32"
  mm_crc32_u64 :: "u64 \<Rightarrow> u64 \<Rightarrow> u64"

fun crc32c_hw_tail :: "cpu \<Rightarrow> u64 \<Rightarrow> u8 list \<Rightarrow> u64" where
  "crc32c_hw_tail cpu crc [] = crc"
| "crc32c_hw_tail cpu crc (b # p) = crc32c_hw_tail cpu (ucast (mm_crc32_u8 cpu (ucast crc) b)) p"

function crc32c_hw_loop :: "cpu \<Rightarrow> u64 \<Rightarrow> u8 list \<Rightarrow> u64" where
  "crc32c_hw_loop cpu crc p =
     (if length p \<ge> 8
      then crc32c_hw_loop cpu (mm_crc32_u64 cpu crc (load_le (take 8 p))) (drop 8 p)
      else crc32c_hw_tail cpu crc p)"
  by pat_completeness auto
termination
  by (relation "measure (\<lambda>(cpu, crc, p). length p)") auto

declare crc32c_hw_loop.simps [simp del]

definition crc32c_hw :: "cpu \<Rightarrow> u8 list \<Rightarrow> u32" where
  "crc32c_hw cpu data = NOT (ucast (crc32c_hw_loop cpu 0xFFFFFFFF data))"

text \<open>\<open>crc32c()\<close> dispatches on the cached cpuid bit.\<close>

definition crc32c :: "cpu \<Rightarrow> u8 list \<Rightarrow> u32" where
  "crc32c cpu data = (if cpu_has_sse42 cpu then crc32c_hw cpu data else crc32c_sw data)"

section \<open>The checksum contract\<close>

text \<open>
  What the wire format relies on: a checksum whose byte step is injective in the running state and
  in the byte.  Changing one byte anywhere in a message then always changes the digest.
\<close>

locale byte_checksum =
  fixes step :: "'s \<Rightarrow> u8 \<Rightarrow> 's" and seed :: 's and fin :: "'s \<Rightarrow> 'r"
  assumes step_inj_state: "step s b = step s' b \<Longrightarrow> s = s'"
    and step_inj_byte: "step s b = step s b' \<Longrightarrow> b = b'"
    and fin_inj: "fin s = fin s' \<Longrightarrow> s = s'"
begin

lemma detects_state:
  assumes "fin (foldl step s ys) = fin (foldl step s' ys)"
  shows "s = s'"
  using foldl_inj_left [of step, OF step_inj_state fin_inj [OF assms]] .

lemma detects_byte:
  assumes "b \<noteq> b'"
  shows "fin (foldl step seed (xs @ b # ys)) \<noteq> fin (foldl step seed (xs @ b' # ys))"
  using assms detects_state [of "step (foldl step seed xs) b" ys "step (foldl step seed xs) b'"]
  by (auto dest: step_inj_byte)

lemma detects_update:
  assumes "i < length xs" and "xs ! i \<noteq> b"
  shows "fin (foldl step seed (xs[i := b])) \<noteq> fin (foldl step seed xs)"
  using detects_byte [of b "xs ! i" "take i xs" "drop (Suc i) xs"] assms
  by (simp add: list_update_split id_take_nth_drop [symmetric])

end

section \<open>CRC16 meets the contract\<close>

lemma bit_test_u16: "(crc AND 0x8000 \<noteq> 0) = bit crc 15" for crc :: u16
proof -
  have "crc AND 0x8000 = push_bit 15 (of_bool (bit crc 15))"
    by (rule bit_word_eqI) (auto simp: bit_simps numeral_eq_Suc less_Suc_eq)
  then show ?thesis by simp
qed

lemma crc16_bit_parity: "odd (crc16_bit crc) = bit crc 15"
  by (simp add: crc16_bit_def bit_test_u16 even_xor_iff)

lemma inj_crc16_bit: "inj crc16_bit"
proof (rule injI)
  fix x y assume eq: "crc16_bit x = crc16_bit y"
  then have top: "bit x 15 = bit y 15" by (metis crc16_bit_parity)
  then have sh: "push_bit 1 x = push_bit 1 y"
    using eq by (auto simp: crc16_bit_def bit_test_u16 word_xor_cancel split: if_splits)
  show "x = y"
  proof (rule bit_word_eqI)
    fix n assume "n < LENGTH(16)"
    then consider "n = 15" | "Suc n < 16" by fastforce
    then show "bit x n = bit y n"
    proof cases
      case 2
      have "bit (push_bit 1 x) (Suc n) = bit (push_bit 1 y) (Suc n)" using sh by simp
      with 2 show ?thesis by (simp add: bit_simps)
    qed (use top in simp)
  qed
qed

lemma crc16_byte_inj_state: "crc16_byte s b = crc16_byte s' b \<Longrightarrow> s = s'"
  unfolding crc16_byte_def
  by (drule injD [OF funpow_inj [OF inj_crc16_bit]]) (simp add: word_xor_cancel)

lemma crc16_byte_inj_byte:
  assumes "crc16_byte s b = crc16_byte s b'"
  shows "b = b'"
proof (rule bit_word_eqI)
  fix n assume n: "n < LENGTH(8)"
  have "push_bit 8 (ucast b :: u16) = push_bit 8 (ucast b')"
    using assms unfolding crc16_byte_def
    by (auto dest!: injD [OF funpow_inj [OF inj_crc16_bit]] simp: word_xor_cancel)
  then have "bit (push_bit 8 (ucast b :: u16)) (n + 8) = bit (push_bit 8 (ucast b' :: u16)) (n + 8)"
    by simp
  with n show "bit b n = bit b' n" by (simp add: bit_simps)
qed

interpretation crc16: byte_checksum crc16_byte "0xFFFF" "\<lambda>s. s"
  by unfold_locales (auto dest: crc16_byte_inj_state crc16_byte_inj_byte)

section \<open>CRC32C as a reflected shift register\<close>

text \<open>
  The bit step of \<open>crc32c_sw\<close>, at any width of at least 32 bits: the message still to be shifted
  in sits above the state.
\<close>

definition refl_step :: "'a::len word \<Rightarrow> 'a word" where
  "refl_step x = drop_bit 1 x XOR (if odd x then 0x82F63B78 else 0)"

lemma crc32c_bit_refl: "crc32c_bit crc = refl_step crc"
proof (cases "odd crc")
  case True
  then have "crc AND 1 = 1" by (simp add: and_one_eq odd_iff_mod_2_eq_one)
  with True show ?thesis by (simp add: crc32c_bit_def refl_step_def)
next
  case False
  then have "crc AND 1 = 0" by (simp add: and_one_eq even_iff_mod_2_eq_zero)
  with False show ?thesis by (simp add: crc32c_bit_def refl_step_def)
qed

lemma crc32c_bit_eq: "crc32c_bit = refl_step"
  by (rule ext) (rule crc32c_bit_refl)

lemma refl_step_xor: "refl_step (x XOR y) = refl_step x XOR refl_step y"
  by (rule bit_word_eqI) (auto simp: refl_step_def drop_bit_xor even_xor_iff bit_xor_iff)

lemma refl_steps_xor: "(refl_step ^^ n) (x XOR y) = (refl_step ^^ n) x XOR (refl_step ^^ n) y"
  by (induction n arbitrary: x y) (simp_all add: refl_step_xor)

lemma refl_step_push:
  assumes "\<And>m. LENGTH('a) - 1 \<le> m \<Longrightarrow> \<not> bit (y :: 'a::len word) m"
  shows "refl_step (push_bit 1 y) = y"
proof (rule bit_word_eqI)
  fix m assume "m < LENGTH('a)"
  moreover have "\<not> bit y m" if "\<not> Suc m < LENGTH('a)" using assms [of m] that by simp
  ultimately show "bit (refl_step (push_bit 1 y)) m = bit y m"
    by (auto simp: refl_step_def bit_simps)
qed

lemma refl_steps_push:
  assumes "\<And>m. LENGTH('a) - n \<le> m \<Longrightarrow> \<not> bit (y :: 'a::len word) m"
  shows "(refl_step ^^ n) (push_bit n y) = y"
  using assms
proof (induction n)
  case (Suc n)
  have "push_bit (Suc n) y = push_bit 1 (push_bit n y)" by (simp add: push_bit_push_bit)
  moreover have "\<not> bit (push_bit n y) m" if "LENGTH('a) - 1 \<le> m" for m
    using Suc.prems [of "m - n"] that by (auto simp: bit_push_bit_iff)
  ultimately have "refl_step (push_bit (Suc n) y) = push_bit n y"
    using refl_step_push [of "push_bit n y"] by simp
  moreover have "(refl_step ^^ n) (push_bit n y) = y"
    by (rule Suc.IH) (use Suc.prems in auto)
  ultimately show ?case by (simp only: funpow_Suc_right o_apply)
qed simp

lemma refl_steps_absorb:
  assumes "\<And>m. LENGTH('a) - n \<le> m \<Longrightarrow> \<not> bit (y :: 'a::len word) m"
  shows "(refl_step ^^ n) (x XOR push_bit n y) = (refl_step ^^ n) x XOR y"
  by (simp add: refl_steps_xor refl_steps_push [OF assms])

lemma bit_0x82F63B78: "32 \<le> n \<Longrightarrow> \<not> bit (0x82F63B78 :: 'a::len word) n"
proof
  assume n: "32 \<le> n" and "bit (0x82F63B78 :: 'a word) n"
  then have "bit (0x82F63B78 :: int) n" by (simp add: bit_numeral_word_iff)
  moreover have "(0x82F63B78 :: int) < 2 ^ n"
    using power_increasing [OF n, of "2 :: int"] by simp
  ultimately show False by (simp add: bit_iff_odd)
qed

lemma refl_step_ucast:
  assumes "32 \<le> LENGTH('a::len)"
  shows "refl_step (ucast (c :: u32) :: 'a word) = ucast (refl_step c)"
proof (rule bit_word_eqI)
  fix m assume m: "m < LENGTH('a)"
  have parity: "odd (ucast c :: 'a word) = odd c"
    using assms by (simp flip: bit_0 add: bit_ucast_iff)
  have "bit (0x82F63B78 :: 'a word) m = bit (0x82F63B78 :: u32) m"
    using m by (simp add: bit_numeral_word_iff) (meson bit_0x82F63B78 bit_numeral_word_iff not_less)
  moreover have "bit c (Suc m) \<Longrightarrow> Suc m < LENGTH('a)"
    using assms by (auto dest: bit_imp_le_length)
  ultimately show "bit (refl_step (ucast c :: 'a word)) m = bit (ucast (refl_step c) :: 'a word) m"
    using m parity by (auto simp: refl_step_def bit_simps)
qed

lemma refl_steps_ucast:
  assumes "32 \<le> LENGTH('a::len)"
  shows "(refl_step ^^ n) (ucast (c :: u32) :: 'a word) = ucast ((refl_step ^^ n) c)"
  using assms by (induction n arbitrary: c) (simp_all add: refl_step_ucast)

lemma crc32c_byte_refl: "crc32c_byte c b = (refl_step ^^ 8) (c XOR ucast b)"
  by (simp add: crc32c_byte_def crc32c_bit_eq)

text \<open>Shifting in whole little-endian words is the byte-by-byte computation.\<close>

lemma refl_steps_load_le:
  assumes "32 \<le> LENGTH('a::len)" and "8 * length bs \<le> LENGTH('a)"
  shows "(refl_step ^^ (8 * length bs)) (ucast c XOR load_le bs :: 'a word)
       = ucast (foldl crc32c_byte c bs)"
  using assms(2)
proof (induction bs arbitrary: c)
  case (Cons b bs)
  let ?y = "load_le bs :: 'a word"
  have "(refl_step ^^ (8 * length (b # bs))) (ucast c XOR load_le (b # bs) :: 'a word)
      = (refl_step ^^ (8 * length bs)) ((refl_step ^^ 8) (ucast (c XOR ucast b) XOR push_bit 8 ?y))"
  proof -
    have "ucast (c XOR ucast b) = (ucast c XOR ucast b :: 'a word)"
      by (rule bit_word_eqI) (use assms(1) in \<open>auto simp: bit_simps bit_word_ge\<close>)
    moreover have "8 * length (b # bs) = 8 * length bs + 8" by simp
    ultimately show ?thesis
      by (simp only: load_le_Cons_xor funpow_add o_apply xor.assoc)
  qed
  also have "(refl_step ^^ 8) (ucast (c XOR ucast b) XOR push_bit 8 ?y) = ucast (crc32c_byte c b) XOR ?y"
  proof -
    have "\<not> bit ?y m" if "LENGTH('a) - 8 \<le> m" for m
      using Cons.prems that by (intro bit_load_le) simp
    from refl_steps_absorb [where n = 8, OF this, of "ucast (c XOR ucast b)"] show ?thesis
      by (simp only: refl_steps_ucast [OF assms(1)] crc32c_byte_refl)
  qed
  finally show ?case using Cons by simp
qed simp

section \<open>CRC32C meets the contract, and detects bursts of four bytes\<close>

lemma inj_refl_step: "inj (refl_step :: u32 \<Rightarrow> u32)"
proof (rule injI)
  fix x y :: u32 assume eq: "refl_step x = refl_step y"
  have top: "bit (refl_step z) 31 = odd z" for z :: u32
    by (simp add: refl_step_def bit_simps bit_word_ge)
  from eq have par: "odd x = odd y" by (metis top)
  with eq have sh: "drop_bit 1 x = drop_bit 1 y"
    by (auto simp: refl_step_def word_xor_cancel split: if_splits)
  show "x = y"
  proof (rule bit_word_eqI)
    fix n show "bit x n = bit y n"
    proof (cases n)
      case (Suc m)
      have "bit (drop_bit 1 x) m = bit (drop_bit 1 y) m" using sh by simp
      with Suc show ?thesis by (simp add: bit_drop_bit_eq)
    qed (use par in \<open>simp add: bit_0\<close>)
  qed
qed

lemma crc32c_byte_inj_state: "crc32c_byte s b = crc32c_byte s' b \<Longrightarrow> s = s'"
  unfolding crc32c_byte_refl
  by (drule injD [OF funpow_inj [OF inj_refl_step]]) (simp add: word_xor_cancel)

lemma crc32c_byte_inj_byte: "crc32c_byte s b = crc32c_byte s b' \<Longrightarrow> b = b'"
  unfolding crc32c_byte_refl
  by (drule injD [OF funpow_inj [OF inj_refl_step]])
    (auto simp: word_xor_cancel intro: ucast_u8_inj [where 'a = 32])

interpretation crc32: byte_checksum crc32c_byte "0xFFFFFFFF" "\<lambda>s. NOT s"
  by unfold_locales (auto dest: crc32c_byte_inj_state crc32c_byte_inj_byte)

lemma load_le_inj:
  "length p = length q \<Longrightarrow> 8 * length p \<le> LENGTH('a::len) \<Longrightarrow>
   (load_le p :: 'a word) = load_le q \<Longrightarrow> p = q"
proof (induction p q rule: list_induct2)
  case (Cons b p c q)
  have low: "bit (load_le (d # r) :: 'a word) n = bit d n" if "n < 8" for d r n
    using Cons.prems(1) that by (auto simp: bit_simps)
  have "b = c"
  proof (rule bit_word_eqI)
    fix n assume "n < LENGTH(8)"
    then have n: "n < 8" by simp
    have "bit (load_le (b # p) :: 'a word) n = bit (load_le (c # q) :: 'a word) n"
      by (simp only: Cons.prems(2))
    then show "bit b n = bit c n" by (simp only: low [OF n])
  qed
  moreover have "push_bit 8 (load_le p :: 'a word) = push_bit 8 (load_le q)"
    using Cons.prems(2) unfolding load_le_Cons_xor \<open>b = c\<close> by (simp only: word_xor_cancel)
  then have "(load_le p :: 'a word) = load_le q"
  proof (intro bit_word_eqI)
    fix n assume eq: "push_bit 8 (load_le p :: 'a word) = push_bit 8 (load_le q)"
      and "n < LENGTH('a)"
    have "bit (push_bit 8 (load_le p :: 'a word)) (n + 8) = bit (push_bit 8 (load_le q :: 'a word)) (n + 8)"
      using eq by simp
    moreover have "\<not> bit (load_le r :: 'a word) n" if "\<not> n + 8 < LENGTH('a)" "length r = length p" for r
      using that Cons.prems(1) by (intro bit_load_le) simp
    ultimately show "bit (load_le p :: 'a word) n = bit (load_le q :: 'a word) n"
      using Cons.hyps by (cases "n + 8 < LENGTH('a)") (simp_all add: bit_push_bit_iff)
  qed
  ultimately show ?case using Cons by simp
qed simp

lemma crc32c_window_inj:
  assumes "length p = length q" and "length p \<le> 4"
    and "foldl crc32c_byte s p = foldl crc32c_byte s q"
  shows "p = q"
proof -
  have "(refl_step ^^ (8 * length p)) (s XOR load_le p) = (refl_step ^^ (8 * length p)) (s XOR load_le q)"
    using refl_steps_load_le [where 'a = 32, of p s] refl_steps_load_le [where 'a = 32, of q s] assms
    by simp
  then have "load_le p = (load_le q :: u32)"
    by (auto dest: injD [OF funpow_inj [OF inj_refl_step]] simp: word_xor_cancel)
  then show ?thesis using assms by (intro load_le_inj [where 'a = 32]) auto
qed

lemma crc32c_burst:
  assumes "length p = length q" and "length p \<le> 4" and "p \<noteq> q"
  shows "crc32c_sw (xs @ p @ ys) \<noteq> crc32c_sw (xs @ q @ ys)"
proof
  assume "crc32c_sw (xs @ p @ ys) = crc32c_sw (xs @ q @ ys)"
  then have "foldl crc32c_byte (foldl crc32c_byte 0xFFFFFFFF xs) p
           = foldl crc32c_byte (foldl crc32c_byte 0xFFFFFFFF xs) q"
    unfolding crc32c_sw_def foldl_append by (rule crc32.detects_state)
  from crc32c_window_inj [OF assms(1,2) this] assms(3) show False by simp
qed

section \<open>The SSE4.2 instruction\<close>

text \<open>
  Intel's description of CRC32 r32, r/m8 and CRC32 r64, r/m64: reflect both operands, align them,
  add, take the remainder modulo the polynomial 11EDC6F41H over GF(2), reflect back.  \<open>mod2 i x\<close>
  is that remainder for a dividend whose bits from \<open>32 + i\<close> on are clear.
\<close>

fun mod2 :: "nat \<Rightarrow> 'a::len word \<Rightarrow> 'a word" where
  "mod2 0 x = x"
| "mod2 (Suc i) x = mod2 i (if bit x (32 + i) then x XOR push_bit i 0x11EDC6F41 else x)"

definition crc32_r32_m8 :: "u32 \<Rightarrow> u8 \<Rightarrow> u32" where
  "crc32_r32_m8 dest src =
     (let temp1 = word_reverse src; temp2 = word_reverse dest;
          temp3 = push_bit 32 (ucast temp1 :: 40 word); temp4 = push_bit 8 (ucast temp2);
          temp5 = temp3 XOR temp4; temp6 = mod2 8 temp5
      in word_reverse (ucast temp6))"

definition crc32_r64_m64 :: "u64 \<Rightarrow> u64 \<Rightarrow> u64" where
  "crc32_r64_m64 dest src =
     (let temp1 = word_reverse src; temp2 = word_reverse (ucast dest :: u32);
          temp3 = push_bit 32 (ucast temp1 :: 96 word); temp4 = push_bit 64 (ucast temp2);
          temp5 = temp3 XOR temp4; temp6 = mod2 64 temp5
      in ucast (word_reverse (ucast temp6 :: u32)))"

definition sse42_documented :: "cpu \<Rightarrow> bool" where
  "sse42_documented cpu \<longleftrightarrow> (cpu_has_sse42 cpu \<longrightarrow>
     (\<forall>dest src. mm_crc32_u8 cpu dest src = crc32_r32_m8 dest src) \<and>
     (\<forall>dest src. mm_crc32_u64 cpu dest src = crc32_r64_m64 dest src))"

text \<open>The machine of Intel's manual, for witnesses.\<close>

definition intel_cpu :: cpu where
  "intel_cpu = \<lparr>cpu_has_sse42 = True, mm_crc32_u8 = crc32_r32_m8, mm_crc32_u64 = crc32_r64_m64\<rparr>"

lemma sse42_documented_intel [simp]: "sse42_documented intel_cpu"
  by (simp add: sse42_documented_def intel_cpu_def)

text \<open>
  The long division on reflected operands is the shift register: \<open>drop_bit (n - i)\<close> of the reversed
  dividend after \<open>n - i\<close> division steps is the register after as many bit steps.
\<close>

lemma poly_reflect: "j < 32 \<Longrightarrow> bit (0x11EDC6F41 :: int) (31 - j) = bit (0x82F63B78 :: int) j"
proof -
  have "list_all (\<lambda>j. bit (0x11EDC6F41 :: int) (31 - j) = bit (0x82F63B78 :: int) j) [0..<32]"
    by code_simp
  moreover assume "j < 32"
  ultimately show ?thesis by (simp add: list_all_iff)
qed

lemma bit_poly: "32 < m \<Longrightarrow> \<not> bit (0x11EDC6F41 :: int) m"
proof -
  assume "32 < m"
  then have "(2 :: int) ^ 33 \<le> 2 ^ m" by (intro power_increasing) simp_all
  then show ?thesis by (simp add: bit_iff_odd)
qed

lemma bit_reflected:
  assumes "LENGTH('a) = 32 + n" and "k \<le> n"
  shows "bit (drop_bit (n - k) (word_reverse (x :: 'a::len word))) j = (j < 32 + k \<and> bit x (31 + k - j))"
  using assms by (auto simp: bit_drop_bit_eq bit_word_reverse_iff intro: arg_cong [where f = "bit x", THEN iffD1])

lemma division_step_clears:
  assumes "\<And>m. 32 + Suc i \<le> m \<Longrightarrow> \<not> bit (x :: 'a::len word) m" and "32 + i \<le> m"
  shows "\<not> bit (if bit x (32 + i) then x XOR push_bit i 0x11EDC6F41 else x) m"
proof (cases "m = 32 + i")
  case True
  then show ?thesis by (auto simp: bit_simps bit_word_ge dest: bit_imp_le_length)
next
  case False
  with assms show ?thesis by (auto simp: bit_simps bit_poly)
qed

lemma division_step_reflected:
  assumes "LENGTH('a) = 32 + n" and "Suc i \<le> n"
  shows "refl_step (drop_bit (n - Suc i) (word_reverse (x :: 'a::len word)))
       = drop_bit (n - i) (word_reverse (if bit x (32 + i) then x XOR push_bit i 0x11EDC6F41 else x))"
    (is "refl_step ?y = drop_bit _ (word_reverse ?x')")
proof (rule bit_word_eqI)
  fix j assume j: "j < LENGTH('a)"
  have odd: "odd ?y = bit x (32 + i)"
    using bit_reflected [OF assms, of x 0] by (simp add: bit_0)
  have "bit (refl_step ?y) j = ((j < 32 + i \<and> bit x (31 + i - j)) \<noteq> (bit x (32 + i) \<and> bit (0x82F63B78 :: int) j))"
    using bit_reflected [OF assms, of x "Suc j"] j by (auto simp: refl_step_def odd bit_xor_iff bit_drop_bit_eq)
  also have "\<dots> = (j < 32 + i \<and> bit ?x' (31 + i - j))"
  proof (cases "j < 32")
    case True
    with assms show ?thesis by (auto simp: bit_simps poly_reflect)
  next
    case False
    then have "\<not> bit (0x82F63B78 :: int) j"
      using bit_0x82F63B78 [where 'a = 'a, of j] j by simp
    with False show ?thesis by (auto simp: bit_simps)
  qed
  also have "\<dots> = bit (drop_bit (n - i) (word_reverse ?x')) j"
    using assms by (subst bit_reflected) simp_all
  finally show "bit (refl_step ?y) j = bit (drop_bit (n - i) (word_reverse ?x')) j" .
qed

lemma mod2_refl_steps:
  assumes "LENGTH('a) = 32 + n" and "i \<le> n"
    and "\<And>m. 32 + i \<le> m \<Longrightarrow> \<not> bit (x :: 'a::len word) m"
  shows "drop_bit n (word_reverse (mod2 i x)) = (refl_step ^^ i) (drop_bit (n - i) (word_reverse x))"
  using assms(2,3)
proof (induction i arbitrary: x)
  case (Suc i)
  define x' where "x' = (if bit x (32 + i) then x XOR push_bit i 0x11EDC6F41 else x)"
  have "drop_bit n (word_reverse (mod2 (Suc i) x)) = drop_bit n (word_reverse (mod2 i x'))"
    by (simp add: x'_def)
  also have "\<dots> = (refl_step ^^ i) (drop_bit (n - i) (word_reverse x'))"
    using Suc.prems division_step_clears [OF Suc.prems(2)] unfolding x'_def by (intro Suc.IH) auto
  also have "drop_bit (n - i) (word_reverse x') = refl_step (drop_bit (n - Suc i) (word_reverse x))"
    using division_step_reflected [OF assms(1) Suc.prems(1)] unfolding x'_def by simp
  finally show ?case by (simp only: funpow_Suc_right o_apply)
qed simp

lemma crc32_division:
  fixes src :: "'d::len word" and dest :: u32
  defines "t \<equiv> push_bit 32 (ucast (word_reverse src)) XOR push_bit LENGTH('d) (ucast (word_reverse dest))
                :: 'w::len word"
  assumes width: "LENGTH('w) = 32 + LENGTH('d)"
  shows "word_reverse (ucast (mod2 LENGTH('d) t) :: u32)
       = ucast ((refl_step ^^ LENGTH('d)) (ucast dest XOR ucast src :: 'w word))"
proof (rule bit_word_eqI)
  let ?n = "LENGTH('d)" and ?z = "ucast dest XOR ucast src :: 'w word"
  fix j assume "j < LENGTH(32)"
  then have j: "j < 32" by simp
  have t: "word_reverse t = ?z"
  proof (rule bit_word_eqI)
    fix m assume m: "m < LENGTH('w)"
    have "bit (word_reverse t) m = bit t (31 + ?n - m)"
      using m width by (simp add: bit_word_reverse_iff)
    also have "\<dots> = ((m < ?n \<and> bit src m) \<noteq> (m < 32 \<and> bit dest m))"
      using m width by (auto simp: t_def bit_xor_iff bit_push_bit_iff bit_ucast_iff bit_word_reverse_iff)
    also have "\<dots> = bit ?z m"
      using m by (auto simp: bit_xor_iff bit_ucast_iff dest: bit_imp_le_length)
    finally show "bit (word_reverse t) m = bit ?z m" .
  qed
  have "drop_bit ?n (word_reverse (mod2 ?n t)) = (refl_step ^^ ?n) (drop_bit (?n - ?n) (word_reverse t))"
    by (rule mod2_refl_steps) (use width in \<open>auto dest: bit_imp_le_length\<close>)
  then have "bit ((refl_step ^^ ?n) ?z) j = bit (drop_bit ?n (word_reverse (mod2 ?n t))) j"
    by (simp add: t)
  then show "bit (word_reverse (ucast (mod2 ?n t) :: u32)) j = bit (ucast ((refl_step ^^ ?n) ?z) :: u32) j"
    using j width by (auto simp: bit_drop_bit_eq bit_word_reverse_iff bit_ucast_iff)
qed

lemma load_le_ucast:
  assumes "8 * length bs \<le> LENGTH('b)" and "LENGTH('b) \<le> LENGTH('a)"
  shows "(ucast (load_le bs :: 'b::len word) :: 'a::len word) = load_le bs"
  using assms(1)
proof (induction bs)
  case (Cons b bs)
  then have IH: "bit (load_le bs :: 'a word) n = bit (load_le bs :: 'b word) n" for n
  proof -
    have "bit (load_le bs :: 'a word) n = bit (ucast (load_le bs :: 'b word) :: 'a word) n"
      using Cons by simp
    also have "\<dots> = bit (load_le bs :: 'b word) n"
      using assms(2) by (auto simp: bit_ucast_iff dest: bit_imp_le_length)
    finally show ?thesis .
  qed
  show ?case
  proof (rule bit_word_eqI)
    fix n assume "n < LENGTH('a)"
    moreover have "n < LENGTH('b)" if "bit (load_le bs :: 'b word) (n - 8)"
      using that Cons.prems bit_load_le [of bs "n - 8", where 'a = 'b] by force
    ultimately show "bit (ucast (load_le (b # bs) :: 'b word) :: 'a word) n = bit (load_le (b # bs) :: 'a word) n"
      using Cons.prems assms(2)
      by (auto simp: bit_simps IH bit_word_ge dest: bit_imp_le_length)
  qed
qed simp

lemma crc32_r32_m8_byte: "crc32_r32_m8 dest src = crc32c_byte dest src"
  using crc32_division [where 'w = 40 and 'd = 8, of src dest]
    refl_steps_load_le [where 'a = 40, of "[src]" dest]
  by (simp add: crc32_r32_m8_def Let_def)

lemma crc32_r64_m64_bytes:
  assumes "length bs = 8"
  shows "crc32_r64_m64 (ucast (s :: u32)) (load_le bs) = ucast (foldl crc32c_byte s bs)"
  using crc32_division [where 'w = 96 and 'd = 64, of "load_le bs" s]
    refl_steps_load_le [where 'a = 96, of bs s] load_le_ucast [where 'a = 96 and 'b = 64, of bs] assms
  by (simp add: crc32_r64_m64_def Let_def)

lemma crc32c_hw_tail_bytes:
  assumes "sse42_documented cpu" and "cpu_has_sse42 cpu"
  shows "crc32c_hw_tail cpu (ucast (s :: u32)) p = ucast (foldl crc32c_byte s p)"
  using assms by (induction p arbitrary: s) (simp_all add: sse42_documented_def crc32_r32_m8_byte)

lemma crc32c_hw_loop_bytes:
  assumes "sse42_documented cpu" and "cpu_has_sse42 cpu"
  shows "crc32c_hw_loop cpu (ucast (s :: u32)) p = ucast (foldl crc32c_byte s p)"
proof (induction p arbitrary: s rule: length_induct)
  case (1 p)
  show ?case
  proof (cases "8 \<le> length p")
    case True
    have "mm_crc32_u64 cpu (ucast s) (load_le (take 8 p)) = ucast (foldl crc32c_byte s (take 8 p))"
      using assms True crc32_r64_m64_bytes [of "take 8 p" s] by (simp add: sse42_documented_def)
    moreover have "crc32c_hw_loop cpu (ucast s') (drop 8 p) = ucast (foldl crc32c_byte s' (drop 8 p))" for s' :: u32
      using 1 True by simp
    moreover have "foldl crc32c_byte (foldl crc32c_byte s (take 8 p)) (drop 8 p) = foldl crc32c_byte s p"
      by (simp flip: foldl_append)
    ultimately show ?thesis using True by (simp add: crc32c_hw_loop.simps [of _ "ucast s" p])
  next
    case False
    then show ?thesis by (simp add: crc32c_hw_loop.simps crc32c_hw_tail_bytes [OF assms])
  qed
qed

lemma crc32c_hw_sw:
  assumes "sse42_documented cpu" and "cpu_has_sse42 cpu"
  shows "crc32c_hw cpu data = crc32c_sw data"
  using crc32c_hw_loop_bytes [OF assms, of "0xFFFFFFFF" data]
  by (simp add: crc32c_hw_def crc32c_sw_def)

lemma crc32c_eq_sw:
  assumes "sse42_documented cpu"
  shows "crc32c cpu data = crc32c_sw data"
  using crc32c_hw_sw [OF assms] by (simp add: crc32c_def)

section \<open>Properties\<close>

text \<open>
  C11: whichever path the cpuid bit selects, \<open>crc32c()\<close> computes the portable bit-at-a-time CRC32C,
  for every message, provided the two intrinsics behave as Intel documents the instruction.
\<close>

theorem crc32c_paths_agree:
  assumes "sse42_documented cpu"
  shows "crc32c cpu data = crc32c_sw data"
  by (rule crc32c_eq_sw [OF assms])

theorem crc32c_paths_agree_witness:
  "crc32c intel_cpu [0x31,0x32,0x33,0x34,0x35,0x36,0x37,0x38,0x39] = 0xE3069283"
  using crc32c_paths_agree [OF sse42_documented_intel, of "[0x31,0x32,0x33,0x34,0x35,0x36,0x37,0x38,0x39]"]
  by (simp add: crc32c_sw_def crc32c_byte_def crc32c_bit_def funpow_8 Let_def)

text \<open>
  C33: CRC32C detects every error burst confined to four consecutive bytes: two messages that agree
  outside such a window and differ inside it have different checksums.
\<close>

theorem crc32c_detects_burst:
  assumes "length p = length q" and "length p \<le> 4" and "p \<noteq> q"
  shows "crc32c_sw (xs @ p @ ys) \<noteq> crc32c_sw (xs @ q @ ys)"
  by (rule crc32c_burst [OF assms])

theorem crc32c_detects_burst_witness:
  "crc32c_sw ([1] @ [2, 3, 4, 5] @ [6]) \<noteq> crc32c_sw ([1] @ [2, 0, 0, 6] @ [6])"
  by (rule crc32c_detects_burst) simp_all

text \<open>
  The published check values of both checksums over ASCII "123456789", which the header quotes
  and the tests assert.
\<close>

theorem crc_check_values:
  "crc16_ccitt_false [0x31,0x32,0x33,0x34,0x35,0x36,0x37,0x38,0x39] = 0x29B1 \<and>
   crc32c_sw [0x31,0x32,0x33,0x34,0x35,0x36,0x37,0x38,0x39] = 0xE3069283 \<and>
   crc16_ccitt_false [] = 0xFFFF \<and> crc32c_sw [] = 0"
  by (simp add: crc16_ccitt_false_def crc16_byte_def crc16_bit_def
        crc32c_sw_def crc32c_byte_def crc32c_bit_def funpow_8 Let_def)

end
