(* ===== verification/Wire.thy ===== *)
theory Wire
  imports Crc
begin

text \<open>
  \<^verbatim>\<open>src/common/wire.{hpp,cpp}\<close>: the 12-byte Uniflow prefix.  A datagram is the byte list the kernel
  delivered, \<open>None\<close> a null pointer; the body span handed back is its bytes, \<open>None\<close> the null/0 pair.
\<close>

section \<open>Little-endian fields\<close>

definition put_le16 :: "u16 \<Rightarrow> u8 list" where
  "put_le16 v = [ucast v, ucast (drop_bit 8 v)]"

definition put_le32 :: "u32 \<Rightarrow> u8 list" where
  "put_le32 v = put_le16 (ucast v) @ put_le16 (ucast (drop_bit 16 v))"

definition get_le16 :: "u8 list \<Rightarrow> nat \<Rightarrow> u16" where
  "get_le16 p off = ucast (p ! off) OR push_bit 8 (ucast (p ! (off + 1)))"

definition get_le32 :: "u8 list \<Rightarrow> nat \<Rightarrow> u32" where
  "get_le32 p off = ucast (get_le16 p off) OR push_bit 16 (ucast (get_le16 p (off + 2)))"

section \<open>The prefix\<close>

definition WIRE_PREFIX_SIZE :: nat where
  "WIRE_PREFIX_SIZE = 12"

definition WIRE_MAGIC :: "u8 list" where
  "WIRE_MAGIC = [0x55, 0x4E, 0x49, 0x46]"

datatype WireValidateResult =
  WireOk | WireBadMagic | WireBadHeaderCrc | WireProtoLenOutOfBounds | WireBadBodyCrc

definition validate_frame_prefix ::
  "cpu \<Rightarrow> u8 list option \<Rightarrow> WireValidateResult \<times> u8 list option" where
  "validate_frame_prefix cpu datagram =
     (case datagram of
        None \<Rightarrow> (WireBadMagic, None)
      | Some d \<Rightarrow>
          if length d < WIRE_PREFIX_SIZE then (WireBadMagic, None)
          else if take 4 d \<noteq> WIRE_MAGIC then (WireBadMagic, None)
          else
            let hdr_crc_received = get_le16 d 6; hdr_crc_computed = crc16_ccitt_false (take 6 d)
            in if hdr_crc_received \<noteq> hdr_crc_computed then (WireBadHeaderCrc, None)
            else
              let proto_len = unat (get_le16 d 4)
              in if WIRE_PREFIX_SIZE + proto_len > length d then (WireProtoLenOutOfBounds, None)
              else
                let body = buf_get d WIRE_PREFIX_SIZE proto_len;
                    body_crc_received = get_le32 d 8; body_crc_computed = crc32c cpu body
                in if body_crc_received \<noteq> body_crc_computed then (WireBadBodyCrc, None)
                else (WireOk, Some body))"

text \<open>
  \<open>build_frame\<close> returns the frame size and the caller's buffer as it leaves it; the buffer behind
  \<open>out\<close> is at least \<open>cap\<close> bytes.  A null body with a non-zero length is noticed only after the header
  has been written.
\<close>

definition build_frame ::
  "cpu \<Rightarrow> u8 list option \<Rightarrow> nat \<Rightarrow> u8 list option \<Rightarrow> nat \<Rightarrow> nat \<times> u8 list option" where
  "build_frame cpu out cap body body_len =
     (case out of
        None \<Rightarrow> (0, None)
      | Some buf \<Rightarrow>
          if body_len > 0xFFFF then (0, Some buf)
          else if WIRE_PREFIX_SIZE + body_len > cap then (0, Some buf)
          else
            let buf1 = buf_put buf 0 WIRE_MAGIC;
                buf2 = buf_put buf1 4 (put_le16 (of_nat body_len));
                buf3 = buf_put buf2 6 (put_le16 (crc16_ccitt_false (take 6 buf2)))
            in case (if body_len > 0
                     then map_option (\<lambda>b. buf_put buf3 WIRE_PREFIX_SIZE (take body_len b)) body
                     else Some buf3) of
                 None \<Rightarrow> (0, Some buf3)
               | Some buf4 \<Rightarrow>
                   (WIRE_PREFIX_SIZE + body_len,
                    Some (buf_put buf4 8 (put_le32 (crc32c cpu (buf_get buf4 WIRE_PREFIX_SIZE body_len))))))"

text \<open>The bytes a frame consists of, as the layout table of wire.hpp lists them.\<close>

definition wire_frame :: "u8 list \<Rightarrow> u8 list" where
  "wire_frame body =
     (let hdr = WIRE_MAGIC @ put_le16 (of_nat (length body))
      in hdr @ put_le16 (crc16_ccitt_false hdr) @ put_le32 (crc32c_sw body) @ body)"

section \<open>Codec lemmas\<close>

lemma length_put_le16 [simp, wire_simps]: "length (put_le16 v) = 2"
  by (simp add: put_le16_def)

lemma length_put_le32 [simp, wire_simps]: "length (put_le32 v) = 4"
  by (simp add: put_le32_def)

lemma length_WIRE_MAGIC [simp, wire_simps]: "length WIRE_MAGIC = 4"
  by (simp add: WIRE_MAGIC_def)

lemma get_put_le16 [wire_simps]: "get_le16 (put_le16 v) 0 = v"
  by (rule bit_word_eqI) (auto simp: get_le16_def put_le16_def bit_simps)

lemma get_put_le32 [wire_simps]: "get_le32 (put_le32 v) 0 = v"
proof -
  have "get_le16 (put_le32 v) 0 = ucast v" and "get_le16 (put_le32 v) 2 = ucast (drop_bit 16 v)"
    using get_put_le16 by (simp_all add: get_le16_def put_le32_def put_le16_def)
  then have "get_le32 (put_le32 v) 0 = ucast (ucast v :: u16) OR push_bit 16 (ucast (ucast (drop_bit 16 v) :: u16))"
    by (simp only: get_le32_def add_0)
  also have "\<dots> = v" by (rule bit_word_eqI) (auto simp: bit_simps)
  finally show ?thesis .
qed

lemma put_get_le16 [wire_simps]: "put_le16 (get_le16 p off) = [p ! off, p ! (off + 1)]"
  by (auto simp: put_le16_def get_le16_def bit_simps bit_word_ge intro!: bit_word_eqI)

lemma put_get_le32 [wire_simps]:
  "put_le32 (get_le32 p off) = [p ! off, p ! (off + 1), p ! (off + 2), p ! (off + 3)]"
proof -
  have "ucast (get_le32 p off) = get_le16 p off"
    and "ucast (drop_bit 16 (get_le32 p off)) = get_le16 p (off + 2)"
    by (auto simp: get_le32_def bit_simps bit_word_ge intro!: bit_word_eqI)
  then show ?thesis by (simp add: put_le32_def put_get_le16 eval_nat_numeral)
qed

lemma put_le16_eq_iff: "put_le16 v = put_le16 w \<longleftrightarrow> v = w"
  by (metis get_put_le16)

lemma put_le32_eq_iff: "put_le32 v = put_le32 w \<longleftrightarrow> v = w"
  by (metis get_put_le32)

lemma put_get_le16_buf: "off + 2 \<le> length d \<Longrightarrow> put_le16 (get_le16 d off) = buf_get d off 2"
  by (rule nth_equalityI) (auto simp: put_get_le16 nth_buf_get nth_Cons split: nat.split)

lemma put_get_le32_buf: "off + 4 \<le> length d \<Longrightarrow> put_le32 (get_le32 d off) = buf_get d off 4"
  by (rule nth_equalityI) (auto simp: put_get_le32 nth_buf_get nth_Cons eval_nat_numeral split: nat.split)

lemma get_le16_at [wire_simps]: "off = length xs \<Longrightarrow> get_le16 (xs @ put_le16 v @ ys) off = v"
  using get_put_le16 [of v] by (simp add: get_le16_def nth_append put_le16_def)

lemma get_le32_at [wire_simps]: "off = length xs \<Longrightarrow> get_le32 (xs @ put_le32 v @ ys) off = v"
  using get_put_le32 [of v] get_le16_at [of off xs "ucast v" "put_le16 (ucast (drop_bit 16 v)) @ ys"]
    get_le16_at [of "off + 2" "xs @ put_le16 (ucast v)" "ucast (drop_bit 16 v)" ys]
    get_le16_at [of 0 "[]" "ucast v" "put_le16 (ucast (drop_bit 16 v))"]
    get_le16_at [of "0 + 2" "put_le16 (ucast v)" "ucast (drop_bit 16 v)" "[]"]
  unfolding get_le32_def put_le32_def by simp

lemma frame_split:
  assumes "12 + n \<le> length d"
  shows "d = take 4 d @ buf_get d 4 2 @ buf_get d 6 2 @ buf_get d 8 4 @ buf_get d 12 n @ drop (12 + n) d"
proof -
  have "take (12 + n) d = take 4 d @ buf_get d 4 2 @ buf_get d 6 2 @ buf_get d 8 4 @ buf_get d 12 n"
    using take_add [of 4 "8 + n" d] take_add [of 2 "6 + n" "drop 4 d"]
      take_add [of 2 "4 + n" "drop 6 d"] take_add [of 4 n "drop 8 d"]
    by (simp add: buf_get_def add.commute)
  then show ?thesis by (metis append_take_drop_id append_assoc)
qed

section \<open>What the validator accepts\<close>

lemma length_wire_frame [simp, wire_simps]: "length (wire_frame body) = 12 + length body"
  by (simp add: wire_frame_def Let_def)

lemma validate_wire_frame:
  assumes "sse42_documented cpu" and "length body \<le> 0xFFFF"
  shows "validate_frame_prefix cpu (Some (wire_frame body @ rest)) = (WireOk, Some body)"
proof -
  define hdr where "hdr = WIRE_MAGIC @ put_le16 (of_nat (length body))"
  define c16 where "c16 = crc16_ccitt_false hdr"
  define c32 where "c32 = crc32c_sw body"
  define d where "d = wire_frame body @ rest"
  have d: "d = hdr @ put_le16 c16 @ put_le32 c32 @ body @ rest"
    by (simp add: d_def wire_frame_def hdr_def c16_def c32_def Let_def)
  have hdr6: "length hdr = 6" by (simp add: hdr_def)
  have "get_le16 d 6 = c16" using get_le16_at [of 6 hdr c16] hdr6 by (simp add: d)
  moreover have "get_le16 d 4 = of_nat (length body)"
    using get_le16_at [of 4 WIRE_MAGIC] by (simp add: d hdr_def)
  moreover have "get_le32 d 8 = c32"
    using get_le32_at [of 8 "hdr @ put_le16 c16" c32] hdr6 by (simp add: d)
  moreover have "take 4 d = WIRE_MAGIC" by (simp add: d hdr_def)
  moreover have "take 6 d = hdr" by (simp add: d hdr6)
  moreover have "buf_get d 12 (length body) = body" by (simp add: d buf_get_def hdr6)
  moreover have "length d = 12 + length body + length rest" by (simp add: d_def)
  moreover have "unat (of_nat (length body) :: u16) = length body"
    using assms(2) by (simp add: unat_of_nat take_bit_nat_eq_self)
  ultimately show ?thesis
    unfolding d_def [symmetric]
    by (simp add: validate_frame_prefix_def WIRE_PREFIX_SIZE_def crc32c_eq_sw [OF assms(1)] c16_def c32_def Let_def)
qed

lemma validate_ok_frame:
  assumes "sse42_documented cpu" and "validate_frame_prefix cpu (Some d) = (WireOk, Some body)"
  shows "length body \<le> 0xFFFF \<and> (\<exists>rest. d = wire_frame body @ rest)"
proof -
  define n where "n = unat (get_le16 d 4)"
  from assms have fits: "12 + n \<le> length d" and magic: "take 4 d = WIRE_MAGIC"
    and c16: "get_le16 d 6 = crc16_ccitt_false (take 6 d)"
    and body: "body = buf_get d 12 n" and c32: "get_le32 d 8 = crc32c_sw body"
    by (auto simp: validate_frame_prefix_def WIRE_PREFIX_SIZE_def Let_def n_def crc32c_eq_sw split: if_splits)
  have len: "length body = n" using fits body by simp
  have "n < 2 ^ 16" using unat_lt_exp [of "get_le16 d 4"] by (simp add: n_def)
  then have bound: "length body \<le> 0xFFFF" using len by simp
  have le: "buf_get d 4 2 = put_le16 (of_nat n)"
    using put_get_le16_buf [of 4 d] fits by (simp add: n_def)
  have "take 6 d = take 4 d @ buf_get d 4 2"
    using take_add [of 4 2 d] by (simp add: buf_get_def)
  then have hdr: "take 6 d = WIRE_MAGIC @ put_le16 (of_nat n)" using magic le by simp
  have "buf_get d 6 2 = put_le16 (crc16_ccitt_false (WIRE_MAGIC @ put_le16 (of_nat n)))"
    using put_get_le16_buf [of 6 d] fits c16 hdr by simp
  moreover have "buf_get d 8 4 = put_le32 (crc32c_sw body)"
    using put_get_le32_buf [of 8 d] fits c32 by simp
  ultimately have "d = wire_frame body @ drop (12 + n) d"
    using frame_split [OF fits] magic le body len
    by (metis append_assoc wire_frame_def)
  with bound show ?thesis by blast
qed

section \<open>What the builder builds\<close>

lemma build_frame_frame:
  assumes "sse42_documented cpu" and "length body \<le> 0xFFFF" and "12 + length body \<le> cap"
    and "cap \<le> length buf"
  shows "build_frame cpu (Some buf) cap (Some body) (length body)
       = (12 + length body, Some (wire_frame body @ drop (12 + length body) buf))"
proof -
  define hdr where "hdr = WIRE_MAGIC @ put_le16 (of_nat (length body))"
  define c16 where "c16 = put_le16 (crc16_ccitt_false hdr)"
  have hdr6: "length hdr = 6" and c2: "length c16 = 2" by (simp_all add: hdr_def c16_def)
  have s2: "buf_put (buf_put buf 0 WIRE_MAGIC) 4 (put_le16 (of_nat (length body))) = hdr @ drop 6 buf"
    by (simp add: buf_put_def hdr_def)
  have s3: "buf_put (hdr @ drop 6 buf) 6 c16 = hdr @ c16 @ drop 8 buf"
    by (simp add: buf_put_def hdr6 c2)
  have s4: "buf_put (hdr @ c16 @ drop 8 buf) 12 body
          = hdr @ c16 @ take 4 (drop 8 buf) @ body @ drop (12 + length body) buf"
    using assms(3,4) by (simp add: buf_put_def hdr6 c2 add.commute)
  have get: "buf_get (hdr @ c16 @ take 4 (drop 8 buf) @ body @ r) 12 (length body) = body" for r
    using assms(3,4) by (simp add: buf_get_def hdr6 c2)
  have s5: "buf_put (hdr @ c16 @ take 4 (drop 8 buf) @ body @ r) 8 (put_le32 c)
          = hdr @ c16 @ put_le32 c @ body @ r" for c r
    using assms(3,4) by (simp add: buf_put_def hdr6 c2)
  have t6: "take 6 (hdr @ drop 6 buf) = hdr" by (simp add: hdr6)
  have opt: "(if 0 < length body then map_option (\<lambda>b. buf_put (hdr @ c16 @ drop 8 buf) 12 (take (length body) b)) (Some body)
         else Some (hdr @ c16 @ drop 8 buf))
      = Some (hdr @ c16 @ take 4 (drop 8 buf) @ body @ drop (12 + length body) buf)"
  proof (cases "body = []")
    case True
    have "drop 8 buf = take 4 (drop 8 buf) @ drop 12 buf"
      using append_take_drop_id [of 4 "drop 8 buf"] by simp
    with True show ?thesis by simp
  qed (simp add: s4)
  have guards: "\<not> 0xFFFF < length body" "\<not> cap < 12 + length body" using assms(2,3) by simp_all
  show ?thesis
    unfolding build_frame_def WIRE_PREFIX_SIZE_def option.case if_not_P [OF guards(1)]
      if_not_P [OF guards(2)] Let_def s2 t6 c16_def [symmetric] s3 opt get s5 crc32c_eq_sw [OF assms(1)]
    by (simp add: wire_frame_def Let_def flip: hdr_def c16_def)
qed

section \<open>Corruption of one byte\<close>

lemma wire_frame_nth:
  "i < 4 \<Longrightarrow> wire_frame body ! i = WIRE_MAGIC ! i"
  by (simp add: wire_frame_def Let_def nth_append)

lemma corrupt_magic:
  assumes "i < 4" and "i < length d" and "d ! i \<noteq> b" and "take 4 d = WIRE_MAGIC"
  shows "take 4 (d[i := b]) \<noteq> WIRE_MAGIC"
proof
  assume "take 4 (d[i := b]) = WIRE_MAGIC"
  then have "take 4 (d[i := b]) ! i = take 4 d ! i" by (simp only: assms(4))
  moreover have "take 4 (d[i := b]) ! i = b" and "take 4 d ! i = d ! i"
    using assms(1,2) by (simp_all del: take_update_swap)
  ultimately show False using assms(3) by simp
qed

lemma get_le16_neq:
  assumes "p ! off \<noteq> q ! off \<or> p ! (off + 1) \<noteq> q ! (off + 1)"
  shows "get_le16 p off \<noteq> get_le16 q off"
  using assms put_get_le16 [of p off] put_get_le16 [of q off] by auto

lemma get_le32_neq:
  assumes "\<exists>j<4. p ! (off + j) \<noteq> q ! (off + j)"
  shows "get_le32 p off \<noteq> get_le32 q off"
proof
  assume "get_le32 p off = get_le32 q off"
  then have "put_le32 (get_le32 p off) = put_le32 (get_le32 q off)" by simp
  then have "\<forall>j<4. p ! (off + j) = q ! (off + j)"
    by (simp add: put_get_le32 eval_nat_numeral less_Suc_eq)
  with assms show False by blast
qed

lemma get_le16_update [simp]: "i \<noteq> off \<Longrightarrow> i \<noteq> Suc off \<Longrightarrow> get_le16 (d[i := b]) off = get_le16 d off"
  by (simp add: get_le16_def)

lemma get_le32_update [simp]:
  "i < off \<or> off + 4 \<le> i \<Longrightarrow> get_le32 (d[i := b]) off = get_le32 d off"
  by (auto simp: get_le32_def)

lemma corrupt_header_crc:
  assumes "get_le16 d 6 = crc16_ccitt_false (take 6 d)" and "12 \<le> length d"
    and "4 \<le> i" "i < 8" and "d ! i \<noteq> b"
  shows "get_le16 (d[i := b]) 6 \<noteq> crc16_ccitt_false (take 6 (d[i := b]))"
proof (cases "i < 6")
  case True
  then have "crc16_ccitt_false ((take 6 d)[i := b]) \<noteq> crc16_ccitt_false (take 6 d)"
    unfolding crc16_ccitt_false_def using assms by (intro crc16.detects_update) simp_all
  with True assms show ?thesis by (simp add: take_update_swap)
next
  case False
  then have "i = 6 \<or> i = 7" using assms(4) by auto
  then have "get_le16 (d[i := b]) 6 \<noteq> get_le16 d 6"
    using assms by (intro get_le16_neq) auto
  with False assms show ?thesis by (simp add: take_update_cancel)
qed

lemma buf_get_update:
  "off + n \<le> length d \<Longrightarrow> buf_get (d[i := b]) off n = (if off \<le> i then (buf_get d off n)[i - off := b] else buf_get d off n)"
  by (simp add: buf_get_def drop_update_swap take_update_swap)

lemma corrupt_body_crc:
  assumes "get_le32 d 8 = crc32c_sw (buf_get d 12 n)" and "12 + n \<le> length d"
    and "8 \<le> i" "i < 12 + n" and "d ! i \<noteq> b"
  shows "get_le32 (d[i := b]) 8 \<noteq> crc32c_sw (buf_get (d[i := b]) 12 n)"
proof (cases "i < 12")
  case True
  then have "get_le32 (d[i := b]) 8 \<noteq> get_le32 d 8"
    using assms by (intro get_le32_neq exI [of _ "i - 8"]) auto
  with True assms show ?thesis by (simp add: buf_get_update)
next
  case False
  then have "crc32c_sw ((buf_get d 12 n)[i - 12 := b]) \<noteq> crc32c_sw (buf_get d 12 n)"
    unfolding crc32c_sw_def using assms by (intro crc32.detects_update) (simp_all add: nth_buf_get)
  with False assms show ?thesis by (simp add: buf_get_update)
qed

section \<open>Precedence of the checks\<close>

text \<open>Verdicts in the order of the checks; Ok, which fails none, is the greatest.\<close>

fun check_rank :: "WireValidateResult \<Rightarrow> nat" where
  "check_rank WireBadMagic = 0" | "check_rank WireBadHeaderCrc = 1" | "check_rank WireProtoLenOutOfBounds = 2"
| "check_rank WireBadBodyCrc = 3" | "check_rank WireOk = 4"

lemma check_rank_inj: "check_rank a = check_rank b \<Longrightarrow> a = b"
  by (cases a; cases b) simp_all

instantiation WireValidateResult :: linorder
begin

definition less_eq_WireValidateResult :: "WireValidateResult \<Rightarrow> WireValidateResult \<Rightarrow> bool" where
  "less_eq_WireValidateResult a b \<longleftrightarrow> check_rank a \<le> check_rank b"

definition less_WireValidateResult :: "WireValidateResult \<Rightarrow> WireValidateResult \<Rightarrow> bool" where
  "less_WireValidateResult a b \<longleftrightarrow> check_rank a < check_rank b"

instance
  by standard (auto simp: less_eq_WireValidateResult_def less_WireValidateResult_def dest: check_rank_inj)

end

text \<open>Each check on its own, on bytes it would read past the end if it came first.\<close>

fun check_fails :: "cpu \<Rightarrow> u8 list \<Rightarrow> WireValidateResult \<Rightarrow> bool" where
  "check_fails cpu d WireBadMagic \<longleftrightarrow> length d < WIRE_PREFIX_SIZE \<or> take 4 d \<noteq> WIRE_MAGIC"
| "check_fails cpu d WireBadHeaderCrc \<longleftrightarrow> get_le16 d 6 \<noteq> crc16_ccitt_false (take 6 d)"
| "check_fails cpu d WireProtoLenOutOfBounds \<longleftrightarrow> length d < WIRE_PREFIX_SIZE + unat (get_le16 d 4)"
| "check_fails cpu d WireBadBodyCrc \<longleftrightarrow> get_le32 d 8 \<noteq> crc32c cpu (buf_get d WIRE_PREFIX_SIZE (unat (get_le16 d 4)))"
| "check_fails cpu d WireOk \<longleftrightarrow> True"

lemma verdict_is_least_failure: "fst (validate_frame_prefix cpu (Some d)) = (LEAST r. check_fails cpu d r)"
proof (rule sym, rule Least_equality)
  show "check_fails cpu d (fst (validate_frame_prefix cpu (Some d)))"
    by (auto simp: validate_frame_prefix_def Let_def)
  show "fst (validate_frame_prefix cpu (Some d)) \<le> r" if "check_fails cpu d r" for r
    using that by (cases r) (auto simp: validate_frame_prefix_def Let_def less_eq_WireValidateResult_def)
qed

section \<open>Properties\<close>

text \<open>
  C10: the validator accepts exactly the frames: \<open>validate_frame_prefix\<close> returns Ok with a body if and
  only if the datagram starts with the canonical frame of that body (magic, length, CRC16 of those six
  bytes, CRC32C of the body, body), whatever bytes follow it.
\<close>

theorem validate_accepts_exactly_frames:
  assumes "sse42_documented cpu"
  shows "validate_frame_prefix cpu (Some d) = (WireOk, Some body) \<longleftrightarrow>
         length body \<le> 0xFFFF \<and> (\<exists>rest. d = wire_frame body @ rest)"
  using validate_ok_frame [OF assms] validate_wire_frame [OF assms] by blast

theorem validate_accepts_exactly_frames_witness:
  "validate_frame_prefix intel_cpu (Some (wire_frame [7] @ [9])) = (WireOk, Some [7])"
  using validate_accepts_exactly_frames [of intel_cpu "wire_frame [7] @ [9]" "[7]"] by simp

text \<open>
  C31: round trip.  A frame built into a large enough buffer validates and hands back exactly the body;
  the builder reports its true size and leaves the rest of the caller's buffer alone.
\<close>

theorem build_validate_roundtrip:
  assumes "sse42_documented cpu" and "length body \<le> 0xFFFF" and "12 + length body \<le> cap"
    and "cap \<le> length buf"
  shows "\<exists>buf'. build_frame cpu (Some buf) cap (Some body) (length body) = (12 + length body, Some buf') \<and>
           length buf' = length buf \<and> drop (12 + length body) buf' = drop (12 + length body) buf \<and>
           validate_frame_prefix cpu (Some (take (12 + length body) buf')) = (WireOk, Some body)"
  using build_frame_frame [OF assms] validate_wire_frame [OF assms(1,2), of "[]"] assms(3,4) by simp

theorem build_validate_roundtrip_witness:
  "\<exists>buf'. build_frame intel_cpu (Some (replicate 20 0)) 16 (Some [7]) 1 = (13, Some buf') \<and>
     validate_frame_prefix intel_cpu (Some (take 13 buf')) = (WireOk, Some [7])"
  using build_validate_roundtrip [of intel_cpu "[7]" 16 "replicate 20 0"] by auto

text \<open>
  C32: no single corrupted byte gets through.  Changing any one byte of a valid frame is rejected, with
  the outcome the field dictates: the magic, the header checksum, or the body checksum.
\<close>

theorem validate_rejects_corrupt_byte:
  assumes "sse42_documented cpu" and "length body \<le> 0xFFFF"
    and "i < 12 + length body" and "wire_frame body ! i \<noteq> b"
  shows "validate_frame_prefix cpu (Some ((wire_frame body)[i := b]))
       = (if i < 4 then WireBadMagic else if i < 8 then WireBadHeaderCrc else WireBadBodyCrc, None)"
proof -
  define d where "d = wire_frame body"
  define n where "n = unat (get_le16 d 4)"
  have ok: "validate_frame_prefix cpu (Some d) = (WireOk, Some body)"
    using validate_wire_frame [OF assms(1,2), of "[]"] by (simp add: d_def)
  then have fits: "12 + n \<le> length d" and magic: "take 4 d = WIRE_MAGIC"
    and c16: "get_le16 d 6 = crc16_ccitt_false (take 6 d)"
    and body: "body = buf_get d 12 n" and c32: "get_le32 d 8 = crc32c cpu body"
    by (auto simp: validate_frame_prefix_def WIRE_PREFIX_SIZE_def Let_def n_def split: if_splits)
  have len: "length body = n" using fits body by simp
  have i: "i < length d" and b: "d ! i \<noteq> b" using assms by (simp_all add: d_def)
  have long: "12 \<le> length d" by (simp add: d_def)
  consider "i < 4" | "4 \<le> i" "i < 8" | "8 \<le> i" by linarith
  then show ?thesis
  proof cases
    case 1
    with corrupt_magic [OF 1 i b magic] long show ?thesis
      by (simp add: validate_frame_prefix_def WIRE_PREFIX_SIZE_def flip: d_def)
  next
    case 2
    then have "take 4 (d[i := b]) = WIRE_MAGIC" using magic by (simp add: take_update_cancel)
    moreover have "get_le16 (d[i := b]) 6 \<noteq> crc16_ccitt_false (take 6 (d[i := b]))"
      by (rule corrupt_header_crc [OF c16 long 2 b])
    ultimately show ?thesis
      using 2 long by (simp add: validate_frame_prefix_def WIRE_PREFIX_SIZE_def Let_def flip: d_def)
  next
    case 3
    then have "take 4 (d[i := b]) = WIRE_MAGIC" "take 6 (d[i := b]) = take 6 d"
      "get_le16 (d[i := b]) 6 = get_le16 d 6" "get_le16 (d[i := b]) 4 = get_le16 d 4"
      using magic by (simp_all add: take_update_cancel)
    moreover have "get_le32 (d[i := b]) 8 \<noteq> crc32c cpu (buf_get (d[i := b]) 12 n)"
      using corrupt_body_crc [of d n i b] c32 fits 3 i b body len assms(3)
      by (simp add: crc32c_eq_sw [OF assms(1)])
    ultimately show ?thesis
      using 3 long fits c16
      by (simp add: validate_frame_prefix_def WIRE_PREFIX_SIZE_def Let_def flip: d_def n_def)
  qed
qed

theorem validate_rejects_corrupt_byte_witness:
  "validate_frame_prefix intel_cpu (Some ((wire_frame [7])[12 := 6])) = (WireBadBodyCrc, None)"
proof -
  have "wire_frame [7] ! 12 \<noteq> 6" by (simp add: wire_frame_def Let_def nth_append)
  from validate_rejects_corrupt_byte [OF sse42_documented_intel _ _ this] show ?thesis by simp
qed

text \<open>
  The four checks of a datagram, each a predicate of its own, in the order \<^verbatim>\<open>wire.hpp\<close> requires, with
  the verdict of its failure.
\<close>

definition wire_checks :: "cpu \<Rightarrow> (WireValidateResult \<times> (u8 list \<Rightarrow> bool)) list" where
  "wire_checks cpu =
     [(WireBadMagic, \<lambda>d. WIRE_PREFIX_SIZE \<le> length d \<and> (\<forall>i<4. d ! i = WIRE_MAGIC ! i)),
      (WireBadHeaderCrc, \<lambda>d. get_le16 d 6 = crc16_ccitt_false (take 6 d)),
      (WireProtoLenOutOfBounds, \<lambda>d. WIRE_PREFIX_SIZE + unat (get_le16 d 4) \<le> length d),
      (WireBadBodyCrc, \<lambda>d. get_le32 d 8 = crc32c cpu (take (unat (get_le16 d 4)) (drop WIRE_PREFIX_SIZE d)))]"

definition first_failing :: "('r \<times> ('d \<Rightarrow> bool)) list \<Rightarrow> 'd \<Rightarrow> 'r option" where
  "first_failing checks d = map_option fst (find (\<lambda>(r, ok). \<not> ok d) checks)"

lemma magic_nth: "4 \<le> length d \<Longrightarrow> take 4 d = WIRE_MAGIC \<longleftrightarrow> (\<forall>i<4. d ! i = WIRE_MAGIC ! i)"
  by (auto simp: list_eq_iff_nth_eq WIRE_MAGIC_def)

lemma validate_first_failing:
  "fst (validate_frame_prefix cpu (Some d)) = (case first_failing (wire_checks cpu) d of None \<Rightarrow> WireOk | Some r \<Rightarrow> r)"
proof (cases "length d < 12")
  case True
  then show ?thesis by (simp add: validate_frame_prefix_def first_failing_def wire_checks_def WIRE_PREFIX_SIZE_def)
next
  case False
  then have m: "(\<forall>i<4. d ! i = WIRE_MAGIC ! i) = (take 4 d = WIRE_MAGIC)" using magic_nth [of d] by simp
  show ?thesis
    using False unfolding first_failing_def wire_checks_def find.simps prod.case m
    by (simp add: validate_frame_prefix_def Let_def buf_get_def WIRE_PREFIX_SIZE_def not_less)
qed

text \<open>
  C34: the checks run in the order the header requires.  The verdict on a datagram is that of the first of the
  four checks it fails (size and magic, header checksum, length field, body checksum), however many of the later
  ones it fails too.  And a failed check is the last thing looked at: two datagrams of at least a prefix that
  agree on their first eight bytes get the same verdict whenever it is a magic or header-checksum failure, and,
  at equal length, whenever it is a length failure.
\<close>

theorem validate_order:
  "fst (validate_frame_prefix cpu (Some d)) = (case first_failing (wire_checks cpu) d of None \<Rightarrow> WireOk | Some r \<Rightarrow> r) \<and>
   (12 \<le> length d \<longrightarrow> 12 \<le> length d' \<longrightarrow> take 8 d = take 8 d' \<longrightarrow>
      fst (validate_frame_prefix cpu (Some d)) \<in> {WireBadMagic, WireBadHeaderCrc} \<or>
      fst (validate_frame_prefix cpu (Some d)) = WireProtoLenOutOfBounds \<and> length d = length d' \<longrightarrow>
      validate_frame_prefix cpu (Some d') = validate_frame_prefix cpu (Some d))"
proof (intro conjI impI validate_first_failing)
  assume len: "12 \<le> length d" "12 \<le> length d'" and same: "take 8 d = take 8 d'"
    and r: "fst (validate_frame_prefix cpu (Some d)) \<in> {WireBadMagic, WireBadHeaderCrc} \<or>
      fst (validate_frame_prefix cpu (Some d)) = WireProtoLenOutOfBounds \<and> length d = length d'"
  have nth: "d ! j = d' ! j" if "j < 8" for j
    using same that by (metis nth_take)
  have pre: "take m d = take m d'" if "m \<le> 8" for m
    using same that by (metis min.absorb1 take_take)
  have "get_le16 d 6 = get_le16 d' 6" and "get_le16 d 4 = get_le16 d' 4"
    by (simp_all add: get_le16_def nth)
  with pre [of 4] pre [of 6] len r show "validate_frame_prefix cpu (Some d') = validate_frame_prefix cpu (Some d)"
    by (auto simp: validate_frame_prefix_def WIRE_PREFIX_SIZE_def Let_def split: if_splits)
qed

text \<open>A datagram that fails the first two checks, with two different tails.\<close>

theorem validate_order_witness:
  "fst (validate_frame_prefix intel_cpu (Some [0,0,0,0,0,0,0,0,1,2,3,4])) = WireBadMagic \<and>
   validate_frame_prefix intel_cpu (Some [0,0,0,0,0,0,0,0,1,2,3,4])
   = validate_frame_prefix intel_cpu (Some [0,0,0,0,0,0,0,0,0,0,0,0])"
proof -
  have "\<exists>i<4. [0,0,0,0,0,0,0,0,1,2,3,4] ! i \<noteq> WIRE_MAGIC ! i" by (rule exI [of _ 0]) (simp add: WIRE_MAGIC_def)
  then have "first_failing (wire_checks intel_cpu) [0,0,0,0,0,0,0,0,1,2,3,4] = Some WireBadMagic"
    by (simp add: first_failing_def wire_checks_def)
  then have "fst (validate_frame_prefix intel_cpu (Some [0,0,0,0,0,0,0,0,1,2,3,4])) = WireBadMagic"
    using validate_order [of intel_cpu "[0,0,0,0,0,0,0,0,1,2,3,4]" "[]"] by simp
  with validate_order [of intel_cpu "[0,0,0,0,0,0,0,0,1,2,3,4]" "[0,0,0,0,0,0,0,0,0,0,0,0]"] show ?thesis by simp
qed

text \<open>
  When the builder refuses.  It reports 0 exactly for a null output, a body longer than the u16
  length field, a frame over the capacity, or a null body of non-zero length; otherwise the frame size.
\<close>

theorem build_frame_refuses_iff:
  "fst (build_frame cpu out cap body body_len) =
     (if out = None \<or> body_len > 0xFFFF \<or> 12 + body_len > cap \<or> (body_len > 0 \<and> body = None)
      then 0 else 12 + body_len)"
  by (auto simp: build_frame_def WIRE_PREFIX_SIZE_def Let_def split: option.splits)

end
