(* ===== verification/FrameDispatcher.thy ===== *)
theory FrameDispatcher
  imports Wire
begin

text \<open>
  \<^verbatim>\<open>src/receiver/frame_dispatcher.{hpp,cpp}\<close>: from a datagram to a parsed \<^verbatim>\<open>nexus::net::Frame\<close>.  The
  protobuf message types come from generated code outside the repository; a frame is modelled by the
  accessors the receiver uses (\<open>msg_case()\<close> and the fields it reads), the rest of a Manifest is opaque
  (a type parameter), and \<open>ParseFromArray\<close> is a parameter: bytes to (parsed ok, message contents).
\<close>

record DataPacket =
  dp_session_id :: string
  dp_block_id :: u32
  dp_symbol_id :: u32
  dp_payload :: "u8 list"

record 'x Manifest =
  mf_session_id :: string
  mf_rest :: 'x

datatype 'x Frame = MsgNotSet | FrameData DataPacket | FrameManifest "'x Manifest" | FrameEnd

datatype FrameDecodeResult = FrameOk | FrameBadMagic | FrameCrcFail | FrameUnparsable

text \<open>The result is the outcome and what \<open>*out_frame\<close> holds afterwards; \<open>Clear()\<close> comes first.\<close>

definition decode_frame ::
  "cpu \<Rightarrow> (u8 list \<Rightarrow> bool \<times> 'x Frame) \<Rightarrow> u8 list option \<Rightarrow> 'x Frame \<Rightarrow> FrameDecodeResult \<times> 'x Frame" where
  "decode_frame cpu parse datagram out_frame =
     (let cleared = MsgNotSet
      in case validate_frame_prefix cpu datagram of
           (WireBadMagic, _) \<Rightarrow> (FrameBadMagic, cleared)
         | (WireBadHeaderCrc, _) \<Rightarrow> (FrameCrcFail, cleared)
         | (WireBadBodyCrc, _) \<Rightarrow> (FrameCrcFail, cleared)
         | (WireProtoLenOutOfBounds, _) \<Rightarrow> (FrameUnparsable, cleared)
         | (WireOk, body) \<Rightarrow>
             (case parse (case body of None \<Rightarrow> [] | Some b \<Rightarrow> b) of
                (parsed, frame) \<Rightarrow>
                  if \<not> parsed then (FrameUnparsable, frame)
                  else if frame = MsgNotSet then (FrameUnparsable, frame)
                  else (FrameOk, frame)))"

lemma decode_frame_wire:
  "decode_frame cpu parse datagram f =
     (case validate_frame_prefix cpu datagram of
        (WireOk, Some b) \<Rightarrow>
          (if fst (parse b) \<and> snd (parse b) \<noteq> MsgNotSet then FrameOk else FrameUnparsable, snd (parse b))
      | (WireOk, None) \<Rightarrow>
          (if fst (parse []) \<and> snd (parse []) \<noteq> MsgNotSet then FrameOk else FrameUnparsable, snd (parse []))
      | (WireBadMagic, _) \<Rightarrow> (FrameBadMagic, MsgNotSet)
      | (WireProtoLenOutOfBounds, _) \<Rightarrow> (FrameUnparsable, MsgNotSet)
      | (_, _) \<Rightarrow> (FrameCrcFail, MsgNotSet))"
  by (auto simp: decode_frame_def Let_def split: prod.splits WireValidateResult.splits option.splits)

lemma validate_ok_body:
  "fst (validate_frame_prefix cpu (Some d)) = WireOk \<Longrightarrow> snd (validate_frame_prefix cpu (Some d)) \<noteq> None"
  by (auto simp: validate_frame_prefix_def Let_def split: if_splits)

lemma decode_frame_ok_iff_lemma:
  assumes "sse42_documented cpu"
  shows "decode_frame cpu parse (Some d) f = (FrameOk, g) \<longleftrightarrow>
         (\<exists>body rest. d = wire_frame body @ rest \<and> length body \<le> 0xFFFF \<and>
                      parse body = (True, g) \<and> g \<noteq> MsgNotSet)"
proof -
  have "decode_frame cpu parse (Some d) f = (FrameOk, g) \<longleftrightarrow>
        (\<exists>body. validate_frame_prefix cpu (Some d) = (WireOk, Some body) \<and>
                parse body = (True, g) \<and> g \<noteq> MsgNotSet)"
    by (auto simp: decode_frame_wire prod_eq_iff dest: validate_ok_body
          split: prod.splits WireValidateResult.splits option.splits if_splits)
  moreover have "validate_frame_prefix cpu (Some d) = (WireOk, Some body) \<longleftrightarrow>
                 length body \<le> 0xFFFF \<and> (\<exists>rest. d = wire_frame body @ rest)" for body
    using validate_ok_frame [OF assms] validate_wire_frame [OF assms] by blast
  ultimately show ?thesis by auto
qed

text \<open>
  A frame is dispatched exactly when the datagram carries an intact wire frame whose body parses
  to a message with its oneof set, and then the caller sees that message; what the reused frame
  object held before never matters.
\<close>

theorem decode_frame_ok_iff:
  assumes "sse42_documented cpu"
  shows "decode_frame cpu parse (Some d) f = (FrameOk, g) \<longleftrightarrow>
         (\<exists>body rest. d = wire_frame body @ rest \<and> length body \<le> 0xFFFF \<and>
                      parse body = (True, g) \<and> g \<noteq> MsgNotSet)"
  using assms by (rule decode_frame_ok_iff_lemma)

theorem decode_frame_ok_iff_witness:
  "decode_frame intel_cpu (\<lambda>b. (True, FrameEnd :: unit Frame)) (Some (wire_frame [7])) MsgNotSet
   = (FrameOk, FrameEnd)"
  by (subst decode_frame_ok_iff) (auto intro: exI [of _ "[7]"])

end
