(* ===== verification/ShmLayout.thy ===== *)
theory ShmLayout
  imports Prelude
begin

text \<open>
  \<^verbatim>\<open>src/receiver/shm_manager.hpp\<close>: the constants, structures and layout arithmetic of the receiver's
  own shared-memory segment.  Structure sizes are computed by the C layout rule from the declared
  members, so that the 4096, 1064 and 400 of the layout are results.  Atomics are plain fields here;
  the interleavings of the lock-free operations are the subject of the concurrent theories.
\<close>

section \<open>Constants\<close>

definition SHM_MAGIC :: u32 where "SHM_MAGIC = 0x46494E55"
definition SHM_VERSION :: u32 where "SHM_VERSION = 2"
definition SLOT_SIZE :: u32 where "SLOT_SIZE = 1536"
definition MAX_SESSIONS :: u32 where "MAX_SESSIONS = 8"
definition MAX_N :: u32 where "MAX_N = 255"
definition SLOT_IDX_FREE :: u32 where "SLOT_IDX_FREE = 0xFFFFFFFF"
definition FREE_LIST_END :: u64 where "FREE_LIST_END = 0xFFFFFFFF"
definition MAX_BLOCKS_PER_SESSION :: u32 where "MAX_BLOCKS_PER_SESSION = 8192"
definition DEFAULT_ARENA_BYTES :: u64 where "DEFAULT_ARENA_BYTES = 256 * 1024 * 1024"

lemmas shm_consts = SHM_MAGIC_def SHM_VERSION_def SLOT_SIZE_def MAX_SESSIONS_def MAX_N_def
  SLOT_IDX_FREE_def FREE_LIST_END_def MAX_BLOCKS_PER_SESSION_def DEFAULT_ARENA_BYTES_def

definition ALIGN8 :: "u64 \<Rightarrow> u32" where
  "ALIGN8 v = ucast ((v + 7) AND NOT 7)"

section \<open>Structures\<close>

text \<open>The C layout rule: members as (size, alignment), the total rounded up to the largest alignment.\<close>

definition align_up :: "nat \<Rightarrow> nat \<Rightarrow> nat" where
  "align_up off a = (off + a - 1) div a * a"

fun members_end :: "nat \<Rightarrow> (nat \<times> nat) list \<Rightarrow> nat" where
  "members_end off [] = off"
| "members_end off ((sz, al) # ms) = members_end (align_up off al + sz) ms"

definition c_sizeof :: "nat \<Rightarrow> (nat \<times> nat) list \<Rightarrow> nat" where
  "c_sizeof forced_align ms = align_up (members_end 0 ms) (Max (set (forced_align # map snd ms)))"

record ShmHeader =
  magic :: u32
  version :: u32
  slot_size :: u32
  slot_count :: u32
  free_list_head :: u64
  used_slots :: u32
  high_water_used :: u32
  session_open_lock :: u32
  session_table_offset :: u64
  block_table_region_offset :: u64
  arena_offset :: u64
  total_size :: u64
  owner_pid :: u32
  boot_id :: "u8 list"

record SessionEntry =
  se_session_id :: string
  se_state :: u32
  se_k :: u32
  se_n :: u32
  se_symbol_bytes :: u32
  se_total_blocks :: u32
  se_file_size :: u64
  se_hash :: "u8 list"
  se_dest_path :: string
  se_block_table_offset :: u64
  se_bitmap_offset :: u64

record BlockEntry =
  present_mask :: "u64 list"
  seen :: u32
  decoded :: u32
  slot_idx :: "u32 list"

definition sizeof_ShmHeader :: u64 where
  "sizeof_ShmHeader = of_nat (c_sizeof 4096
     [(4,4),(4,4),(4,4),(4,4),(8,8),(4,4),(4,4),(4,4),(8,8),(8,8),(8,8),(8,8),(4,4),(16,1)])"

definition sizeof_SessionEntry :: u64 where
  "sizeof_SessionEntry = of_nat (c_sizeof 1
     [(64,1),(4,4),(4,4),(4,4),(4,4),(4,4),(8,8),(32,1),(256,1),(8,8),(8,8)])"

definition sizeof_BlockEntry :: u64 where
  "sizeof_BlockEntry = of_nat (c_sizeof 1 [(4 * 8,8),(4,4),(4,4),(255 * 4,4)])"

definition SESSION_STATE_EMPTY :: u32 where "SESSION_STATE_EMPTY = 0"
definition SESSION_STATE_OPEN :: u32 where "SESSION_STATE_OPEN = 1"
definition SESSION_STATE_CLOSING :: u32 where "SESSION_STATE_CLOSING = 2"

lemmas session_states = SESSION_STATE_EMPTY_def SESSION_STATE_OPEN_def SESSION_STATE_CLOSING_def

section \<open>Layout arithmetic\<close>

definition per_session_block_table_bytes :: u64 where
  "per_session_block_table_bytes = ucast (ALIGN8 (ucast MAX_BLOCKS_PER_SESSION * sizeof_BlockEntry))"

definition per_session_bitmap_bytes :: u64 where
  "per_session_bitmap_bytes = ucast (ALIGN8 ((ucast MAX_BLOCKS_PER_SESSION + 7) div 8))"

definition per_session_stride :: u64 where
  "per_session_stride = per_session_block_table_bytes + per_session_bitmap_bytes"

definition compute_arena_offset :: u64 where
  "compute_arena_offset =
     (let off = sizeof_ShmHeader;
          off = off + ucast MAX_SESSIONS * sizeof_SessionEntry;
          off = ucast (ALIGN8 off)
      in off + ucast MAX_SESSIONS * per_session_stride)"

definition compute_total_size :: "u64 \<Rightarrow> u64" where
  "compute_total_size arena_bytes = compute_arena_offset + arena_bytes"

lemma sizeof_eqs [simp]:
  "sizeof_ShmHeader = 4096" "sizeof_SessionEntry = 400" "sizeof_BlockEntry = 1064"
  by (simp_all add: sizeof_ShmHeader_def sizeof_SessionEntry_def sizeof_BlockEntry_def c_sizeof_def align_up_def)

lemma stride_eqs [simp]:
  "per_session_block_table_bytes = 8716288" "per_session_bitmap_bytes = 1024" "per_session_stride = 8717312"
  by (simp_all add: per_session_stride_def per_session_block_table_bytes_def per_session_bitmap_bytes_def
        ALIGN8_def shm_consts)

lemma compute_arena_offset_eq [simp]: "compute_arena_offset = 69745792"
  by (simp add: compute_arena_offset_def ALIGN8_def shm_consts Let_def)

end
