(* ===== verification/FreeList.thy ===== *)
theory FreeList
  imports ShmLayout
begin

text \<open>
  \<^verbatim>\<open>src/receiver/shm_manager.cpp\<close>: the packet arena and its free list.  The segment is a record of
  its regions (header, session table, block tables by byte offset, arena bytes); a process's
  \<open>ShmManager\<close> holds a descriptor and the cached pointers, of which only null or not matters.
  Here every operation runs alone, so its compare-exchange succeeds; \<open>TreiberStack\<close> interleaves them.
  The interface \<open>slot_pool\<close> is what the session and pipeline layers rely on.
\<close>

section \<open>Segment and handle\<close>

record Segment =
  hdr :: ShmHeader
  session_table :: "SessionEntry list"
  blocks :: "nat \<Rightarrow> BlockEntry"
  arena :: "nat \<Rightarrow> u8"

record ShmManager =
  shm_fd :: int
  base_mapped :: bool
  map_size :: u64
  header_ptr :: bool
  session_table_ptr :: bool
  arena_ptr :: bool
  slot_base_offset :: u64

definition attached :: "ShmManager \<Rightarrow> bool" where
  "attached mgr \<longleftrightarrow> header_ptr mgr \<and> session_table_ptr mgr \<and> arena_ptr mgr"

section \<open>Packed head\<close>

definition kListEnd :: u32 where
  "kListEnd = ucast FREE_LIST_END"

definition pack_head :: "u32 \<Rightarrow> u32 \<Rightarrow> u64" where
  "pack_head idx gen = push_bit 32 (ucast gen) OR ucast idx"

definition head_idx :: "u64 \<Rightarrow> u32" where
  "head_idx packed = ucast (packed AND 0xFFFFFFFF)"

definition head_gen :: "u64 \<Rightarrow> u32" where
  "head_gen packed = ucast (drop_bit 32 packed)"

section \<open>Slots\<close>

text \<open>Byte offset of slot \<open>idx\<close> in the arena; \<open>idx * SLOT_SIZE\<close> is below 2^43 and cannot wrap.\<close>

definition slot_addr :: "u32 \<Rightarrow> nat" where
  "slot_addr idx = unat idx * unat SLOT_SIZE"

definition slot_offset :: "ShmManager \<Rightarrow> u32 \<Rightarrow> u64" where
  "slot_offset mgr idx = slot_base_offset mgr + ucast idx * ucast SLOT_SIZE"

definition note_alloc :: "Segment \<Rightarrow> Segment" where
  "note_alloc seg =
     (let now = used_slots (hdr seg) + 1; hw = high_water_used (hdr seg)
      in seg\<lparr>hdr := (hdr seg)\<lparr>used_slots := now, high_water_used := (if now > hw then now else hw)\<rparr>\<rparr>)"

definition alloc_slot :: "ShmManager \<Rightarrow> Segment \<Rightarrow> u32 \<times> Segment" where
  "alloc_slot mgr seg =
     (if \<not> header_ptr mgr \<or> \<not> arena_ptr mgr then (kListEnd, seg)
      else
        let old_head = free_list_head (hdr seg); idx = head_idx old_head
        in if idx = kListEnd then (kListEnd, seg)
        else
          let nxt = ucast (load64 (arena seg) (slot_addr idx));
              new_head = pack_head nxt (head_gen old_head + 1)
          in (idx, note_alloc (seg\<lparr>hdr := (hdr seg)\<lparr>free_list_head := new_head\<rparr>\<rparr>)))"

definition free_slot :: "ShmManager \<Rightarrow> u32 \<Rightarrow> Segment \<Rightarrow> Segment" where
  "free_slot mgr slot seg =
     (if \<not> header_ptr mgr \<or> \<not> arena_ptr mgr then seg
      else
        let old_head = free_list_head (hdr seg);
            new_head = pack_head slot (head_gen old_head + 1)
        in seg\<lparr>arena := store64 (slot_addr slot) (ucast (head_idx old_head)) (arena seg),
               hdr := (hdr seg)\<lparr>free_list_head := new_head, used_slots := used_slots (hdr seg) - 1\<rparr>\<rparr>)"

text \<open>\<open>memcpy(slot(idx).data(), payload, payload_len)\<close>: nothing bounds the length by SLOT_SIZE.\<close>

definition write_slot :: "u32 \<Rightarrow> u8 list \<Rightarrow> Segment \<Rightarrow> Segment" where
  "write_slot slot payload seg = seg\<lparr>arena := mem_write (slot_addr slot) payload (arena seg)\<rparr>"

definition read_slot :: "u32 \<Rightarrow> nat \<Rightarrow> Segment \<Rightarrow> u8 list" where
  "read_slot slot len seg = mem_read (slot_addr slot) len (arena seg)"

section \<open>Counters\<close>

definition used_slot_count :: "ShmManager \<Rightarrow> Segment \<Rightarrow> u32" where
  "used_slot_count mgr seg = (if \<not> header_ptr mgr then 0 else used_slots (hdr seg))"

definition free_slot_count :: "ShmManager \<Rightarrow> Segment \<Rightarrow> u32" where
  "free_slot_count mgr seg =
     (if \<not> header_ptr mgr then 0 else slot_count (hdr seg) - used_slot_count mgr seg)"

definition high_water_used_count :: "ShmManager \<Rightarrow> Segment \<Rightarrow> u32" where
  "high_water_used_count mgr seg = (if \<not> header_ptr mgr then 0 else high_water_used (hdr seg))"

definition arena_has_capacity :: "ShmManager \<Rightarrow> Segment \<Rightarrow> bool" where
  "arena_has_capacity mgr seg \<longleftrightarrow> free_slot_count mgr seg > 0"

section \<open>The initial free list\<close>

text \<open>The chaining loop at the end of \<open>init_header\<close>.\<close>

definition init_free_list :: "Segment \<Rightarrow> Segment" where
  "init_free_list seg =
     (let cnt = slot_count (hdr seg);
          link = (\<lambda>m i. store64 (slot_addr (of_nat i))
                    (ucast (if of_nat i + 1 < cnt then of_nat i + 1 else kListEnd)) m);
          head0 = (if cnt > 0 then 0 else kListEnd)
      in seg\<lparr>arena := foldl link (arena seg) [0..<unat cnt],
             hdr := (hdr seg)\<lparr>free_list_head := pack_head head0 0\<rparr>\<rparr>)"

section \<open>Abstraction: the free list as a list\<close>

definition node_next :: "(nat \<Rightarrow> u8) \<Rightarrow> u32 \<Rightarrow> u32" where
  "node_next m idx = ucast (load64 m (slot_addr idx))"

fun chain :: "(nat \<Rightarrow> u8) \<Rightarrow> u32 \<Rightarrow> u32 list \<Rightarrow> bool" where
  "chain m i [] \<longleftrightarrow> i = kListEnd"
| "chain m i (x # xs) \<longleftrightarrow> i = x \<and> x \<noteq> kListEnd \<and> chain m (node_next m x) xs"

definition pool :: "Segment \<Rightarrow> u32 list \<Rightarrow> bool" where
  "pool seg fl \<longleftrightarrow>
     chain (arena seg) (head_idx (free_list_head (hdr seg))) fl \<and> distinct fl \<and>
     (\<forall>x\<in>set fl. x < slot_count (hdr seg)) \<and>
     unat (used_slots (hdr seg)) + length fl = unat (slot_count (hdr seg)) \<and>
     used_slots (hdr seg) \<le> high_water_used (hdr seg) \<and>
     high_water_used (hdr seg) \<le> slot_count (hdr seg)"

lemma kListEnd_eq: "kListEnd = 0xFFFFFFFF"
  by (simp add: kListEnd_def FREE_LIST_END_def)

lemma slot_free_is_end [simp]: "SLOT_IDX_FREE = kListEnd"
  by (simp add: kListEnd_eq SLOT_IDX_FREE_def)

lemma below_not_end [simp]: "x < c \<Longrightarrow> x \<noteq> kListEnd" for x c :: u32
  using unat_lt_exp [of c] by (auto simp: kListEnd_eq word_less_nat_alt)

lemma head_idx_eq: "head_idx packed = ucast (take_bit 32 packed)"
proof -
  have "(0xFFFFFFFF :: u64) = mask 32" by (simp add: mask_eq_exp_minus_1)
  then show ?thesis by (simp add: head_idx_def take_bit_eq_mask)
qed

lemma head_idx_pack [simp]: "head_idx (pack_head idx gen) = idx"
  by (rule bit_word_eqI) (auto simp: head_idx_eq pack_head_def bit_simps)

lemma head_gen_pack [simp]: "head_gen (pack_head idx gen) = gen"
  by (rule bit_word_eqI) (auto simp: head_gen_def pack_head_def bit_simps bit_word_ge)

lemma pack_head_inj: "pack_head i g = pack_head j h \<longleftrightarrow> i = j \<and> g = h"
  by (metis head_idx_pack head_gen_pack)

lemma slot_addr_apart: "x \<noteq> y \<Longrightarrow> slot_addr x + 1536 \<le> slot_addr y \<or> slot_addr y + 1536 \<le> slot_addr x"
proof -
  assume "x \<noteq> y"
  then have "unat x < unat y \<or> unat y < unat x" by (metis linorder_neqE_nat unsigned_word_eqI)
  then show ?thesis by (auto simp: slot_addr_def SLOT_SIZE_def)
qed

lemma node_next_store_same [simp]: "node_next (store64 (slot_addr x) v m) x = ucast v"
  by (simp add: node_next_def)

lemma node_next_store_other [simp]: "x \<noteq> y \<Longrightarrow> node_next (store64 (slot_addr x) v m) y = node_next m y"
  using slot_addr_apart [of x y] by (auto simp: node_next_def load64_store64_other)

lemma node_next_write_other:
  assumes "x \<noteq> y" and "length bs \<le> 1536"
  shows "node_next (mem_write (slot_addr x) bs m) y = node_next m y"
  using slot_addr_apart [OF assms(1)] assms(2) by (auto simp: node_next_def load64_write_other)

lemma chain_cong:
  "(\<And>x. x \<in> set fl \<Longrightarrow> node_next m' x = node_next m x) \<Longrightarrow> chain m' i fl = chain m i fl"
  by (induction fl arbitrary: i) auto

lemma chain_unique: "chain m i fl \<Longrightarrow> chain m i fl' \<Longrightarrow> fl = fl'"
proof (induction fl arbitrary: i fl')
  case Nil
  then show ?case by (cases fl') auto
next
  case (Cons x xs)
  then show ?case by (cases fl') auto
qed

lemma chain_end [simp]: "chain m kListEnd fl \<longleftrightarrow> fl = []"
  by (cases fl) auto

section \<open>The slot pool interface\<close>

text \<open>
  What the users of the arena rely on: allocation hands out a slot of the free list and takes it off,
  freeing a slot that is not on it puts it back, and nothing else changes.
\<close>

locale slot_pool =
  fixes alloc :: "'s \<Rightarrow> u32 \<times> 's" and release :: "u32 \<Rightarrow> 's \<Rightarrow> 's"
    and frees :: "'s \<Rightarrow> u32 list \<Rightarrow> bool" and capacity :: "'s \<Rightarrow> u32"
  assumes frees_distinct: "frees s fl \<Longrightarrow> distinct fl"
    and frees_valid: "frees s fl \<Longrightarrow> x \<in> set fl \<Longrightarrow> x < capacity s"
    and alloc_empty: "frees s [] \<Longrightarrow> alloc s = (kListEnd, s)"
    and alloc_pop: "frees s (x # fl) \<Longrightarrow> fst (alloc s) = x \<and> frees (snd (alloc s)) fl"
    and alloc_capacity: "capacity (snd (alloc s)) = capacity s"
    and release_push: "frees s fl \<Longrightarrow> x < capacity s \<Longrightarrow> x \<notin> set fl \<Longrightarrow> frees (release x s) (x # fl)"
    and release_capacity: "capacity (release x s) = capacity s"
begin

lemma alloc_cases:
  assumes "frees s fl"
  shows "(fl = [] \<and> alloc s = (kListEnd, s)) \<or>
         (\<exists>fl'. fl = fst (alloc s) # fl' \<and> frees (snd (alloc s)) fl' \<and> fst (alloc s) < capacity s \<and>
                fst (alloc s) \<notin> set fl')"
proof (cases fl)
  case Nil
  with assms show ?thesis using alloc_empty by simp
next
  case (Cons x fl')
  with assms show ?thesis
    using alloc_pop [of s x fl'] frees_valid [of s fl x] frees_distinct [of s fl] by auto
qed

lemma alloc_end_iff: "frees s fl \<Longrightarrow> fst (alloc s) = kListEnd \<longleftrightarrow> fl = []"
  using alloc_cases [of s fl] by (auto dest: below_not_end)

text \<open>An allocation followed by the release of the same slot restores the free list.\<close>

lemma alloc_release: "frees s (x # fl) \<Longrightarrow> frees (release (fst (alloc s)) (snd (alloc s))) (x # fl)"
  using alloc_pop [of s x fl] frees_valid [of s "x # fl" x] frees_distinct [of s "x # fl"]
  by (auto simp: alloc_capacity intro: release_push)

text \<open>Releasing distinct owned slots one after the other puts them all back.\<close>

lemma release_all_capacity: "capacity (fold release xs s) = capacity s"
  by (induction xs arbitrary: s) (simp_all add: release_capacity)

lemma release_all:
  assumes "frees s fl" and "distinct xs" and "set xs \<inter> set fl = {}" and "\<forall>x\<in>set xs. x < capacity s"
  shows "frees (fold release xs s) (rev xs @ fl)"
  using assms
proof (induction xs arbitrary: s fl)
  case (Cons x xs)
  have "frees (release x s) (x # fl)" using Cons.prems by (intro release_push) auto
  from Cons.IH [OF this] Cons.prems show ?case by (auto simp: release_capacity)
qed simp

end

section \<open>The arena implements the interface\<close>

lemma alloc_slot_empty:
  "pool seg [] \<Longrightarrow> alloc_slot mgr seg = (kListEnd, seg)"
  by (simp add: pool_def alloc_slot_def Let_def)

lemma alloc_slot_pop:
  assumes "attached mgr" and "pool seg (x # fl)"
  shows "fst (alloc_slot mgr seg) = x" and "pool (snd (alloc_slot mgr seg)) fl"
proof -
  let ?h = "hdr seg"
  have nend: "x \<noteq> kListEnd" and hd: "head_idx (free_list_head ?h) = x"
    and used: "unat (used_slots ?h) + length (x # fl) = unat (slot_count ?h)"
    using assms(2) by (auto simp: pool_def)
  have inc: "unat (used_slots ?h + 1) = unat (used_slots ?h) + 1"
    by (rule unat_inc [where c = "slot_count ?h"]) (use used in simp)
  show "fst (alloc_slot mgr seg) = x"
    using assms(1) nend hd by (simp add: alloc_slot_def attached_def Let_def)
  show "pool (snd (alloc_slot mgr seg)) fl"
    using assms nend hd used inc
    by (auto simp: alloc_slot_def attached_def pool_def note_alloc_def Let_def node_next_def
          word_le_nat_alt word_less_nat_alt)
qed

lemma alloc_slot_slot_count [simp]: "slot_count (hdr (snd (alloc_slot mgr seg))) = slot_count (hdr seg)"
  by (simp add: alloc_slot_def note_alloc_def Let_def)

lemma free_slot_slot_count [simp]: "slot_count (hdr (free_slot mgr x seg)) = slot_count (hdr seg)"
  by (simp add: free_slot_def Let_def)

lemma pool_used_pos:
  assumes "pool seg fl" and "x < slot_count (hdr seg)" and "x \<notin> set fl"
  shows "length fl < unat (slot_count (hdr seg))"
proof -
  have "distinct (x # fl)" and "set (map unat (x # fl)) \<subseteq> {..<unat (slot_count (hdr seg))}"
    using assms by (auto simp: pool_def word_less_nat_alt)
  moreover from this have "distinct (map unat (x # fl))" by (auto simp: distinct_map inj_on_def dest: unsigned_word_eqI)
  ultimately have "length (map unat (x # fl)) \<le> unat (slot_count (hdr seg))"
    by (metis card_lessThan card_mono distinct_card finite_lessThan)
  then show ?thesis by simp
qed

lemma free_slot_push:
  assumes "attached mgr" and "pool seg fl" and "x < slot_count (hdr seg)" and "x \<notin> set fl"
  shows "pool (free_slot mgr x seg) (x # fl)"
proof -
  let ?h = "hdr seg"
  have "length fl < unat (slot_count ?h)" by (rule pool_used_pos [OF assms(2-4)])
  then have pos: "unat (used_slots ?h) > 0" using assms(2) by (simp add: pool_def)
  then have dec: "unat (used_slots ?h - 1) = unat (used_slots ?h) - 1"
    by (rule unat_dec)
  have "chain (store64 (slot_addr x) v (arena seg)) i fl = chain (arena seg) i fl" for i v
    using assms(4) by (intro chain_cong) (auto intro: node_next_store_other)
  with assms pos dec show ?thesis
    by (auto simp: free_slot_def attached_def pool_def Let_def word_le_nat_alt)
qed

interpretation arena_pool: slot_pool "alloc_slot mgr" "free_slot mgr"
  "\<lambda>seg fl. attached mgr \<and> pool seg fl" "\<lambda>seg. slot_count (hdr seg)" for mgr
  by unfold_locales
    (auto simp: alloc_slot_empty alloc_slot_pop free_slot_push, auto simp: pool_def)

text \<open>Writing a payload of at most a slot into a slot that is not free leaves the free list alone.\<close>

lemma pool_write_slot:
  assumes "pool seg fl" and "x \<notin> set fl" and "length payload \<le> 1536"
  shows "pool (write_slot x payload seg) fl"
proof -
  have "chain (mem_write (slot_addr x) payload (arena seg)) i fl = chain (arena seg) i fl" for i
    using assms by (intro chain_cong) (auto intro: node_next_write_other)
  with assms(1) show ?thesis by (simp add: pool_def write_slot_def)
qed

section \<open>The initial list and the counters\<close>

lemma u32_idx_less: "i < unat c \<Longrightarrow> (of_nat i :: u32) < c" for c :: u32
  using unat_lt_exp [of c] by (simp add: word_less_nat_alt unat_of_nat_small)

lemma u32_idx_Suc: "i < unat c \<Longrightarrow> (of_nat i + 1 < c) = (Suc i < unat c)" for c :: u32
proof -
  assume "i < unat c"
  then have "Suc i < 2 ^ 32" using unat_lt_exp [of c] by simp
  then have "unat (of_nat (Suc i) :: u32) = Suc i" using unat_of_nat_small [of "Suc i", where 'a = 32] by simp
  then show ?thesis by (simp add: word_less_nat_alt add.commute)
qed

lemma u32_idx_inj: "i < unat c \<Longrightarrow> j < unat c \<Longrightarrow> (of_nat i :: u32) = of_nat j \<Longrightarrow> i = j" for c :: u32
  using unat_lt_exp [of c] by (intro of_nat_word_inj [where 'a = 32]) auto

lemma linked_nodes:
  fixes cnt :: u32
  defines "link \<equiv> \<lambda>m i. store64 (slot_addr (of_nat i)) (ucast (if of_nat i + 1 < cnt then of_nat i + 1 else kListEnd)) m"
  assumes "len \<le> unat cnt" and "j < len"
  shows "node_next (foldl link m [0..<len]) (of_nat j) = (if Suc j < unat cnt then of_nat (Suc j) else kListEnd)"
  using assms(2,3)
proof (induction len)
  case (Suc len)
  show ?case
  proof (cases "j = len")
    case True
    with Suc.prems u32_idx_Suc [of len cnt] show ?thesis by (auto simp: link_def add.commute [of 1])
  next
    case False
    then have "(of_nat len :: u32) \<noteq> of_nat j"
      using Suc.prems u32_idx_inj [of len cnt j] by auto
    with False Suc show ?thesis by (simp add: link_def)
  qed
qed simp

lemma chain_upto:
  assumes "\<And>j. j < unat cnt \<Longrightarrow>
             node_next m (of_nat j) = (if Suc j < unat cnt then of_nat (Suc j) else kListEnd)"
    and "i \<le> unat (cnt :: u32)"
  shows "chain m (if i < unat cnt then of_nat i else kListEnd) (map of_nat [i..<unat cnt])"
  using assms(2)
proof (induction "unat cnt - i" arbitrary: i)
  case (Suc d)
  then have i: "i < unat cnt" by simp
  have "chain m (if Suc i < unat cnt then of_nat (Suc i) else kListEnd) (map of_nat [Suc i..<unat cnt])"
    by (rule Suc.hyps(1)) (use Suc.hyps(2) i in auto)
  with i assms(1) [OF i] u32_idx_less [OF i] show ?case by (simp add: upt_conv_Cons)
qed simp

lemma init_free_list_pool:
  assumes "used_slots (hdr seg) = 0" and "high_water_used (hdr seg) = 0"
  shows "pool (init_free_list seg) (map of_nat [0..<unat (slot_count (hdr seg))])"
proof -
  let ?cnt = "slot_count (hdr seg)"
  have nodes: "chain (arena (init_free_list seg)) (if 0 < unat ?cnt then of_nat 0 else kListEnd)
      (map of_nat [0..<unat ?cnt])"
    by (rule chain_upto) (use linked_nodes [OF order_refl, where cnt = ?cnt] in
        \<open>simp_all add: init_free_list_def Let_def\<close>)
  have "distinct (map (of_nat :: nat \<Rightarrow> u32) [0..<unat ?cnt])"
    by (auto simp: distinct_map inj_on_def intro: u32_idx_inj)
  with nodes assms show ?thesis
    by (auto simp: pool_def init_free_list_def Let_def u32_idx_less word_neq_0_conv unat_gt_0)
qed

lemma free_slot_count_pool:
  "attached mgr \<Longrightarrow> pool seg fl \<Longrightarrow> unat (free_slot_count mgr seg) = length fl"
  by (auto simp: free_slot_count_def used_slot_count_def attached_def pool_def unat_sub_if_size word_le_nat_alt)

text \<open>Allocating \<open>m\<close> times.\<close>

fun alloc_many :: "ShmManager \<Rightarrow> nat \<Rightarrow> Segment \<Rightarrow> u32 list \<times> Segment" where
  "alloc_many mgr 0 seg = ([], seg)"
| "alloc_many mgr (Suc m) seg =
     (case alloc_slot mgr seg of (x, seg1) \<Rightarrow>
        case alloc_many mgr m seg1 of (xs, seg2) \<Rightarrow> (x # xs, seg2))"

lemma alloc_many_pool:
  assumes "attached mgr" and "pool seg fl" and "m \<le> length fl"
  shows "fst (alloc_many mgr m seg) = take m fl \<and> pool (snd (alloc_many mgr m seg)) (drop m fl)"
  using assms(2,3)
proof (induction m arbitrary: seg fl)
  case (Suc m)
  then obtain x fl' where fl: "fl = x # fl'" by (cases fl) auto
  with Suc.prems alloc_slot_pop [OF assms(1), of seg x fl'] Suc.IH [of "snd (alloc_slot mgr seg)" fl']
  show ?case by (auto split: prod.splits)
qed simp

section \<open>Properties\<close>

text \<open>
  A fresh arena hands out every slot exactly once.  After \<open>init_header\<close>'s chaining, allocating
  \<open>slot_count\<close> times yields the slots 0, 1, ..., in order, and the next allocation reports exhaustion.
\<close>

theorem fresh_arena_allocates_all:
  assumes "attached mgr" and "used_slots (hdr seg) = 0" and "high_water_used (hdr seg) = 0"
  shows "fst (alloc_many mgr (unat (slot_count (hdr seg))) (init_free_list seg))
           = map of_nat [0..<unat (slot_count (hdr seg))] \<and>
         fst (alloc_slot mgr (snd (alloc_many mgr (unat (slot_count (hdr seg))) (init_free_list seg)))) = kListEnd"
  using alloc_many_pool [OF assms(1) init_free_list_pool [OF assms(2,3)], of "unat (slot_count (hdr seg))"]
  by (simp add: alloc_slot_empty)

definition zero_header :: ShmHeader where
  "zero_header = \<lparr>magic = 0, version = 0, slot_size = 0, slot_count = 0, free_list_head = 0,
     used_slots = 0, high_water_used = 0, session_open_lock = 0, session_table_offset = 0,
     block_table_region_offset = 0, arena_offset = 0, total_size = 0, owner_pid = 0,
     boot_id = replicate 16 0\<rparr>"

definition zero_block :: BlockEntry where
  "zero_block = \<lparr>present_mask = replicate 4 0, seen = 0, decoded = 0, slot_idx = replicate 255 0\<rparr>"

definition zero_session :: SessionEntry where
  "zero_session = \<lparr>se_session_id = [], se_state = 0, se_k = 0, se_n = 0, se_symbol_bytes = 0,
     se_total_blocks = 0, se_file_size = 0, se_hash = replicate 32 0, se_dest_path = [],
     se_block_table_offset = 0, se_bitmap_offset = 0\<rparr>"

text \<open>What \<open>memset(base_, 0, total_size)\<close> leaves in a new mapping.\<close>

definition zero_segment :: Segment where
  "zero_segment = \<lparr>hdr = zero_header, session_table = replicate (unat MAX_SESSIONS) zero_session,
     blocks = (\<lambda>_. zero_block), arena = (\<lambda>_. 0)\<rparr>"

definition attached_mgr :: ShmManager where
  "attached_mgr = \<lparr>shm_fd = 3, base_mapped = True, map_size = 0, header_ptr = True,
     session_table_ptr = True, arena_ptr = True, slot_base_offset = 0\<rparr>"

lemma attached_mgr [simp]: "attached attached_mgr"
  by (simp add: attached_def attached_mgr_def)

definition slots3 :: Segment where
  "slots3 = zero_segment\<lparr>hdr := zero_header\<lparr>slot_count := 3\<rparr>\<rparr>"

lemma slots3_hdr [simp]:
  "slot_count (hdr slots3) = 3" "used_slots (hdr slots3) = 0" "high_water_used (hdr slots3) = 0"
  by (simp_all add: slots3_def zero_header_def)

theorem fresh_arena_allocates_all_witness:
  "fst (alloc_many attached_mgr 3 (init_free_list slots3)) = [0, 1, 2]"
  using fresh_arena_allocates_all [of attached_mgr slots3]
  by (simp add: upt_0_3)

text \<open>
  C19: allocation and release refine a stack of free slots: \<open>alloc_slot\<close> pops (the popped slot is in range
  and not free any more) or reports exhaustion on the empty stack, \<open>free_slot\<close> of an owned slot pushes.
  The usage counter and the free count always add up to the arena.
\<close>

theorem arena_refines_stack:
  assumes "attached mgr" and "pool seg fl"
  shows "(case fl of
            [] \<Rightarrow> alloc_slot mgr seg = (kListEnd, seg)
          | x # fl' \<Rightarrow> fst (alloc_slot mgr seg) = x \<and> pool (snd (alloc_slot mgr seg)) fl' \<and>
                       x < slot_count (hdr seg) \<and> x \<notin> set fl') \<and>
         (\<forall>x. x < slot_count (hdr seg) \<and> x \<notin> set fl \<longrightarrow> pool (free_slot mgr x seg) (x # fl)) \<and>
         unat (free_slot_count mgr seg) = length fl"
  using assms arena_pool.alloc_cases [of mgr seg fl] free_slot_count_pool [OF assms]
    arena_pool.release_push [of mgr seg fl]
  by (auto split: list.splits)

theorem arena_refines_stack_witness:
  "pool (free_slot attached_mgr 0 (snd (alloc_slot attached_mgr (init_free_list slots3)))) [0, 1, 2]"
proof -
  have "pool (init_free_list slots3) [0, 1, 2]"
    using init_free_list_pool [of slots3] by (simp add: upt_0_3)
  then have p: "pool (snd (alloc_slot attached_mgr (init_free_list slots3))) [1, 2]"
    using arena_refines_stack [OF attached_mgr, of "init_free_list slots3" "[0, 1, 2]"] by simp
  have "slot_count (hdr (snd (alloc_slot attached_mgr (init_free_list slots3)))) = 3"
    by (simp add: init_free_list_def Let_def)
  with arena_refines_stack [OF attached_mgr p] show ?thesis by simp
qed

end
