(* ===== verification/TreiberStack.thy ===== *)
theory TreiberStack
  imports FreeList
begin

text \<open>
  The lock-free free list of \<^verbatim>\<open>shm_manager.cpp\<close> (\<open>alloc_slot\<close>, \<open>free_slot\<close>, \<open>note_alloc\<close>) with its
  steps interleaved: any number of threads of any number of processes, each at a program point of one
  of the two retry loops, over the shared head word, link words and usage counters.  One rule is one
  shared-memory access with the local code up to the next one.  A plain read of a link word that
  races with its reuse may return anything.  \<open>commits\<close> counts successful compare-exchanges on the head;
  the program does not store it, and it only serves to say that the 32-bit generation has not wrapped.
\<close>

datatype pc =
    Idle
  | AllocLoop u64              \<comment> \<open>\<open>old_head\<close> loaded, top of the loop of \<open>alloc_slot\<close>\<close>
  | AllocCas u64 u32           \<comment> \<open>\<open>next\<close> read, compare-exchange pending\<close>
  | NoteAdd                    \<comment> \<open>popped, before \<open>used_slots.fetch_add\<close>\<close>
  | NoteLoad u32               \<comment> \<open>\<open>now\<close> known, before loading \<open>high_water_used\<close>\<close>
  | NoteHw u32 u32             \<comment> \<open>\<open>now\<close>, \<open>hw\<close>: the high-water loop\<close>
  | FreeLink u32 u64           \<comment> \<open>slot, \<open>old_head\<close>: before writing the link word\<close>
  | FreeCas u32 u64            \<comment> \<open>linked, compare-exchange pending\<close>
  | FreeSub                    \<comment> \<open>pushed, before \<open>used_slots.fetch_sub\<close>\<close>

record StackState =
  st_mem :: "nat \<Rightarrow> u8"
  st_head :: u64
  st_used :: u32
  st_high :: u32
  st_pc :: "nat \<Rightarrow> pc"
  st_owned :: "nat \<Rightarrow> u32 set"
  commits :: nat

definition goto :: "nat \<Rightarrow> pc \<Rightarrow> StackState \<Rightarrow> StackState" where
  "goto t p s = s\<lparr>st_pc := (st_pc s)(t := p)\<rparr>"

definition own :: "nat \<Rightarrow> u32 set \<Rightarrow> StackState \<Rightarrow> StackState" where
  "own t A s = s\<lparr>st_owned := (st_owned s)(t := A)\<rparr>"

inductive treiber_step :: "StackState \<Rightarrow> StackState \<Rightarrow> bool" where
  alloc_load: "st_pc s t = Idle \<Longrightarrow> treiber_step s (goto t (AllocLoop (st_head s)) s)"
| alloc_exhausted: "st_pc s t = AllocLoop h \<Longrightarrow> head_idx h = kListEnd \<Longrightarrow> treiber_step s (goto t Idle s)"
| alloc_read: "st_pc s t = AllocLoop h \<Longrightarrow> head_idx h \<noteq> kListEnd \<Longrightarrow>
     nxt = node_next (st_mem s) (head_idx h) \<or> st_head s \<noteq> h \<Longrightarrow>
     treiber_step s (goto t (AllocCas h nxt) s)"
| alloc_cas_ok: "st_pc s t = AllocCas h nxt \<Longrightarrow> st_head s = h \<Longrightarrow>
     treiber_step s (goto t NoteAdd (own t (insert (head_idx h) (st_owned s t))
        (s\<lparr>st_head := pack_head nxt (head_gen h + 1), commits := Suc (commits s)\<rparr>)))"
| alloc_cas_fail: "st_pc s t = AllocCas h nxt \<Longrightarrow> treiber_step s (goto t (AllocLoop (st_head s)) s)"
| note_add: "st_pc s t = NoteAdd \<Longrightarrow>
     treiber_step s (goto t (NoteLoad (st_used s + 1)) (s\<lparr>st_used := st_used s + 1\<rparr>))"
| note_load: "st_pc s t = NoteLoad now \<Longrightarrow> treiber_step s (goto t (NoteHw now (st_high s)) s)"
| note_done: "st_pc s t = NoteHw now hw \<Longrightarrow> \<not> now > hw \<Longrightarrow> treiber_step s (goto t Idle s)"
| note_cas_ok: "st_pc s t = NoteHw now hw \<Longrightarrow> now > hw \<Longrightarrow> st_high s = hw \<Longrightarrow>
     treiber_step s (goto t Idle (s\<lparr>st_high := now\<rparr>))"
| note_cas_fail: "st_pc s t = NoteHw now hw \<Longrightarrow> now > hw \<Longrightarrow>
     treiber_step s (goto t (NoteHw now (st_high s)) s)"
| free_load: "st_pc s t = Idle \<Longrightarrow> x \<in> st_owned s t \<Longrightarrow>
     treiber_step s (goto t (FreeLink x (st_head s)) (own t (st_owned s t - {x}) s))"
| free_link: "st_pc s t = FreeLink x h \<Longrightarrow>
     treiber_step s (goto t (FreeCas x h)
        (s\<lparr>st_mem := store64 (slot_addr x) (ucast (head_idx h)) (st_mem s)\<rparr>))"
| free_cas_ok: "st_pc s t = FreeCas x h \<Longrightarrow> st_head s = h \<Longrightarrow>
     treiber_step s (goto t FreeSub
        (s\<lparr>st_head := pack_head x (head_gen h + 1), commits := Suc (commits s)\<rparr>))"
| free_cas_fail: "st_pc s t = FreeCas x h \<Longrightarrow> treiber_step s (goto t (FreeLink x (st_head s)) s)"
| free_sub: "st_pc s t = FreeSub \<Longrightarrow> treiber_step s (goto t Idle (s\<lparr>st_used := st_used s - 1\<rparr>))"
| payload: "x \<in> st_owned s t \<Longrightarrow> length bs \<le> unat SLOT_SIZE \<Longrightarrow>
     treiber_step s (s\<lparr>st_mem := mem_write (slot_addr x) bs (st_mem s)\<rparr>)"
| hand_over: "x \<in> st_owned s t \<Longrightarrow> t \<noteq> u \<Longrightarrow>
     treiber_step s (own u (insert x (st_owned s u)) (own t (st_owned s t - {x}) s))"

text \<open>The state after \<open>create()\<close>: the chained arena, no thread running.\<close>

definition init_stack :: "u32 \<Rightarrow> StackState" where
  "init_stack cnt =
     (let seg = init_free_list (zero_segment\<lparr>hdr := zero_header\<lparr>slot_count := cnt\<rparr>\<rparr>)
      in \<lparr>st_mem = arena seg, st_head = free_list_head (hdr seg), st_used = 0, st_high = 0,
          st_pc = (\<lambda>_. Idle), st_owned = (\<lambda>_. {}), commits = 0\<rparr>)"

inductive treiber_reachable :: "u32 \<Rightarrow> StackState \<Rightarrow> bool" for cnt where
  start: "treiber_reachable cnt (init_stack cnt)"
| step: "treiber_reachable cnt s \<Longrightarrow> treiber_step s s' \<Longrightarrow> treiber_reachable cnt s'"

section \<open>The invariant\<close>

text \<open>The slot a thread is pushing: no longer owned, not yet on the list.\<close>

fun in_flight :: "pc \<Rightarrow> u32 set" where
  "in_flight (FreeLink x h) = {x}"
| "in_flight (FreeCas x h) = {x}"
| "in_flight _ = {}"

definition holds :: "StackState \<Rightarrow> nat \<Rightarrow> u32 set" where
  "holds s t = st_owned s t \<union> in_flight (st_pc s t)"

text \<open>A head value a thread remembers is the head after some number of commits.\<close>

definition snapshot :: "StackState \<Rightarrow> u64 \<Rightarrow> bool" where
  "snapshot s h \<longleftrightarrow> (\<exists>c\<le>commits s. head_gen h = of_nat c \<and> (c = commits s \<longrightarrow> h = st_head s))"

fun pc_ok :: "StackState \<Rightarrow> pc \<Rightarrow> bool" where
  "pc_ok s (AllocLoop h) \<longleftrightarrow> snapshot s h"
| "pc_ok s (AllocCas h nxt) \<longleftrightarrow> snapshot s h \<and> head_idx h \<noteq> kListEnd \<and>
     (st_head s = h \<longrightarrow> commits s < 2 ^ 32 \<longrightarrow> nxt = node_next (st_mem s) (head_idx h))"
| "pc_ok s (FreeCas x h) \<longleftrightarrow> node_next (st_mem s) x = head_idx h"
| "pc_ok s _ \<longleftrightarrow> True"

definition stack_inv :: "u32 \<Rightarrow> StackState \<Rightarrow> u32 list \<Rightarrow> bool" where
  "stack_inv cnt s fl \<longleftrightarrow>
     chain (st_mem s) (head_idx (st_head s)) fl \<and> distinct fl \<and>
     head_gen (st_head s) = of_nat (commits s) \<and>
     (\<forall>t u. t \<noteq> u \<longrightarrow> holds s t \<inter> holds s u = {}) \<and>
     (\<forall>t. st_owned s t \<inter> in_flight (st_pc s t) = {}) \<and>
     (\<forall>t. holds s t \<inter> set fl = {}) \<and>
     set fl \<union> (\<Union>t. holds s t) = {x. x < cnt} \<and>
     (\<forall>t. pc_ok s (st_pc s t))"

section \<open>Every step keeps the invariant\<close>

lemma goto_sel [simp]:
  "st_mem (goto t p s) = st_mem s" "st_head (goto t p s) = st_head s" "st_used (goto t p s) = st_used s"
  "st_high (goto t p s) = st_high s" "st_pc (goto t p s) = (st_pc s)(t := p)"
  "st_owned (goto t p s) = st_owned s" "commits (goto t p s) = commits s"
  by (simp_all add: goto_def)

lemma own_sel [simp]:
  "st_mem (own t A s) = st_mem s" "st_head (own t A s) = st_head s" "st_used (own t A s) = st_used s"
  "st_high (own t A s) = st_high s" "st_pc (own t A s) = st_pc s"
  "st_owned (own t A s) = (st_owned s)(t := A)" "commits (own t A s) = commits s"
  by (simp_all add: own_def)

lemma stack_invI:
  assumes "chain (st_mem s) (head_idx (st_head s)) fl" and "distinct fl"
    and "head_gen (st_head s) = of_nat (commits s)"
    and "\<And>t u. t \<noteq> u \<Longrightarrow> holds s t \<inter> holds s u = {}"
    and "\<And>t. st_owned s t \<inter> in_flight (st_pc s t) = {}"
    and "\<And>t. holds s t \<inter> set fl = {}"
    and "set fl \<union> (\<Union>t. holds s t) = {x. x < cnt}"
    and "\<And>t. pc_ok s (st_pc s t)"
  shows "stack_inv cnt s fl"
  using assms by (simp add: stack_inv_def)

lemma stack_invD:
  assumes "stack_inv cnt s fl"
  shows "chain (st_mem s) (head_idx (st_head s)) fl" and "distinct fl"
    and "head_gen (st_head s) = of_nat (commits s)"
    and "t \<noteq> u \<Longrightarrow> holds s t \<inter> holds s u = {}"
    and "st_owned s t \<inter> in_flight (st_pc s t) = {}"
    and "holds s t \<inter> set fl = {}"
    and "set fl \<union> (\<Union>t. holds s t) = {x. x < cnt}"
    and "pc_ok s (st_pc s t)"
  using assms by (simp_all add: stack_inv_def)

lemma pc_ok_cong:
  "st_mem s' = st_mem s \<Longrightarrow> st_head s' = st_head s \<Longrightarrow> commits s' = commits s \<Longrightarrow> pc_ok s' p = pc_ok s p"
  by (cases p) (auto simp: snapshot_def)

lemma stack_inv_same:
  assumes "stack_inv cnt s fl" and "st_mem s' = st_mem s" and "st_head s' = st_head s"
    and "commits s' = commits s"
    and "\<And>u. holds s' u = holds s u" and "\<And>u. st_owned s' u \<inter> in_flight (st_pc s' u) = {}"
    and "\<And>u. pc_ok s (st_pc s' u)"
  shows "stack_inv cnt s' fl"
  using assms by (simp add: stack_inv_def pc_ok_cong [OF assms(2-4)])

lemma stack_inv_goto:
  assumes "stack_inv cnt s fl" and "in_flight p = in_flight (st_pc s t)" and "pc_ok s p"
  shows "stack_inv cnt (goto t p s) fl"
  by (rule stack_inv_same [OF assms(1)]) (use assms in \<open>auto simp: holds_def stack_inv_def\<close>)

lemma stack_inv_counters [simp]:
  "stack_inv cnt (s\<lparr>st_used := a\<rparr>) fl = stack_inv cnt s fl"
  "stack_inv cnt (s\<lparr>st_high := b\<rparr>) fl = stack_inv cnt s fl"
  by (auto simp: stack_inv_def holds_def pc_ok_cong [of "s\<lparr>st_used := a\<rparr>" s] pc_ok_cong [of "s\<lparr>st_high := b\<rparr>" s])

lemma snapshot_head: "stack_inv cnt s fl \<Longrightarrow> snapshot s (st_head s)"
  by (auto simp: stack_inv_def snapshot_def)

lemma stack_inv_pc: "stack_inv cnt s fl \<Longrightarrow> st_pc s t = p \<Longrightarrow> pc_ok s p"
  by (auto simp: stack_inv_def)

lemma head_in_free: "stack_inv cnt s fl \<Longrightarrow> head_idx (st_head s) \<noteq> kListEnd \<Longrightarrow>
    \<exists>fl'. fl = head_idx (st_head s) # fl'"
  by (cases fl) (auto simp: stack_inv_def)

text \<open>Writing the bytes of a slot that is neither free nor linked for a pending push.\<close>

lemma stack_inv_mem:
  assumes inv: "stack_inv cnt s fl" and free: "y \<notin> set fl"
    and pend: "\<And>u x h. st_pc s u = FreeCas x h \<Longrightarrow> x \<noteq> y"
    and same: "\<And>z. z \<noteq> y \<Longrightarrow> node_next m z = node_next (st_mem s) z"
  shows "stack_inv cnt (s\<lparr>st_mem := m\<rparr>) fl"
proof -
  have "chain m i fl = chain (st_mem s) i fl" for i
    by (rule chain_cong) (metis free same)
  moreover have "pc_ok (s\<lparr>st_mem := m\<rparr>) (st_pc s u)" for u
  proof (cases "st_pc s u")
    case (AllocCas h nxt)
    with stack_inv_pc [OF inv AllocCas] head_in_free [OF inv] free same show ?thesis
      by (auto simp: snapshot_def)
  next
    case (FreeCas x h)
    with stack_inv_pc [OF inv FreeCas] pend [OF FreeCas] same show ?thesis by simp
  qed (use stack_inv_pc [OF inv, of u] in \<open>auto simp: snapshot_def\<close>)
  ultimately show ?thesis using inv by (simp add: stack_inv_def holds_def)
qed

text \<open>After a commit every remembered head is stale, as long as the generation has not wrapped.\<close>

lemma pc_ok_commit:
  assumes "pc_ok s p" and "Suc (commits s) < 2 ^ 32"
    and "commits s' = Suc (commits s)" and "head_gen (st_head s') = of_nat (Suc (commits s))"
    and "st_mem s' = st_mem s"
  shows "pc_ok s' p"
proof -
  have snap: "snapshot s' h \<and> st_head s' \<noteq> h" if "snapshot s h" for h
  proof -
    from that obtain c where c: "c \<le> commits s" "head_gen h = of_nat c" by (auto simp: snapshot_def)
    have "c = Suc (commits s)" if "st_head s' = h"
      using of_nat_word_inj [where 'a = 32, of c "Suc (commits s)"] c assms(2,4) that by auto
    with c assms(3) show ?thesis by (auto simp: snapshot_def intro: exI [of _ c])
  qed
  show ?thesis using assms snap by (cases p) auto
qed

lemma stack_inv_pop:
  assumes inv: "stack_inv cnt s fl" and pc: "st_pc s t = AllocCas h nxt" and hd: "st_head s = h"
    and wrap: "Suc (commits s) < 2 ^ 32"
    and s': "s' = goto t NoteAdd (own t (insert (head_idx h) (st_owned s t))
              (s\<lparr>st_head := pack_head nxt (head_gen h + 1), commits := Suc (commits s)\<rparr>))"
  shows "\<exists>fl'. fl = head_idx h # fl' \<and> stack_inv cnt s' fl'"
proof -
  from stack_inv_pc [OF inv pc] hd wrap have nxt: "nxt = node_next (st_mem s) (head_idx h)"
    and ne: "head_idx h \<noteq> kListEnd" by auto
  from head_in_free [OF inv] ne hd obtain fl' where fl: "fl = head_idx h # fl'" by auto
  have holds: "holds s' u = (if u = t then insert (head_idx h) (holds s t) else holds s u)" for u
    by (simp add: s' holds_def pc)
  have gen: "head_gen (st_head s') = of_nat (Suc (commits s))"
    using stack_invD(3) [OF inv] hd by (simp add: s')
  have "pc_ok s' (st_pc s u)" for u
    by (rule pc_ok_commit [OF stack_invD(8) [OF inv] wrap _ gen]) (simp_all add: s')
  then have ok: "pc_ok s' (st_pc s' u)" for u by (simp add: s')
  have union: "(\<Union>u. holds s' u) = insert (head_idx h) (\<Union>u. holds s u)"
    unfolding holds by (auto split: if_splits)
  have "stack_inv cnt s' fl'"
  proof (rule stack_invI)
    show "holds s' u \<inter> holds s' v = {}" if "u \<noteq> v" for u v
      using stack_invD(4) [OF inv that] stack_invD(6) [OF inv, of u] stack_invD(6) [OF inv, of v] that fl
      by (auto simp: holds)
    show "st_owned s' u \<inter> in_flight (st_pc s' u) = {}" for u
      using stack_invD(5) [OF inv, of u] by (simp add: s')
    show "holds s' u \<inter> set fl' = {}" for u
      using stack_invD(6) [OF inv, of u] stack_invD(2) [OF inv] fl by (auto simp: holds)
    show "set fl' \<union> (\<Union>t. holds s' t) = {x. x < cnt}"
      using stack_invD(7) [OF inv] fl unfolding union by auto
    show "pc_ok s' (st_pc s' u)" for u by (rule ok)
  qed (use stack_invD(1-3) [OF inv] fl nxt hd in \<open>simp_all add: s'\<close>)
  with fl show ?thesis by blast
qed

lemma stack_inv_push:
  assumes inv: "stack_inv cnt s fl" and pc: "st_pc s t = FreeCas x h" and hd: "st_head s = h"
    and wrap: "Suc (commits s) < 2 ^ 32"
    and s': "s' = goto t FreeSub (s\<lparr>st_head := pack_head x (head_gen h + 1), commits := Suc (commits s)\<rparr>)"
  shows "stack_inv cnt s' (x # fl)"
proof -
  from stack_inv_pc [OF inv pc] have link: "node_next (st_mem s) x = head_idx h" by simp
  have x: "x \<in> holds s t" by (simp add: holds_def pc)
  have holds: "holds s' u = (if u = t then holds s t - {x} else holds s u)" for u
    using inv pc by (auto simp: s' holds_def stack_inv_def dest: spec [of _ t])
  have gen: "head_gen (st_head s') = of_nat (Suc (commits s))"
    using stack_invD(3) [OF inv] hd by (simp add: s')
  have "pc_ok s' (st_pc s u)" for u
    by (rule pc_ok_commit [OF stack_invD(8) [OF inv] wrap _ gen]) (simp_all add: s')
  then have ok: "pc_ok s' (st_pc s' u)" for u by (simp add: s')
  have union: "insert x (\<Union>u. holds s' u) = (\<Union>u. holds s u)"
    unfolding holds using x by (auto split: if_splits)
  have "x < cnt" and "x \<notin> set fl"
    using stack_invD(6,7) [OF inv] x by auto
  show ?thesis
  proof (rule stack_invI)
    show "holds s' u \<inter> holds s' v = {}" if "u \<noteq> v" for u v
      using stack_invD(4) [OF inv that] by (auto simp: holds)
    show "st_owned s' u \<inter> in_flight (st_pc s' u) = {}" for u
      using stack_invD(5) [OF inv, of u] by (simp add: s')
    show "holds s' u \<inter> set (x # fl) = {}" for u
      using stack_invD(6) [OF inv, of u] stack_invD(4) [OF inv, of u t] x by (auto simp: holds)
    have "set (x # fl) \<union> (\<Union>t. holds s' t) = set fl \<union> insert x (\<Union>t. holds s' t)" by simp
    then show "set (x # fl) \<union> (\<Union>t. holds s' t) = {x. x < cnt}"
      using stack_invD(7) [OF inv] by (simp only: union)
    show "pc_ok s' (st_pc s' u)" for u by (rule ok)
  qed (use stack_invD(1-3) [OF inv] link hd \<open>x < cnt\<close> \<open>x \<notin> set fl\<close> in \<open>simp_all add: s'\<close>)
qed

lemma stack_inv_load_free:
  assumes inv: "stack_inv cnt s fl" and pc: "st_pc s t = Idle" and x: "x \<in> st_owned s t"
  shows "stack_inv cnt (goto t (FreeLink x (st_head s)) (own t (st_owned s t - {x}) s)) fl"
  by (rule stack_inv_same [OF inv])
    (use x pc stack_invD(5,8) [OF inv] in \<open>auto simp: holds_def\<close>)

lemma pending_apart:
  assumes inv: "stack_inv cnt s fl" and "y \<in> st_owned s t"
  shows "st_pc s u = FreeCas x h \<Longrightarrow> x \<noteq> y"
  using stack_invD(4) [OF inv, of t u] stack_invD(5) [OF inv, of t] assms(2)
  by (cases "t = u") (auto simp: holds_def)

lemma stack_inv_link:
  assumes inv: "stack_inv cnt s fl" and pc: "st_pc s t = FreeLink x h"
  shows "stack_inv cnt (goto t (FreeCas x h) (s\<lparr>st_mem := store64 (slot_addr x) (ucast (head_idx h)) (st_mem s)\<rparr>)) fl"
    (is "stack_inv cnt (goto t _ ?s) fl")
proof (rule stack_inv_goto)
  have x: "x \<in> holds s t" by (simp add: holds_def pc)
  show "stack_inv cnt ?s fl"
  proof (rule stack_inv_mem [OF inv])
    show "x \<notin> set fl" using stack_invD(6) [OF inv, of t] x by auto
    show "y \<noteq> x" if "st_pc s u = FreeCas y h'" for u y h'
      using stack_invD(4) [OF inv, of t u] x that pc by (cases "t = u") (auto simp: holds_def)
  qed auto
qed (simp_all add: pc)

lemma stack_inv_payload:
  assumes inv: "stack_inv cnt s fl" and x: "x \<in> st_owned s t" and "length bs \<le> unat SLOT_SIZE"
  shows "stack_inv cnt (s\<lparr>st_mem := mem_write (slot_addr x) bs (st_mem s)\<rparr>) fl"
proof (rule stack_inv_mem [OF inv])
  show "x \<notin> set fl" using stack_invD(6) [OF inv, of t] x by (auto simp: holds_def)
qed (use pending_apart [OF inv x] assms(3) in \<open>auto simp: SLOT_SIZE_def intro: node_next_write_other\<close>)

lemma stack_inv_hand_over:
  assumes inv: "stack_inv cnt s fl" and x: "x \<in> st_owned s t" and "t \<noteq> u"
  shows "stack_inv cnt (own u (insert x (st_owned s u)) (own t (st_owned s t - {x}) s)) fl"
    (is "stack_inv cnt ?s' fl")
proof -
  have holds: "holds ?s' v = (if v = u then insert x (holds s u) else if v = t then holds s t - {x} else holds s v)" for v
    using x assms(3) stack_invD(5) [OF inv, of t] by (auto simp: holds_def)
  have xt: "x \<in> holds s t" using x by (simp add: holds_def)
  have union: "(\<Union>v. holds ?s' v) = (\<Union>v. holds s v)"
    unfolding holds using xt by (auto split: if_splits)
  show ?thesis
  proof (rule stack_invI)
    show "holds ?s' v \<inter> holds ?s' w = {}" if "v \<noteq> w" for v w
      using stack_invD(4) [OF inv that] stack_invD(4) [OF inv, of t v] stack_invD(4) [OF inv, of t w] xt that
      by (auto simp: holds)
    show "st_owned ?s' v \<inter> in_flight (st_pc ?s' v) = {}" for v
      using stack_invD(5) [OF inv, of v] stack_invD(4) [OF inv, of t u] x assms(3) by (auto simp: holds_def)
    show "holds ?s' v \<inter> set fl = {}" for v
      using stack_invD(6) [OF inv, of v] stack_invD(6) [OF inv, of t] xt by (auto simp: holds)
    show "set fl \<union> (\<Union>v. holds ?s' v) = {x. x < cnt}"
      using stack_invD(7) [OF inv] by (simp only: union)
    have "pc_ok ?s' p = pc_ok s p" for p by (rule pc_ok_cong) simp_all
    then show "pc_ok ?s' (st_pc ?s' v)" for v using stack_invD(8) [OF inv] by simp
  qed (use stack_invD(1-3) [OF inv] in simp_all)
qed

text \<open>
  What a step of one thread, from p to p', does to the free list \<open>fl\<close> and to the slots \<open>held\<close> the thread owns:
  the pop, the push, the start of a release, the load whose result decides that the arena is exhausted, and
  everything else.
\<close>

definition stack_effect :: "pc \<Rightarrow> pc \<Rightarrow> u32 set \<Rightarrow> u32 set \<Rightarrow> u32 list \<Rightarrow> u32 list \<Rightarrow> bool" where
  "stack_effect p p' held held' fl fl' \<longleftrightarrow>
     (case (p, p') of
        (AllocCas h nxt, NoteAdd) \<Rightarrow> fl = head_idx h # fl' \<and> held' = insert (head_idx h) held
      | (FreeCas x h, FreeSub) \<Rightarrow> fl' = x # fl \<and> held' = held
      | (Idle, FreeLink x h) \<Rightarrow> fl' = fl \<and> x \<in> held \<and> held' = held - {x}
      | (FreeLink x h, FreeCas y h') \<Rightarrow> fl' = fl \<and> held' = held \<and> y = x
      | (FreeCas x h, FreeLink y h') \<Rightarrow> fl' = fl \<and> held' = held \<and> y = x
      | (_, AllocLoop h) \<Rightarrow> fl' = fl \<and> held' = held \<and> (head_idx h = kListEnd \<longleftrightarrow> fl = [])
      | _ \<Rightarrow> fl' = fl \<and> held' = held)"

definition linearized :: "StackState \<Rightarrow> StackState \<Rightarrow> u32 list \<Rightarrow> u32 list \<Rightarrow> bool" where
  "linearized s s' fl fl' \<longleftrightarrow>
     (st_pc s' = st_pc s \<and> fl' = fl) \<or>
     (\<exists>t. (\<forall>u. u \<noteq> t \<longrightarrow> st_pc s' u = st_pc s u \<and> st_owned s' u = st_owned s u) \<and>
          stack_effect (st_pc s t) (st_pc s' t) (st_owned s t) (st_owned s' t) fl fl')"

lemma linearizedI:
  assumes "st_pc s' = (st_pc s)(t := p')" and "\<And>u. u \<noteq> t \<Longrightarrow> st_owned s' u = st_owned s u"
    and "stack_effect (st_pc s t) p' (st_owned s t) (st_owned s' t) fl fl'"
  shows "linearized s s' fl fl'"
  unfolding linearized_def using assms by (intro disjI2 exI [of _ t]) simp

text \<open>Steps that leave head and list alone.\<close>

lemma linearized_goto:
  assumes inv: "stack_inv cnt s fl" and pc: "st_pc s t = p" and f: "in_flight p' = in_flight p" and ok: "pc_ok s p'"
    and eff: "stack_effect p p' (st_owned s t) (st_owned s t) fl fl"
  shows "\<exists>fl'. stack_inv cnt (goto t p' s) fl' \<and> linearized s (goto t p' s) fl fl'"
  using stack_inv_goto [OF inv, of p' t] f ok pc eff linearizedI [of "goto t p' s" s t p' fl fl] by auto

lemma treiber_step_inv:
  assumes "treiber_step s s'" and inv: "stack_inv cnt s fl" and "commits s' < 2 ^ 32"
  shows "\<exists>fl'. stack_inv cnt s' fl' \<and> linearized s s' fl fl'"
proof -
  have ends: "head_idx (st_head s) = kListEnd \<longleftrightarrow> fl = []"
    using stack_invD(1) [OF inv] by (cases fl) auto
  show ?thesis
    using assms(1,3)
  proof cases
    case (alloc_cas_ok t h nxt)
    then obtain fl' where "fl = head_idx h # fl'" "stack_inv cnt s' fl'"
      using stack_inv_pop [OF inv alloc_cas_ok(2,3) _ alloc_cas_ok(1)] assms(3) by auto
    moreover from this have "linearized s s' fl fl'"
      by (intro linearizedI [of _ _ t NoteAdd]) (simp_all add: alloc_cas_ok stack_effect_def)
    ultimately show ?thesis by blast
  next
    case (free_cas_ok t x h)
    have "stack_inv cnt s' (x # fl)" using stack_inv_push [OF inv free_cas_ok(2,3) _ free_cas_ok(1)] assms(3) free_cas_ok(1) by simp
    moreover have "linearized s s' fl (x # fl)"
      by (intro linearizedI [of _ _ t FreeSub]) (simp_all add: free_cas_ok stack_effect_def)
    ultimately show ?thesis by blast
  next
    case (free_load t x)
    have "linearized s s' fl fl"
      by (intro linearizedI [of _ _ t "FreeLink x (st_head s)"]) (simp_all add: free_load stack_effect_def)
    then show ?thesis using stack_inv_load_free [OF inv free_load(2,3)] free_load(1) by blast
  next
    case (free_link t x h)
    have "linearized s s' fl fl"
      by (intro linearizedI [of _ _ t "FreeCas x h"]) (simp_all add: free_link stack_effect_def)
    then show ?thesis using stack_inv_link [OF inv free_link(2)] free_link(1) by blast
  next
    case (payload x t bs)
    have "linearized s s' fl fl" by (simp add: linearized_def payload(1))
    then show ?thesis using stack_inv_payload [OF inv payload(2,3)] payload(1) by blast
  next
    case (hand_over x t u)
    have "linearized s s' fl fl" by (simp add: linearized_def hand_over(1))
    then show ?thesis using stack_inv_hand_over [OF inv hand_over(2,3)] hand_over(1) by blast
  next
    case (alloc_load t)
    then show ?thesis using linearized_goto [OF inv alloc_load(2)] snapshot_head [OF inv] ends by (simp add: stack_effect_def)
  next
    case (alloc_exhausted t h)
    then show ?thesis using linearized_goto [OF inv alloc_exhausted(2)] by (simp add: stack_effect_def)
  next
    case (alloc_read t h nxt)
    then show ?thesis using linearized_goto [OF inv alloc_read(2)] stack_inv_pc [OF inv alloc_read(2)] by (auto simp: stack_effect_def)
  next
    case (alloc_cas_fail t h nxt)
    then show ?thesis using linearized_goto [OF inv alloc_cas_fail(2)] snapshot_head [OF inv] ends by (simp add: stack_effect_def)
  next
    case (note_load t now)
    then show ?thesis using linearized_goto [OF inv note_load(2)] by (simp add: stack_effect_def)
  next
    case (note_done t now hw)
    then show ?thesis using linearized_goto [OF inv note_done(2)] by (simp add: stack_effect_def)
  next
    case (note_cas_fail t now hw)
    then show ?thesis using linearized_goto [OF inv note_cas_fail(2)] by (simp add: stack_effect_def)
  next
    case (free_cas_fail t x h)
    then show ?thesis using linearized_goto [OF inv free_cas_fail(2)] by (simp add: stack_effect_def)
  next
    case (note_add t)
    have "linearized s s' fl fl"
      by (intro linearizedI [of _ _ t "NoteLoad (st_used s + 1)"]) (simp_all add: note_add stack_effect_def)
    then show ?thesis using inv note_add by (auto intro!: exI [of _ fl] stack_inv_goto)
  next
    case (note_cas_ok t now hw)
    have "linearized s s' fl fl"
      by (intro linearizedI [of _ _ t Idle]) (simp_all add: note_cas_ok stack_effect_def)
    then show ?thesis using inv note_cas_ok by (auto intro!: exI [of _ fl] stack_inv_goto)
  next
    case (free_sub t)
    have "linearized s s' fl fl"
      by (intro linearizedI [of _ _ t Idle]) (simp_all add: free_sub stack_effect_def)
    then show ?thesis using inv free_sub by (auto intro!: exI [of _ fl] stack_inv_goto)
  qed
qed

section \<open>Reachable states\<close>

lemma init_stack_inv: "stack_inv cnt (init_stack cnt) (map of_nat [0..<unat cnt])"
proof -
  define seg where "seg = init_free_list (zero_segment\<lparr>hdr := zero_header\<lparr>slot_count := cnt\<rparr>\<rparr>)"
  have p: "pool seg (map of_nat [0..<unat cnt])"
    using init_free_list_pool [of "zero_segment\<lparr>hdr := zero_header\<lparr>slot_count := cnt\<rparr>\<rparr>"]
    by (simp add: seg_def zero_header_def)
  have cover: "set (map of_nat [0..<unat cnt]) = {x. x < cnt}"
  proof (intro set_eqI iffI)
    fix x assume "x \<in> {x. x < cnt}"
    then have "unat x < unat cnt" by (simp add: word_less_nat_alt)
    then show "x \<in> set (map of_nat [0..<unat cnt])" by (auto intro!: image_eqI [of _ _ "unat x"])
  qed (auto simp: u32_idx_less)
  have "head_gen (free_list_head (hdr seg)) = 0" by (simp add: seg_def init_free_list_def Let_def)
  with p cover show ?thesis
    by (simp add: stack_inv_def init_stack_def holds_def pool_def seg_def [symmetric] Let_def)
qed

lemma commits_mono: "treiber_step s s' \<Longrightarrow> commits s \<le> commits s'"
  by (induction rule: treiber_step.induct) simp_all

lemma reachable_stack_inv:
  "treiber_reachable cnt s \<Longrightarrow> commits s < 2 ^ 32 \<Longrightarrow> \<exists>fl. stack_inv cnt s fl"
proof (induction rule: treiber_reachable.induct)
  case start
  show ?case using init_stack_inv by blast
next
  case (step s s')
  then have "commits s < 2 ^ 32" using commits_mono [of s s'] by linarith
  with step obtain fl where "stack_inv cnt s fl" by blast
  from treiber_step_inv [OF step.hyps(2) this step.prems] show ?case by blast
qed

lemma reachable_3:
  assumes "treiber_reachable cnt s" and "treiber_step s a" and "treiber_step a b" and "treiber_step b c"
    and "c = d"
  shows "treiber_reachable cnt d"
  using treiber_reachable.step [OF treiber_reachable.step [OF treiber_reachable.step [OF assms(1,2)] assms(3)] assms(4)]
  unfolding assms(5) .

lemma alloc_run:
  assumes r: "treiber_reachable cnt s" and pc: "st_pc s t = Idle" and ne: "head_idx (st_head s) \<noteq> kListEnd"
  shows "treiber_reachable cnt (goto t NoteAdd (own t (insert (head_idx (st_head s)) (st_owned s t))
     (s\<lparr>st_head := pack_head (node_next (st_mem s) (head_idx (st_head s))) (head_gen (st_head s) + 1),
        commits := Suc (commits s)\<rparr>)))"
    (is "treiber_reachable cnt ?final")
proof -
  let ?s1 = "goto t (AllocLoop (st_head s)) s"
  let ?s2 = "goto t (AllocCas (st_head s) (node_next (st_mem s) (head_idx (st_head s)))) ?s1"
  have 1: "treiber_step s ?s1" by (rule treiber_step.alloc_load [OF pc])
  have 2: "treiber_step ?s1 ?s2" by (rule treiber_step.alloc_read) (simp_all add: ne)
  have 3: "treiber_step ?s2 (goto t NoteAdd (own t (insert (head_idx (st_head s)) (st_owned ?s2 t))
     (?s2\<lparr>st_head := pack_head (node_next (st_mem s) (head_idx (st_head s))) (head_gen (st_head s) + 1),
        commits := Suc (commits ?s2)\<rparr>)))" (is "treiber_step _ ?s3")
    by (rule treiber_step.alloc_cas_ok) simp_all
  have 4: "?s3 = ?final" by (simp add: goto_def own_def)
  show ?thesis by (rule reachable_3 [OF r 1 2 3 4])
qed

lemma note_run:
  assumes r: "treiber_reachable cnt s" and pc: "st_pc s t = NoteAdd" and up: "st_used s + 1 > st_high s"
  shows "treiber_reachable cnt (goto t Idle (s\<lparr>st_used := st_used s + 1, st_high := st_used s + 1\<rparr>))"
proof -
  let ?now = "st_used s + 1"
  let ?s1 = "goto t (NoteLoad ?now) (s\<lparr>st_used := ?now\<rparr>)"
  let ?s2 = "goto t (NoteHw ?now (st_high s)) ?s1"
  have 1: "treiber_step s ?s1" by (rule treiber_step.note_add [OF pc])
  have 2: "treiber_step ?s1 ?s2" using treiber_step.note_load [of ?s1 t ?now] by simp
  have 3: "treiber_step ?s2 (goto t Idle (?s2\<lparr>st_high := ?now\<rparr>))"
    by (rule treiber_step.note_cas_ok) (use up in simp_all)
  have 4: "goto t Idle (?s2\<lparr>st_high := ?now\<rparr>) = goto t Idle (s\<lparr>st_used := ?now, st_high := ?now\<rparr>)"
    by (simp add: goto_def)
  show ?thesis by (rule reachable_3 [OF r 1 2 3 4])
qed

lemma push_run:
  assumes r: "treiber_reachable cnt s" and pc: "st_pc s t = Idle" and x: "x \<in> st_owned s t"
  shows "treiber_reachable cnt (goto t FreeSub (own t (st_owned s t - {x})
     (s\<lparr>st_mem := store64 (slot_addr x) (ucast (head_idx (st_head s))) (st_mem s),
        st_head := pack_head x (head_gen (st_head s) + 1), commits := Suc (commits s)\<rparr>)))"
    (is "treiber_reachable cnt ?final")
proof -
  let ?s1 = "goto t (FreeLink x (st_head s)) (own t (st_owned s t - {x}) s)"
  let ?s2 = "goto t (FreeCas x (st_head s))
      (?s1\<lparr>st_mem := store64 (slot_addr x) (ucast (head_idx (st_head s))) (st_mem s)\<rparr>)"
  have 1: "treiber_step s ?s1" by (rule treiber_step.free_load [OF pc x])
  have 2: "treiber_step ?s1 ?s2" using treiber_step.free_link [of ?s1 t x "st_head s"] by simp
  have 3: "treiber_step ?s2 (goto t FreeSub (?s2\<lparr>st_head := pack_head x (head_gen (st_head s) + 1),
       commits := Suc (commits ?s2)\<rparr>))" (is "treiber_step _ ?s3")
    by (rule treiber_step.free_cas_ok) simp_all
  have 4: "?s3 = ?final" by (simp add: goto_def own_def)
  show ?thesis by (rule reachable_3 [OF r 1 2 3 4])
qed

section \<open>Lock freedom\<close>















section \<open>Properties\<close>

text \<open>
  C13: no interleaving hands a slot to two owners.  In every reachable state (fewer than 2^32 pushes and
  pops, so that the generation has not wrapped) a slot belongs to at most one thread, the free list is
  an intact duplicate-free chain that contains no owned slot, and no slot is lost: each is free, owned,
  or in the hands of a thread that is pushing it.
\<close>

theorem lock_free_exclusive_ownership:
  assumes "treiber_reachable cnt s" and "commits s < 2 ^ 32"
  shows "(\<forall>t u x. x \<in> st_owned s t \<longrightarrow> x \<in> st_owned s u \<longrightarrow> t = u) \<and>
    (\<exists>fl. chain (st_mem s) (head_idx (st_head s)) fl \<and> distinct fl \<and>
       (\<forall>t. st_owned s t \<inter> set fl = {}) \<and>
       set fl \<union> (\<Union>t. st_owned s t \<union> in_flight (st_pc s t)) = {x. x < cnt})"
proof -
  obtain fl where inv: "stack_inv cnt s fl" using reachable_stack_inv [OF assms] by blast
  have "t = u" if "x \<in> st_owned s t" "x \<in> st_owned s u" for t u x
    using stack_invD(4) [OF inv, of t u] that by (auto simp: holds_def)
  moreover have "st_owned s t \<inter> set fl = {}" for t
    using stack_invD(6) [OF inv, of t] by (auto simp: holds_def)
  ultimately show ?thesis using stack_invD(1,2,7) [OF inv] unfolding holds_def by blast
qed

lemma init_stack_sel [simp]:
  "st_pc (init_stack cnt) t = Idle" "st_used (init_stack cnt) = 0" "st_high (init_stack cnt) = 0"
  "st_owned (init_stack cnt) t = {}" "commits (init_stack cnt) = 0"
  "head_idx (st_head (init_stack cnt)) = (if cnt > 0 then 0 else kListEnd)"
  by (simp_all add: init_stack_def init_free_list_def zero_header_def Let_def)

theorem lock_free_exclusive_ownership_witness:
  "\<exists>s. treiber_reachable 3 s \<and> 0 \<in> st_owned s 1 \<and> (\<forall>u. 0 \<in> st_owned s u \<longrightarrow> u = 1)"
proof -
  have idle: "head_idx (st_head (init_stack 3)) \<noteq> kListEnd" by (simp add: kListEnd_eq)
  obtain s where s: "s = goto 1 NoteAdd (own 1 (insert (head_idx (st_head (init_stack 3))) (st_owned (init_stack 3) 1))
     (init_stack 3\<lparr>st_head := pack_head (node_next (st_mem (init_stack 3)) (head_idx (st_head (init_stack 3))))
       (head_gen (st_head (init_stack 3)) + 1), commits := Suc (commits (init_stack 3))\<rparr>))" by blast
  have r: "treiber_reachable 3 s"
    unfolding s by (rule alloc_run [OF treiber_reachable.start [of 3] _ idle]) simp
  have c: "commits s < 2 ^ 32" and o: "0 \<in> st_owned s 1" by (simp_all add: s)
  have "u = 1" if "0 \<in> st_owned s u" for u
    using conjunct1 [OF lock_free_exclusive_ownership [OF r c]] that o by blast
  with r o show ?thesis by blast
qed

text \<open>
  C12: the interleaved operations are linearizable.  Every step is one thread's, changes the chain of free slots
  by \<open>stack_effect\<close>, and leaves the other threads where they were (or moves no thread: payload bytes, slots handed
  over).  So the successful compare-exchange of \<open>alloc_slot\<close> pops the first free slot and gives this slot to its
  thread; that of \<open>free_slot\<close> pushes the slot the thread gave up when it entered; the load that later makes
  \<open>alloc_slot\<close> report an exhausted arena finds the list empty at that moment; and no other access, failed
  exchanges and the counters included, changes the list.
\<close>

theorem treiber_linearizable:
  assumes "treiber_reachable cnt s" and "treiber_step s s'" and "commits s' < 2 ^ 32"
    and "chain (st_mem s) (head_idx (st_head s)) fl"
  shows "\<exists>fl'. chain (st_mem s') (head_idx (st_head s')) fl' \<and> distinct fl' \<and>
    ((st_pc s' = st_pc s \<and> fl' = fl) \<or>
     (\<exists>t. (\<forall>u. u \<noteq> t \<longrightarrow> st_pc s' u = st_pc s u \<and> st_owned s' u = st_owned s u) \<and>
          stack_effect (st_pc s t) (st_pc s' t) (st_owned s t) (st_owned s' t) fl fl'))"
proof -
  have "commits s < 2 ^ 32" using commits_mono [OF assms(2)] assms(3) by linarith
  then obtain fl0 where inv: "stack_inv cnt s fl0" using reachable_stack_inv [OF assms(1)] by blast
  have "fl0 = fl" using stack_invD(1) [OF inv] assms(4) chain_unique by blast
  with treiber_step_inv [OF assms(2) inv assms(3)] show ?thesis unfolding linearized_def using stack_invD(1,2) by blast
qed

text \<open>The compare-exchange of the first allocation, which pops slot 0 for thread 1.\<close>

theorem treiber_linearizable_witness:
  "\<exists>s s' fl'. treiber_reachable 3 s \<and> treiber_step s s' \<and> st_pc s' 1 = NoteAdd \<and>
     chain (st_mem s') (head_idx (st_head s')) fl' \<and> [0, 1, 2] = 0 # fl' \<and> st_owned s' 1 = {0}"
proof -
  let ?i = "init_stack 3" let ?h = "st_head (init_stack 3)"
  let ?nxt = "node_next (st_mem ?i) (head_idx ?h)"
  define s where "s = goto 1 (AllocCas ?h ?nxt) (goto 1 (AllocLoop ?h) ?i)"
  have h: "head_idx ?h = 0" by simp
  have 1: "treiber_step ?i (goto 1 (AllocLoop ?h) ?i)" by (rule treiber_step.alloc_load) simp
  have 2: "treiber_step (goto 1 (AllocLoop ?h) ?i) s"
    unfolding s_def by (rule treiber_step.alloc_read) (simp_all add: kListEnd_eq)
  have r: "treiber_reachable 3 s"
    by (rule treiber_reachable.step [OF treiber_reachable.step [OF treiber_reachable.start 1] 2])
  obtain s' where step: "treiber_step s s'" and s': "st_pc s' = (st_pc s)(1 := NoteAdd)" "commits s' = 1" "st_owned s' 1 = {0}"
    using treiber_step.alloc_cas_ok [of s 1 ?h ?nxt] by (auto simp: s_def h)
  have c: "commits s' < 2 ^ 32" by (simp add: s'(2))
  have pc: "st_pc s 1 = AllocCas ?h ?nxt" "st_pc s 0 = Idle" "st_pc s' 1 = NoteAdd" by (simp_all add: s'(1)) (simp_all add: s_def)
  have fl: "chain (st_mem s) (head_idx (st_head s)) [0, 1, 2]"
    using stack_invD(1) [OF init_stack_inv [of 3]] by (simp add: s_def upt_0_3)
  obtain fl' t where fl': "chain (st_mem s') (head_idx (st_head s')) fl'"
    and eff: "(st_pc s' = st_pc s \<and> fl' = [0, 1, 2]) \<or> (\<forall>u. u \<noteq> t \<longrightarrow> st_pc s' u = st_pc s u) \<and>
          stack_effect (st_pc s t) (st_pc s' t) (st_owned s t) (st_owned s' t) [0, 1, 2] fl'"
    using treiber_linearizable [OF r step c fl] by blast
  have "st_pc s' 1 \<noteq> st_pc s 1" using pc(1,3) by simp
  then have "t = 1" "stack_effect (st_pc s 1) (st_pc s' 1) (st_owned s 1) (st_owned s' 1) [0, 1, 2] fl'" using eff by metis+
  then have "[0, 1, 2] = 0 # fl'" unfolding pc(1,3) by (simp add: stack_effect_def h)
  then show ?thesis using r step pc(3) fl' s'(3) by blast
qed



text \<open>
  The usage counters are not bounded by the slot count.  \<open>free_slot\<close> subtracts from \<open>used_slots\<close> only
  after its push, so an allocation that runs in between counts the slot twice: an arena of one slot
  reaches a used count and a permanent high-water mark of two.
\<close>

theorem counters_overshoot:
  "\<exists>s. treiber_reachable 1 s \<and> st_used s = 2 \<and> st_high s = 2"
proof -
  let ?pop = "\<lambda>t s. goto t NoteAdd (own t (insert (head_idx (st_head s)) (st_owned s t))
     (s\<lparr>st_head := pack_head (node_next (st_mem s) (head_idx (st_head s))) (head_gen (st_head s) + 1),
        commits := Suc (commits s)\<rparr>))"
  let ?note = "\<lambda>t s. goto t Idle (s\<lparr>st_used := st_used s + 1, st_high := st_used s + 1\<rparr>)"
  let ?push = "\<lambda>t x s. goto t FreeSub (own t (st_owned s t - {x})
     (s\<lparr>st_mem := store64 (slot_addr x) (ucast (head_idx (st_head s))) (st_mem s),
        st_head := pack_head x (head_gen (st_head s) + 1), commits := Suc (commits s)\<rparr>))"
  obtain s1 where s1: "s1 = ?pop 0 (init_stack 1)" by blast
  obtain s2 where s2: "s2 = ?note 0 s1" by blast
  obtain s3 where s3: "s3 = ?push 0 0 s2" by blast
  obtain s4 where s4: "s4 = ?pop 1 s3" by blast
  obtain s5 where s5: "s5 = ?note 1 s4" by blast
  have "treiber_reachable 1 s1"
    unfolding s1 by (rule alloc_run [OF treiber_reachable.start]) (simp_all add: kListEnd_eq)
  then have "treiber_reachable 1 s2" unfolding s2 by (rule note_run) (simp_all add: s1)
  then have "treiber_reachable 1 s3" unfolding s3 by (rule push_run) (simp_all add: s2 s1)
  then have "treiber_reachable 1 s4"
    unfolding s4 by (rule alloc_run) (simp_all add: s3 s2 s1 kListEnd_eq)
  then have "treiber_reachable 1 s5"
    unfolding s5 by (rule note_run) (simp_all add: s4 s3 s2 s1)
  moreover have "st_used s5 = 2" "st_high s5 = 2" by (simp_all add: s5 s4 s3 s2 s1)
  ultimately show ?thesis by blast
qed

end
