(* ===== verification/BlockTable.thy ===== *)
theory BlockTable
  imports FreeList
begin

text \<open>
  \<^verbatim>\<open>src/receiver/shm_manager.cpp\<close>, class \<open>BlockView\<close>: the presence bitset, the slot links, the unique
  symbol counter and the decode latch of one block.  Each operation is the run of its code alone (its
  compare-exchange succeeds); \<open>BlockRace\<close> interleaves them.  The interface \<open>symbol_registry\<close> is what the
  data-packet path relies on.
\<close>

section \<open>Operations\<close>

datatype SymbolRegisterResult = NewSymbol | DuplicateSymbol | InvalidSymbolId

definition DECODE_PENDING :: u32 where "DECODE_PENDING = 0"
definition DECODE_CLAIMED :: u32 where "DECODE_CLAIMED = 1"
definition DECODE_COMPLETE :: u32 where "DECODE_COMPLETE = 2"

lemmas decode_states = DECODE_PENDING_def DECODE_CLAIMED_def DECODE_COMPLETE_def

definition sym_word :: "u32 \<Rightarrow> nat" where
  "sym_word symbol_id = unat (symbol_id div 64)"

definition sym_bit :: "u32 \<Rightarrow> u64" where
  "sym_bit symbol_id = push_bit (unat (symbol_id mod 64)) 1"

definition register_symbol :: "u32 \<Rightarrow> u32 \<Rightarrow> BlockEntry \<Rightarrow> SymbolRegisterResult \<times> BlockEntry" where
  "register_symbol symbol_id slot e =
     (if symbol_id \<ge> MAX_N then (InvalidSymbolId, e)
      else
        let w = sym_word symbol_id; b = sym_bit symbol_id; old_word = present_mask e ! w
        in if old_word AND b \<noteq> 0 then (DuplicateSymbol, e)
        else (NewSymbol, e\<lparr>present_mask := array_write (present_mask e) w (old_word OR b),
                           slot_idx := array_write (slot_idx e) (unat symbol_id) slot, seen := seen e + 1\<rparr>))"

definition is_present :: "BlockEntry \<Rightarrow> u32 \<Rightarrow> bool" where
  "is_present e symbol_id \<longleftrightarrow>
     \<not> symbol_id \<ge> MAX_N \<and> present_mask e ! sym_word symbol_id AND sym_bit symbol_id \<noteq> 0"

definition try_claim_decode :: "BlockEntry \<Rightarrow> bool \<times> BlockEntry" where
  "try_claim_decode e =
     (if decoded e = DECODE_PENDING then (True, e\<lparr>decoded := DECODE_CLAIMED\<rparr>) else (False, e))"

definition mark_decode_complete :: "BlockEntry \<Rightarrow> bool \<times> BlockEntry" where
  "mark_decode_complete e =
     (if decoded e = DECODE_CLAIMED then (True, e\<lparr>decoded := DECODE_COMPLETE\<rparr>) else (False, e))"

definition slot_of :: "BlockEntry \<Rightarrow> u32 \<Rightarrow> u32" where
  "slot_of e sid = (if sid < MAX_N then slot_idx e ! unat sid else SLOT_IDX_FREE)"

definition clear_slot :: "u32 \<Rightarrow> BlockEntry \<Rightarrow> BlockEntry" where
  "clear_slot sid e = (if sid < MAX_N then e\<lparr>slot_idx := array_write (slot_idx e) (unat sid) SLOT_IDX_FREE\<rparr> else e)"

section \<open>Bits and words\<close>

lemma MAX_N_less: "s < MAX_N \<longleftrightarrow> unat s < 255"
  by (simp add: MAX_N_def word_less_nat_alt)

lemma sym_word_less [simp]: "s < MAX_N \<Longrightarrow> sym_word s < 4"
  by (simp add: MAX_N_less sym_word_def unat_div)

lemma and_sym_bit: "w AND sym_bit s \<noteq> 0 \<longleftrightarrow> bit w (unat (s mod 64))"
  by (simp add: sym_bit_def push_bit_of_1 and_exp_eq_0_iff_not_bit)

lemma sym_pos_inj: "sym_word s = sym_word t \<Longrightarrow> unat (s mod 64) = unat (t mod 64) \<Longrightarrow> s = t" for s t :: u32
  by (metis sym_word_def unsigned_word_eqI div_mult_mod_eq)

lemma sym_mod_less: "unat (s mod 64 :: u32) < 64"
  by (simp add: unat_mod)

lemma bit_or_sym_bit: "bit (w OR sym_bit s) (unat (t mod 64)) \<longleftrightarrow>
    bit w (unat (t mod 64)) \<or> unat (s mod 64) = unat (t mod 64)" for t :: u32
  using sym_mod_less [of t] by (auto simp: sym_bit_def push_bit_of_1 bit_or_iff bit_exp_iff)

section \<open>Abstraction: a block as a map from symbols to slots\<close>

definition links :: "BlockEntry \<Rightarrow> u32 \<rightharpoonup> u32" where
  "links e s = (if is_present e s then Some (slot_of e s) else None)"

definition block_wf :: "BlockEntry \<Rightarrow> bool" where
  "block_wf e \<longleftrightarrow> length (present_mask e) = 4 \<and> length (slot_idx e) = 255 \<and>
     seen e = of_nat (card (dom (links e)))"

lemma is_present_bit:
  "is_present e s \<longleftrightarrow> s < MAX_N \<and> bit (present_mask e ! sym_word s) (unat (s mod 64))"
  by (auto simp: is_present_def and_sym_bit not_le)

lemma is_present_set:
  assumes "length (present_mask e) = 4" and "s < MAX_N"
  shows "is_present (e\<lparr>present_mask := (present_mask e)[sym_word s := present_mask e ! sym_word s OR sym_bit s]\<rparr>) t
           \<longleftrightarrow> is_present e t \<or> t = s"
  using assms sym_pos_inj [of s t]
  by (auto simp: is_present_bit nth_list_update bit_or_sym_bit)

lemma is_present_cong [simp]:
  "is_present (e\<lparr>slot_idx := xs\<rparr>) t = is_present e t" "is_present (e\<lparr>seen := n\<rparr>) t = is_present e t"
  "is_present (e\<lparr>decoded := d\<rparr>) t = is_present e t"
  by (simp_all add: is_present_def)

lemma slot_of_set:
  "length (slot_idx e) = 255 \<Longrightarrow> s < MAX_N \<Longrightarrow>
   slot_of (e\<lparr>slot_idx := (slot_idx e)[unat s := x]\<rparr>) t = (if t = s then x else slot_of e t)"
  by (auto simp: slot_of_def MAX_N_less nth_list_update dest: unsigned_word_eqI)

lemma slot_of_cong [simp]:
  "slot_of (e\<lparr>present_mask := m\<rparr>) t = slot_of e t" "slot_of (e\<lparr>seen := n\<rparr>) t = slot_of e t"
  "slot_of (e\<lparr>decoded := d\<rparr>) t = slot_of e t"
  by (simp_all add: slot_of_def)

lemma links_finite [simp]: "finite (dom (links e))"
  by (rule finite_subset [of _ "UNIV :: u32 set"]) simp_all

lemma links_decoded [simp]: "links (e\<lparr>decoded := d\<rparr>) = links e"
  by (simp add: links_def fun_eq_iff)

text \<open>The stores of a block entry stay inside its arrays.\<close>

lemma array_write_entry [simp]:
  "length (present_mask e) = 4 \<Longrightarrow> s < MAX_N \<Longrightarrow> array_write (present_mask e) (sym_word s) v = (present_mask e)[sym_word s := v]"
  "length (slot_idx e) = 255 \<Longrightarrow> s < MAX_N \<Longrightarrow> array_write (slot_idx e) (unat s) x = (slot_idx e)[unat s := x]"
  by (simp_all add: MAX_N_less)

lemma register_symbol_new:
  assumes "block_wf e" and "s < MAX_N" and "links e s = None"
  shows "fst (register_symbol s x e) = NewSymbol"
    and "links (snd (register_symbol s x e)) = (links e)(s \<mapsto> x)"
    and "decoded (snd (register_symbol s x e)) = decoded e"
proof -
  have bit0: "\<not> (present_mask e ! sym_word s AND sym_bit s \<noteq> 0)"
    using assms(2,3) by (simp add: links_def is_present_def not_le split: if_splits)
  define e' where "e' = e\<lparr>present_mask := (present_mask e)[sym_word s := present_mask e ! sym_word s OR sym_bit s],
              slot_idx := (slot_idx e)[unat s := x], seen := seen e + 1\<rparr>"
  have reg: "register_symbol s x e = (NewSymbol, e')"
    using assms(1,2) bit0 by (simp add: register_symbol_def Let_def not_le e'_def block_wf_def)
  have pres: "is_present e' t \<longleftrightarrow> is_present e t \<or> t = s" for t
    using is_present_set [of e s t] assms by (simp add: block_wf_def is_present_def e'_def)
  have slot: "slot_of e' t = (if t = s then x else slot_of e t)" for t
  proof -
    have "slot_of e' t = slot_of (e\<lparr>slot_idx := (slot_idx e)[unat s := x]\<rparr>) t" by (simp add: slot_of_def e'_def)
    then show ?thesis using slot_of_set [of e s x t] assms(1,2) by (simp add: block_wf_def)
  qed
  show "fst (register_symbol s x e) = NewSymbol" "decoded (snd (register_symbol s x e)) = decoded e"
    by (simp_all add: reg e'_def)
  show "links (snd (register_symbol s x e)) = (links e)(s \<mapsto> x)"
    using assms(2) by (auto simp: reg links_def pres slot fun_eq_iff)
qed

lemma register_symbol_old:
  "block_wf e \<Longrightarrow> s \<ge> MAX_N \<Longrightarrow> register_symbol s x e = (InvalidSymbolId, e)"
  "block_wf e \<Longrightarrow> s < MAX_N \<Longrightarrow> links e s \<noteq> None \<Longrightarrow> register_symbol s x e = (DuplicateSymbol, e)"
  by (auto simp: register_symbol_def Let_def links_def is_present_def split: if_splits)

lemma register_symbol_wf:
  assumes "block_wf e" shows "block_wf (snd (register_symbol s x e))"
proof (cases "s < MAX_N \<and> links e s = None")
  case True
  then have new: "links (snd (register_symbol s x e)) = (links e)(s \<mapsto> x)"
    using register_symbol_new [OF assms] by blast
  have "seen (snd (register_symbol s x e)) = seen e + 1"
    "length (present_mask (snd (register_symbol s x e))) = length (present_mask e)"
    "length (slot_idx (snd (register_symbol s x e))) = length (slot_idx e)"
    using register_symbol_new(1) [OF assms, of s x] True assms
    by (auto simp: register_symbol_def Let_def block_wf_def split: if_splits)
  moreover have "s \<notin> dom (links e)" using True by auto
  ultimately show ?thesis
    using assms unfolding block_wf_def new by (simp add: add.commute)
next
  case False
  then have "snd (register_symbol s x e) = e"
    using register_symbol_old [OF assms, of s x] by (cases "s < MAX_N") (auto simp: not_less)
  with assms show ?thesis by simp
qed

section \<open>The registry interface\<close>

text \<open>Registering a sequence of (symbol id, slot) pairs.\<close>

definition register_seq ::
  "(u32 \<Rightarrow> u32 \<Rightarrow> 'b \<Rightarrow> SymbolRegisterResult \<times> 'b) \<Rightarrow> (u32 \<times> u32) list \<Rightarrow> 'b \<Rightarrow> 'b" where
  "register_seq reg xs e = foldl (\<lambda>e (s, x). snd (reg s x e)) e xs"

lemma register_seq_simps [simp]:
  "register_seq reg [] e = e"
  "register_seq reg ((s, x) # xs) e = register_seq reg xs (snd (reg s x e))"
  by (simp_all add: register_seq_def)

text \<open>
  What the data-packet path relies on: the first registration of a valid symbol id links it and
  reports it new, every other one changes nothing, and the counter is the number of linked ids.
\<close>

locale symbol_registry =
  fixes register :: "u32 \<Rightarrow> u32 \<Rightarrow> 'b \<Rightarrow> SymbolRegisterResult \<times> 'b"
    and linked :: "'b \<Rightarrow> u32 \<rightharpoonup> u32" and total :: "'b \<Rightarrow> u32" and ok :: "'b \<Rightarrow> bool" and limit :: u32
  assumes register_ok: "ok e \<Longrightarrow> ok (snd (register s x e))"
    and register_invalid: "ok e \<Longrightarrow> s \<ge> limit \<Longrightarrow> register s x e = (InvalidSymbolId, e)"
    and register_duplicate: "ok e \<Longrightarrow> s < limit \<Longrightarrow> linked e s \<noteq> None \<Longrightarrow> register s x e = (DuplicateSymbol, e)"
    and register_new: "ok e \<Longrightarrow> s < limit \<Longrightarrow> linked e s = None \<Longrightarrow>
          fst (register s x e) = NewSymbol \<and> linked (snd (register s x e)) = (linked e)(s \<mapsto> x)"
    and total_card: "ok e \<Longrightarrow> total e = of_nat (card (dom (linked e)))"
begin

lemma register_seq_ok: "ok e \<Longrightarrow> ok (register_seq register xs e)"
  by (induction xs arbitrary: e) (auto simp: register_ok)

lemma register_seq_linked:
  "ok e \<Longrightarrow> linked (register_seq register xs e) = map_of (filter (\<lambda>(s, x). s < limit) xs) ++ linked e"
proof (induction xs arbitrary: e)
  case (Cons p xs)
  obtain s x where p: "p = (s, x)" by (cases p)
  consider "s \<ge> limit" | "s < limit" "linked e s \<noteq> None" | "s < limit" "linked e s = None"
    by (auto simp: not_le [symmetric])
  then show ?case
  proof cases
    case 1
    then show ?thesis using Cons register_invalid [OF Cons.prems] by (simp add: p not_less)
  next
    case 2
    then show ?thesis
      using Cons register_duplicate [OF Cons.prems 2] by (auto simp: p map_add_def fun_eq_iff split: option.splits)
  next
    case 3
    with Cons.IH [OF register_ok [OF Cons.prems]] register_new [OF Cons.prems 3]
    show ?thesis by (auto simp: p map_add_def fun_eq_iff split: option.splits)
  qed
qed simp

lemma register_seq_total:
  assumes "ok e" and "linked e = Map.empty"
  shows "total (register_seq register xs e) = of_nat (card {s \<in> fst ` set xs. s < limit})"
proof -
  have "dom (linked (register_seq register xs e)) = {s \<in> fst ` set xs. s < limit}"
    using register_seq_linked [OF assms(1)] assms(2) by (auto simp: dom_map_of_conv_image_fst)
  with total_card [OF register_seq_ok [OF assms(1)]] show ?thesis by simp
qed

end

interpretation block_registry: symbol_registry register_symbol links seen block_wf MAX_N
  by unfold_locales (simp_all add: register_symbol_wf register_symbol_old register_symbol_new, simp add: block_wf_def)


section \<open>Clearing links, and the fresh block\<close>

lemma is_present_clear [simp]: "is_present (clear_slot s e) t = is_present e t"
  by (simp add: clear_slot_def)

lemma slot_of_clear:
  "length (slot_idx e) = 255 \<Longrightarrow> s < MAX_N \<Longrightarrow> slot_of (clear_slot s e) t = (if t = s then kListEnd else slot_of e t)"
  using slot_of_set [of e s kListEnd t] by (simp add: clear_slot_def)

lemma links_clear:
  "length (slot_idx e) = 255 \<Longrightarrow> s < MAX_N \<Longrightarrow>
   links (clear_slot s e) t = (if t = s \<and> is_present e s then Some kListEnd else links e t)"
  by (simp add: links_def slot_of_clear)

lemma dom_links: "dom (links e) = {s. is_present e s}"
  by (auto simp: links_def split: if_splits)

lemma clear_slot_sel [simp]:
  "present_mask (clear_slot s e) = present_mask e" "seen (clear_slot s e) = seen e"
  "decoded (clear_slot s e) = decoded e" "length (slot_idx e) = 255 \<Longrightarrow> length (slot_idx (clear_slot s e)) = 255"
  by (simp_all add: clear_slot_def)

lemma block_wf_clear [simp]: "block_wf e \<Longrightarrow> block_wf (clear_slot s e)"
  by (simp add: block_wf_def dom_links)

lemma block_wf_decoded [simp]: "block_wf (e\<lparr>decoded := d\<rparr>) = block_wf e"
  by (simp add: block_wf_def)

lemma zero_block_absent [simp]: "\<not> is_present zero_block s"
proof -
  have "present_mask zero_block ! sym_word s = 0" if "s < MAX_N"
    using sym_word_less [OF that] by (simp only: zero_block_def BlockEntry.simps nth_replicate)
  then show ?thesis by (auto simp: is_present_def not_le)
qed

lemma links_zero_block [simp]: "links zero_block = Map.empty"
  by (simp add: links_def fun_eq_iff)

lemma block_wf_zero [simp]: "block_wf zero_block"
  unfolding block_wf_def by (simp, simp add: zero_block_def)

section \<open>Properties\<close>

text \<open>
  Registration is first-writer-wins and exact.  Registering any sequence of (symbol id, slot) pairs
  in a fresh block leaves exactly the valid ids linked, each to the slot of its first occurrence, and
  \<open>seen\<close> equals the number of distinct valid ids: duplicates and invalid ids never count.
\<close>

theorem register_first_wins:
  assumes "block_wf e" and "links e = Map.empty"
  shows "links (register_seq register_symbol xs e) = map_of (filter (\<lambda>(s, x). s < MAX_N) xs) \<and>
         seen (register_seq register_symbol xs e) = of_nat (card {s \<in> fst ` set xs. s < MAX_N})"
  using block_registry.register_seq_linked [OF assms(1), of xs]
    block_registry.register_seq_total [OF assms, of xs] assms(2) by simp

theorem register_first_wins_witness:
  "links (register_seq register_symbol [(7, 40), (70, 41), (7, 42), (300, 43)] zero_block) = [7 \<mapsto> 40, 70 \<mapsto> 41] \<and>
   seen (register_seq register_symbol [(7, 40), (70, 41), (7, 42), (300, 43)] zero_block) = 2"
proof -
  let ?xs = "[(7, 40), (70, 41), (7, 42), (300, 43)] :: (u32 \<times> u32) list"
  have valid: "filter (\<lambda>(s, x). s < MAX_N) ?xs = [(7, 40), (70, 41), (7, 42)]" by (simp add: MAX_N_def)
  have "{s \<in> fst ` set ?xs. s < MAX_N} = {7, 70}" by (auto simp: MAX_N_def)
  then have ids: "card {s \<in> fst ` set ?xs. s < MAX_N} = 2" by simp
  have first: "map_of [(7 :: u32, 40), (70, 41), (7, 42)] = [7 \<mapsto> (40 :: u32), 70 \<mapsto> (41 :: u32)]" by (auto simp: fun_eq_iff)
  show ?thesis
    using register_first_wins [OF block_wf_zero links_zero_block, of ?xs] unfolding valid ids first by simp
qed

text \<open>The two transitions of the decode latch, in any order of callers: each is one atomic access.\<close>

datatype latch_op = Claim | Complete

fun latch :: "latch_op \<Rightarrow> BlockEntry \<Rightarrow> bool \<times> BlockEntry" where
  "latch Claim e = try_claim_decode e"
| "latch Complete e = mark_decode_complete e"

fun run_latch :: "latch_op list \<Rightarrow> BlockEntry \<Rightarrow> bool list \<times> BlockEntry" where
  "run_latch [] e = ([], e)"
| "run_latch (p # ps) e =
     (case latch p e of (r, e1) \<Rightarrow> case run_latch ps e1 of (rs, e2) \<Rightarrow> (r # rs, e2))"

lemma run_latch_append:
  "run_latch (ps @ qs) e =
     (fst (run_latch ps e) @ fst (run_latch qs (snd (run_latch ps e))), snd (run_latch qs (snd (run_latch ps e))))"
  by (induction ps arbitrary: e) (auto simp: case_prod_beta)

lemma length_run_latch [simp]: "length (fst (run_latch ps e)) = length ps"
  by (induction ps arbitrary: e) (auto simp: case_prod_beta)

lemma run_latch_nth:
  assumes "i < length ps"
  shows "fst (run_latch ps e) ! i = fst (latch (ps ! i) (snd (run_latch (take i ps) e)))"
proof -
  have "ps = take i ps @ ps ! i # drop (Suc i) ps" using assms by (rule id_take_nth_drop)
  then have "fst (run_latch ps e) ! i = fst (run_latch (take i ps @ ps ! i # drop (Suc i) ps) e) ! i"
    by (rule arg_cong)
  then show ?thesis using assms by (simp add: run_latch_append nth_append split: prod.splits)
qed

lemma run_latch_state:
  "decoded e = DECODE_PENDING \<Longrightarrow> decoded (snd (run_latch ps e)) =
     (if Claim \<notin> set ps then DECODE_PENDING
      else if Complete \<in> set (dropWhile ((\<noteq>) Claim) ps) then DECODE_COMPLETE else DECODE_CLAIMED)"
proof (induction ps rule: rev_induct)
  case (snoc p ps)
  then show ?case
    by (cases p) (auto simp: run_latch_append try_claim_decode_def mark_decode_complete_def decode_states
        dropWhile_append split: prod.splits if_splits)
qed simp

text \<open>
  The decode latch elects one decoder.  However the receivers' \<open>try_claim_decode\<close> and
  \<open>mark_decode_complete\<close> calls are ordered, the claim succeeds for the first claimer and for nobody else,
  and completion succeeds exactly once, for the first completion after that claim.
\<close>

theorem decode_latch_elects_one:
  assumes "decoded e = DECODE_PENDING" and "i < length ps"
  shows "fst (run_latch ps e) ! i \<longleftrightarrow>
     (case ps ! i of
        Claim \<Rightarrow> Claim \<notin> set (take i ps)
      | Complete \<Rightarrow> Claim \<in> set (take i ps) \<and> Complete \<notin> set (dropWhile ((\<noteq>) Claim) (take i ps)))"
  using run_latch_state [OF assms(1), of "take i ps"]
  by (cases "ps ! i")
    (auto simp: run_latch_nth [OF assms(2)] try_claim_decode_def mark_decode_complete_def decode_states)

theorem decode_latch_elects_one_witness:
  "\<not> fst (run_latch [Complete, Claim, Claim, Complete, Complete] zero_block) ! 2"
  using decode_latch_elects_one [of zero_block 2 "[Complete, Claim, Claim, Complete, Complete]"]
  by (simp add: zero_block_def DECODE_PENDING_def)

end
