(* ===== verification/BlockRace.thy ===== *)
theory BlockRace
  imports BlockTable
begin

text \<open>
  \<open>BlockView::register_symbol\<close> and the decode claim with their steps interleaved: any number of threads
  of any number of receiver processes on one block.  One rule is one shared access.  \<open>rb_wins\<close> and
  \<open>rb_claims\<close> are a history the program does not store: the (symbol id, slot) pairs whose registration
  has returned \<open>NewSymbol\<close>, and the threads whose \<open>try_claim_decode\<close> has returned true.
\<close>

datatype rpc =
    RIdle
  | RLoop u32 u32 u64        \<comment> \<open>symbol id, slot, \<open>old_word\<close>: top of the compare-exchange loop\<close>
  | RWriteIdx u32 u32        \<comment> \<open>bit won, before \<open>slot_idx[symbol_id] = slot\<close>\<close>
  | RAdd u32 u32             \<comment> \<open>link written, before \<open>seen.fetch_add\<close>\<close>

record RaceState =
  rb_block :: BlockEntry
  rb_pc :: "nat \<Rightarrow> rpc"
  rb_wins :: "(u32 \<times> u32) list"
  rb_claims :: "nat list"

definition rgoto :: "nat \<Rightarrow> rpc \<Rightarrow> RaceState \<Rightarrow> RaceState" where
  "rgoto t p s = s\<lparr>rb_pc := (rb_pc s)(t := p)\<rparr>"

inductive race_step :: "u32 \<Rightarrow> RaceState \<Rightarrow> RaceState \<Rightarrow> bool" for k where
  reg_load: "rb_pc s t = RIdle \<Longrightarrow> \<not> sid \<ge> MAX_N \<Longrightarrow>
     race_step k s (rgoto t (RLoop sid slot (present_mask (rb_block s) ! sym_word sid)) s)"
| reg_duplicate: "rb_pc s t = RLoop sid slot old \<Longrightarrow> old AND sym_bit sid \<noteq> 0 \<Longrightarrow> race_step k s (rgoto t RIdle s)"
| reg_cas_ok: "rb_pc s t = RLoop sid slot old \<Longrightarrow> \<not> old AND sym_bit sid \<noteq> 0 \<Longrightarrow>
     present_mask (rb_block s) ! sym_word sid = old \<Longrightarrow>
     race_step k s (rgoto t (RWriteIdx sid slot)
       (s\<lparr>rb_block := (rb_block s)\<lparr>present_mask := (present_mask (rb_block s))[sym_word sid := old OR sym_bit sid]\<rparr>\<rparr>))"
| reg_cas_fail: "rb_pc s t = RLoop sid slot old \<Longrightarrow> \<not> old AND sym_bit sid \<noteq> 0 \<Longrightarrow>
     race_step k s (rgoto t (RLoop sid slot (present_mask (rb_block s) ! sym_word sid)) s)"
| reg_write: "rb_pc s t = RWriteIdx sid slot \<Longrightarrow>
     race_step k s (rgoto t (RAdd sid slot)
       (s\<lparr>rb_block := (rb_block s)\<lparr>slot_idx := (slot_idx (rb_block s))[unat sid := slot]\<rparr>\<rparr>))"
| reg_add: "rb_pc s t = RAdd sid slot \<Longrightarrow>
     race_step k s (rgoto t RIdle
       (s\<lparr>rb_block := (rb_block s)\<lparr>seen := seen (rb_block s) + 1\<rparr>, rb_wins := (sid, slot) # rb_wins s\<rparr>))"
| claim: "rb_pc s t = RIdle \<Longrightarrow> seen (rb_block s) \<ge> k \<Longrightarrow> try_claim_decode (rb_block s) = (True, e) \<Longrightarrow>
     race_step k s (s\<lparr>rb_block := e, rb_claims := t # rb_claims s\<rparr>)"

inductive race_reachable :: "u32 \<Rightarrow> RaceState \<Rightarrow> bool" for k where
  start: "race_reachable k \<lparr>rb_block = zero_block, rb_pc = (\<lambda>_. RIdle), rb_wins = [], rb_claims = []\<rparr>"
| step: "race_reachable k s \<Longrightarrow> race_step k s s' \<Longrightarrow> race_reachable k s'"

section \<open>The invariant\<close>

fun pending :: "rpc \<Rightarrow> u32 set" where
  "pending (RWriteIdx sid slot) = {sid}"
| "pending (RAdd sid slot) = {sid}"
| "pending _ = {}"

fun linked_pc :: "BlockEntry \<Rightarrow> rpc \<Rightarrow> bool" where
  "linked_pc e RIdle \<longleftrightarrow> True"
| "linked_pc e (RLoop sid slot old) \<longleftrightarrow> sid < MAX_N"
| "linked_pc e (RWriteIdx sid slot) \<longleftrightarrow> sid < MAX_N"
| "linked_pc e (RAdd sid slot) \<longleftrightarrow> sid < MAX_N \<and> slot_of e sid = slot"

definition race_inv :: "RaceState \<Rightarrow> bool" where
  "race_inv s \<longleftrightarrow>
     length (present_mask (rb_block s)) = 4 \<and> length (slot_idx (rb_block s)) = 255 \<and>
     (\<forall>sid. is_present (rb_block s) sid \<longleftrightarrow>
        sid \<in> fst ` set (rb_wins s) \<or> (\<exists>t. sid \<in> pending (rb_pc s t))) \<and>
     (\<forall>t u. t \<noteq> u \<longrightarrow> pending (rb_pc s t) \<inter> pending (rb_pc s u) = {}) \<and>
     (\<forall>t. pending (rb_pc s t) \<inter> fst ` set (rb_wins s) = {}) \<and>
     distinct (map fst (rb_wins s)) \<and>
     seen (rb_block s) = of_nat (length (rb_wins s)) \<and>
     (\<forall>(sid, slot)\<in>set (rb_wins s). slot_of (rb_block s) sid = slot) \<and>
     (\<forall>t. linked_pc (rb_block s) (rb_pc s t)) \<and>
     length (rb_claims s) = (if decoded (rb_block s) = DECODE_PENDING then 0 else 1)"

lemma rgoto_sel [simp]:
  "rb_block (rgoto t p s) = rb_block s" "rb_pc (rgoto t p s) = (rb_pc s)(t := p)"
  "rb_wins (rgoto t p s) = rb_wins s" "rb_claims (rgoto t p s) = rb_claims s"
  by (simp_all add: rgoto_def)

lemma race_invD:
  assumes "race_inv s"
  shows "length (present_mask (rb_block s)) = 4" "length (slot_idx (rb_block s)) = 255"
    and "is_present (rb_block s) sid \<longleftrightarrow>
        sid \<in> fst ` set (rb_wins s) \<or> (\<exists>t. sid \<in> pending (rb_pc s t))"
    and "t \<noteq> u \<Longrightarrow> pending (rb_pc s t) \<inter> pending (rb_pc s u) = {}"
    and "pending (rb_pc s t) \<inter> fst ` set (rb_wins s) = {}"
    and "distinct (map fst (rb_wins s))"
    and "seen (rb_block s) = of_nat (length (rb_wins s))"
    and "(sid, slot) \<in> set (rb_wins s) \<Longrightarrow> slot_of (rb_block s) sid = slot"
    and "linked_pc (rb_block s) (rb_pc s t)"
    and "length (rb_claims s) = (if decoded (rb_block s) = DECODE_PENDING then 0 else 1)"
  using assms by (simp_all add: race_inv_def split: prod.splits)

lemma race_invI:
  assumes "length (present_mask (rb_block s)) = 4" "length (slot_idx (rb_block s)) = 255"
    and "\<And>sid. is_present (rb_block s) sid \<longleftrightarrow>
        sid \<in> fst ` set (rb_wins s) \<or> (\<exists>t. sid \<in> pending (rb_pc s t))"
    and "\<And>t u. t \<noteq> u \<Longrightarrow> pending (rb_pc s t) \<inter> pending (rb_pc s u) = {}"
    and "\<And>t. pending (rb_pc s t) \<inter> fst ` set (rb_wins s) = {}"
    and "distinct (map fst (rb_wins s))"
    and "seen (rb_block s) = of_nat (length (rb_wins s))"
    and "\<And>sid slot. (sid, slot) \<in> set (rb_wins s) \<Longrightarrow> slot_of (rb_block s) sid = slot"
    and "\<And>t. linked_pc (rb_block s) (rb_pc s t)"
    and "length (rb_claims s) = (if decoded (rb_block s) = DECODE_PENDING then 0 else 1)"
  shows "race_inv s"
  unfolding race_inv_def using assms(8) by (intro conjI allI impI assms; auto)

section \<open>Every step keeps the invariant\<close>

lemma ex_upd: "(\<exists>u. P ((f(t := p)) u)) \<longleftrightarrow> P p \<or> (\<exists>u. u \<noteq> t \<and> P (f u))"
  by (metis fun_upd_apply)

lemma linked_pc_cong [simp]:
  "linked_pc (e\<lparr>present_mask := m\<rparr>) p = linked_pc e p" "linked_pc (e\<lparr>seen := n\<rparr>) p = linked_pc e p"
  "linked_pc (e\<lparr>decoded := d\<rparr>) p = linked_pc e p"
  by (cases p; simp)+

lemma race_inv_goto:
  assumes "race_inv s" and "pending (rb_pc s t) = {}" and "pending p = {}" and "linked_pc (rb_block s) p"
  shows "race_inv (rgoto t p s)"
proof -
  have "pending (((rb_pc s)(t := p)) u) = pending (rb_pc s u)" for u using assms(2,3) by simp
  moreover have "linked_pc (rb_block s) (((rb_pc s)(t := p)) u)" for u
    using assms(4) race_invD(9) [OF assms(1)] by simp
  ultimately show ?thesis
    using assms(1) by (simp add: race_inv_def del: fun_upd_apply)
qed

lemma race_inv_win:
  assumes inv: "race_inv s" and pc: "rb_pc s t = RLoop sid slot old" and b: "\<not> old AND sym_bit sid \<noteq> 0"
    and old: "present_mask (rb_block s) ! sym_word sid = old"
  shows "race_inv (rgoto t (RWriteIdx sid slot)
       (s\<lparr>rb_block := (rb_block s)\<lparr>present_mask := (present_mask (rb_block s))[sym_word sid := old OR sym_bit sid]\<rparr>\<rparr>))"
proof -
  define e' where "e' = (rb_block s)\<lparr>present_mask := (present_mask (rb_block s))[sym_word sid := old OR sym_bit sid]\<rparr>"
  have sid: "sid < MAX_N" using race_invD(9) [OF inv, of t] pc by simp
  have pres: "is_present e' x \<longleftrightarrow> is_present (rb_block s) x \<or> x = sid" for x
    using is_present_set [OF race_invD(1) [OF inv] sid] old by (simp add: e'_def)
  have new: "\<not> is_present (rb_block s) sid" using b old by (simp add: is_present_def)
  have fresh: "sid \<notin> fst ` set (rb_wins s)" "sid \<notin> pending (rb_pc s u)" for u
    using new race_invD(3) [OF inv, of sid] by blast+
  have same: "slot_of e' x = slot_of (rb_block s) x" "linked_pc e' p = linked_pc (rb_block s) p"
    "seen e' = seen (rb_block s)" "decoded e' = decoded (rb_block s)"
    "slot_idx e' = slot_idx (rb_block s)" "length (present_mask e') = length (present_mask (rb_block s))" for x p
    by (simp_all add: e'_def)
  show ?thesis
    unfolding e'_def [symmetric]
  proof (rule race_invI, goal_cases)
    case (3 x)
    have "x \<in> pending (rb_pc s u) \<Longrightarrow> u \<noteq> t" for u using pc by auto
    then show ?case
      using race_invD(3) [OF inv, of x] by (simp add: pres ex_upd [of "\<lambda>p. x \<in> pending p"] del: fun_upd_apply) blast
  next
    case (4 v w)
    then show ?case using race_invD(4) [OF inv, of v w] fresh by simp
  next
    case (5 v)
    then show ?case using race_invD(5) [OF inv, of v] fresh by simp
  next
    case (9 v)
    then show ?case using race_invD(9) [OF inv, of v] sid by (simp add: same)
  qed (use race_invD(1,2,6,7,8,10) [OF inv] in \<open>simp_all add: same\<close>)
qed

lemma race_inv_link:
  assumes inv: "race_inv s" and pc: "rb_pc s t = RWriteIdx sid slot"
  shows "race_inv (rgoto t (RAdd sid slot)
       (s\<lparr>rb_block := (rb_block s)\<lparr>slot_idx := (slot_idx (rb_block s))[unat sid := slot]\<rparr>\<rparr>))"
proof -
  define e' where "e' = (rb_block s)\<lparr>slot_idx := (slot_idx (rb_block s))[unat sid := slot]\<rparr>"
  have sid: "sid < MAX_N" using race_invD(9) [OF inv, of t] pc by simp
  have slot: "slot_of e' x = (if x = sid then slot else slot_of (rb_block s) x)" for x
    using slot_of_set [OF race_invD(2) [OF inv] sid] by (simp add: e'_def)
  have fresh: "sid \<notin> fst ` set (rb_wins s)" using race_invD(5) [OF inv, of t] pc by simp
  have same_pending: "pending (((rb_pc s)(t := RAdd sid slot)) u) = pending (rb_pc s u)" for u using pc by simp
  have linked: "linked_pc e' (((rb_pc s)(t := RAdd sid slot)) u)" for u
    using race_invD(4) [OF inv, of t u] race_invD(9) [OF inv, of u] pc sid
    by (cases "rb_pc s u") (auto simp: slot)
  show ?thesis
    unfolding e'_def [symmetric]
  proof (rule race_invI, goal_cases)
    case (3 x)
    then show ?case using race_invD(3) [OF inv, of x] by (simp add: same_pending e'_def del: fun_upd_apply)
  next
    case (8 x y)
    then have "x \<noteq> sid" using fresh by force
    with 8 race_invD(8) [OF inv, of x y] show ?case by (simp add: slot)
  qed (use race_invD(1,2,4,5,6,7,10) [OF inv] linked in \<open>simp_all add: same_pending e'_def del: fun_upd_apply\<close>)
qed

lemma race_inv_count:
  assumes inv: "race_inv s" and pc: "rb_pc s t = RAdd sid slot"
  shows "race_inv (rgoto t RIdle
       (s\<lparr>rb_block := (rb_block s)\<lparr>seen := seen (rb_block s) + 1\<rparr>, rb_wins := (sid, slot) # rb_wins s\<rparr>))"
proof (rule race_invI, goal_cases)
  case (3 x)
  have "(\<exists>u. x \<in> pending (rb_pc s u)) \<longleftrightarrow> x = sid \<or> (\<exists>u. u \<noteq> t \<and> x \<in> pending (rb_pc s u))"
    using pc by (metis insertE emptyE insertI1 pending.simps(2))
  with race_invD(3) [OF inv, of x] show ?case
    by (simp add: ex_upd [of "\<lambda>p. x \<in> pending p"] del: fun_upd_apply) (simp only: disj_ac)
next
  case (4 v w)
  then show ?case using race_invD(4) [OF inv, of v w] by simp
next
  case (5 v)
  then show ?case using race_invD(5) [OF inv, of v] race_invD(4) [OF inv, of t v] pc by auto
next
  case 6
  then show ?case using race_invD(5) [OF inv, of t] race_invD(6) [OF inv] pc by simp
next
  case (8 x y)
  then show ?case using race_invD(8) [OF inv, of x y] race_invD(9) [OF inv, of t] pc by auto
next
  case (9 v)
  then show ?case using race_invD(9) [OF inv, of v] by simp
qed (use race_invD(1,2,7,10) [OF inv] in \<open>simp_all add: add.commute\<close>)

lemma race_inv_claim:
  assumes inv: "race_inv s" and c: "try_claim_decode (rb_block s) = (True, e)"
  shows "race_inv (s\<lparr>rb_block := e, rb_claims := t # rb_claims s\<rparr>)"
proof -
  have "decoded (rb_block s) = DECODE_PENDING" and e: "e = (rb_block s)\<lparr>decoded := DECODE_CLAIMED\<rparr>"
    using c by (auto simp: try_claim_decode_def split: if_splits)
  then show ?thesis using inv by (simp add: race_inv_def decode_states)
qed

lemma race_step_inv: "race_step k s s' \<Longrightarrow> race_inv s \<Longrightarrow> race_inv s'"
proof (induction rule: race_step.induct)
  case (reg_cas_ok s t sid slot old)
  then show ?case by (intro race_inv_win)
next
  case (reg_write s t sid slot)
  then show ?case by (intro race_inv_link)
next
  case (reg_add s t sid slot)
  then show ?case by (intro race_inv_count)
next
  case (claim s t e)
  then show ?case by (intro race_inv_claim)
next
  case (reg_cas_fail s t sid slot old)
  then have "sid < MAX_N" using race_invD(9) [of s t] by simp
  with reg_cas_fail show ?case by (intro race_inv_goto) simp_all
qed (rule race_inv_goto; simp add: not_le)+

lemma race_reachable_inv: "race_reachable k s \<Longrightarrow> race_inv s"
proof (induction rule: race_reachable.induct)
  case start
  show ?case by (simp add: race_inv_def, simp add: zero_block_def DECODE_PENDING_def)
next
  case (step s s')
  then show ?case by (blast intro: race_step_inv)
qed

section \<open>Properties\<close>

lemma wins_bound:
  assumes "race_inv s"
  shows "length (rb_wins s) \<le> 255"
proof -
  have "sid < MAX_N" if "sid \<in> fst ` set (rb_wins s)" for sid
    using race_invD(3) [OF assms, of sid] that by (auto simp: is_present_def not_le)
  then have "unat ` set (map fst (rb_wins s)) \<subseteq> {..<255}" by (auto simp: MAX_N_less)
  then have "card (unat ` set (map fst (rb_wins s))) \<le> 255"
    by (metis card_lessThan card_mono finite_lessThan)
  moreover have "card (unat ` set (map fst (rb_wins s))) = length (rb_wins s)"
    using race_invD(6) [OF assms] distinct_card
    by (subst card_image) (force simp: inj_on_def dest: unsigned_word_eqI)+
  ultimately show ?thesis by simp
qed

text \<open>
  C18: racing receivers register each symbol once.  In every interleaving a symbol id is reported
  \<open>NewSymbol\<close> at most once, its link is the slot of the call that was, \<open>seen\<close> is the number of such calls,
  and at most one thread wins the decode claim.  When no registration is in progress the block's links
  are exactly the reported registrations.
\<close>

theorem registration_race_safe:
  assumes "race_reachable k s"
  shows "distinct (map fst (rb_wins s)) \<and>
     (\<forall>(sid, slot)\<in>set (rb_wins s). links (rb_block s) sid = Some slot) \<and>
     unat (seen (rb_block s)) = length (rb_wins s) \<and> length (rb_claims s) \<le> 1 \<and>
     ((\<forall>t. pending (rb_pc s t) = {}) \<longrightarrow> links (rb_block s) = map_of (rb_wins s))"
proof -
  note inv = race_reachable_inv [OF assms]
  note d = race_invD [OF inv]
  have linked: "links (rb_block s) sid = Some slot" if "(sid, slot) \<in> set (rb_wins s)" for sid slot
    using d(3) [of sid] d(8) [OF that] that by (force simp: links_def)
  have "unat (seen (rb_block s)) = length (rb_wins s)"
    using d(7) wins_bound [OF inv] by (simp add: unat_of_nat_small)
  moreover have "links (rb_block s) = map_of (rb_wins s)" if "\<forall>t. pending (rb_pc s t) = {}"
  proof
    fix sid show "links (rb_block s) sid = map_of (rb_wins s) sid"
    proof (cases "map_of (rb_wins s) sid")
      case None
      then have "sid \<notin> fst ` set (rb_wins s)" by (simp add: map_of_eq_None_iff)
      with None show ?thesis using d(3) [of sid] that by (simp add: links_def)
    next
      case (Some slot)
      then show ?thesis using linked map_of_SomeD by metis
    qed
  qed
  ultimately show ?thesis using d(6,10) linked by auto
qed

lemma reg_start:
  assumes "race_reachable k s" and "rb_pc s t = RIdle" and "sid < MAX_N"
    and "present_mask (rb_block s) ! sym_word sid AND sym_bit sid = 0"
  shows "race_reachable k (rgoto t (RWriteIdx sid slot)
       (s\<lparr>rb_block := (rb_block s)\<lparr>present_mask := (present_mask (rb_block s))[sym_word sid :=
            present_mask (rb_block s) ! sym_word sid OR sym_bit sid]\<rparr>\<rparr>))" (is "race_reachable k ?s2")
proof -
  let ?s1 = "rgoto t (RLoop sid slot (present_mask (rb_block s) ! sym_word sid)) s"
  have 1: "race_step k s ?s1" by (rule race_step.reg_load) (use assms in auto)
  have "race_step k ?s1 (rgoto t (RWriteIdx sid slot)
       (?s1\<lparr>rb_block := (rb_block ?s1)\<lparr>present_mask := (present_mask (rb_block ?s1))[sym_word sid :=
            present_mask (rb_block s) ! sym_word sid OR sym_bit sid]\<rparr>\<rparr>))"
    by (rule race_step.reg_cas_ok) (use assms in simp_all)
  then have 2: "race_step k ?s1 ?s2" by (simp add: rgoto_def)
  show ?thesis by (rule race_reachable.step [OF race_reachable.step [OF assms(1) 1] 2])
qed

text \<open>One registration, run to the end: symbol 0 linked to slot 5.\<close>

definition one_linked :: BlockEntry where
  "one_linked = zero_block\<lparr>present_mask := [1, 0, 0, 0], slot_idx := (replicate 255 0)[0 := 5], seen := 1\<rparr>"

lemma one_registered:
  "race_reachable 1 \<lparr>rb_block = one_linked, rb_pc = (\<lambda>_. RIdle), rb_wins = [(0, 5)], rb_claims = []\<rparr>"
proof -
  obtain s0 where s0: "s0 = \<lparr>rb_block = zero_block, rb_pc = (\<lambda>_. RIdle), rb_wins = [], rb_claims = []\<rparr>" by blast
  obtain s2 where s2: "s2 = rgoto 0 (RWriteIdx 0 5) (s0\<lparr>rb_block := (rb_block s0)\<lparr>present_mask :=
     (present_mask (rb_block s0))[sym_word 0 := present_mask (rb_block s0) ! sym_word 0 OR sym_bit 0]\<rparr>\<rparr>)" by blast
  obtain s3 where s3: "s3 = rgoto 0 (RAdd 0 5)
       (s2\<lparr>rb_block := (rb_block s2)\<lparr>slot_idx := (slot_idx (rb_block s2))[unat (0 :: u32) := 5]\<rparr>\<rparr>)" by blast
  obtain s4 where s4: "s4 = rgoto 0 RIdle
       (s3\<lparr>rb_block := (rb_block s3)\<lparr>seen := seen (rb_block s3) + 1\<rparr>, rb_wins := (0, 5) # rb_wins s3\<rparr>)" by blast
  have "race_reachable 1 s0" unfolding s0 by (rule race_reachable.start)
  then have "race_reachable 1 s2"
    unfolding s2 by (rule reg_start) (simp_all add: s0 MAX_N_def zero_block_def sym_word_def)
  then have "race_reachable 1 s3"
    by (rule race_reachable.step) (unfold s3, rule race_step.reg_write, simp add: s2)
  then have r: "race_reachable 1 s4"
    by (rule race_reachable.step) (unfold s4, rule race_step.reg_add, simp add: s3)
  have mask: "(replicate 4 (0 :: u64))[0 := 1] = [1, 0, 0, 0]" by (simp add: eval_nat_numeral)
  have "s4 = \<lparr>rb_block = one_linked, rb_pc = (\<lambda>_. RIdle), rb_wins = [(0, 5)], rb_claims = []\<rparr>"
    by (simp add: s4 s3 s2 s0 rgoto_def one_linked_def zero_block_def sym_word_def sym_bit_def fun_eq_iff mask)
  with r show ?thesis by simp
qed

theorem registration_race_safe_witness: "links one_linked = [0 \<mapsto> 5] \<and> unat (seen one_linked) = 1"
  using registration_race_safe [OF one_registered] by simp

text \<open>
  The presence bit is published before the link.  With k = 1 a receiver can win the decode claim
  while another one has set the bit of symbol 1 and not yet written its link: the symbol is present, its
  link still reads as slot 0 (left by the zeroing of the block table), although no call has registered
  slot 0 and the racing call is about to link slot 9.  \<open>decode_and_write_block\<close> gathers by the bits.
\<close>

theorem claim_sees_unpublished_link:
  "\<exists>s. race_reachable 1 s \<and> rb_claims s = [0] \<and> rb_wins s = [(0, 5)] \<and> rb_pc s 1 = RWriteIdx 1 9 \<and>
       links (rb_block s) 1 = Some 0"
proof -
  obtain s4 where s4: "s4 = \<lparr>rb_block = one_linked, rb_pc = (\<lambda>_. RIdle), rb_wins = [(0, 5)], rb_claims = []\<rparr>"
    by blast
  obtain s5 where s5: "s5 = rgoto 1 (RWriteIdx 1 9) (s4\<lparr>rb_block := (rb_block s4)\<lparr>present_mask :=
     (present_mask (rb_block s4))[sym_word 1 := present_mask (rb_block s4) ! sym_word 1 OR sym_bit 1]\<rparr>\<rparr>)" by blast
  obtain s6 where s6: "s6 = s5\<lparr>rb_block := (rb_block s5)\<lparr>decoded := DECODE_CLAIMED\<rparr>, rb_claims := 0 # rb_claims s5\<rparr>"
    by blast
  have "race_reachable 1 s4" unfolding s4 by (rule one_registered)
  then have "race_reachable 1 s5" unfolding s5
    by (rule reg_start) (simp_all add: s4 one_linked_def MAX_N_less sym_word_def sym_bit_def)
  then have r: "race_reachable 1 s6"
    by (rule race_reachable.step) (unfold s6, rule race_step.claim,
        simp_all add: s5 s4 one_linked_def zero_block_def try_claim_decode_def DECODE_PENDING_def)
  have "links (rb_block s6) 1 = Some 0"
    by (simp add: s6 s5 s4 one_linked_def links_def is_present_def slot_of_def sym_word_def
        sym_bit_def MAX_N_less not_le)
  with r show ?thesis by (intro exI [of _ s6]) (simp add: s6 s5 s4)
qed

end
