(* ===== verification/Sessions.thy ===== *)
theory Sessions
  imports BlockTable "HOL-Library.Multiset"
begin

text \<open>
  \<^verbatim>\<open>src/receiver/shm_manager.cpp\<close>: the session table and the per-session block tables, from
  \<open>find_session\<close> to \<open>block_entry\<close>.  A \<open>char[N]\<close> field is the C string it holds; a null \<open>const char*\<close> is
  None.  The session lock is free when an operation starts (it runs alone) and free again when it ends.
  The ownership invariant \<open>shm_inv\<close> says that every arena slot is either free or linked by exactly one
  symbol of one open session.
\<close>

section \<open>C strings\<close>

definition c_str :: "string \<Rightarrow> string" where
  "c_str s = takeWhile (\<lambda>c. c \<noteq> CHR 0x00) s"

definition strncmp_eq :: "string \<Rightarrow> string \<Rightarrow> nat \<Rightarrow> bool" where
  "strncmp_eq a b m \<longleftrightarrow> take m a = take m b"

section \<open>Operations\<close>

definition find_session :: "string \<Rightarrow> Segment \<Rightarrow> nat option" where
  "find_session session_id seg =
     find (\<lambda>i. se_state (session_table seg ! i) = SESSION_STATE_OPEN \<and>
               strncmp_eq (se_session_id (session_table seg ! i)) session_id 63) [0..<unat MAX_SESSIONS]"

definition find_empty :: "Segment \<Rightarrow> nat option" where
  "find_empty seg =
     find (\<lambda>i. \<not> se_state (session_table seg ! i) \<noteq> SESSION_STATE_EMPTY) [0..<unat MAX_SESSIONS]"

definition zero_blocks :: "nat \<Rightarrow> nat \<Rightarrow> (nat \<Rightarrow> BlockEntry) \<Rightarrow> nat \<Rightarrow> BlockEntry" where
  "zero_blocks base bytes bl = (\<lambda>a. if base \<le> a \<and> a < base + bytes then zero_block else bl a)"

definition claim_session ::
  "nat \<Rightarrow> string \<Rightarrow> u32 \<Rightarrow> u32 \<Rightarrow> u32 \<Rightarrow> u32 \<Rightarrow> u64 \<Rightarrow> string \<Rightarrow> Segment \<Rightarrow> Segment" where
  "claim_session i session_id k n symbol_bytes total_blocks file_size dest_path seg =
     (let off = block_table_region_offset (hdr seg) + of_nat i * per_session_stride;
          se = (session_table seg ! i)\<lparr>se_session_id := take 63 session_id,
             se_k := k, se_n := n, se_symbol_bytes := symbol_bytes, se_total_blocks := total_blocks,
             se_file_size := file_size, se_hash := replicate 32 0, se_dest_path := take 255 dest_path,
             se_block_table_offset := off, se_bitmap_offset := off + per_session_block_table_bytes,
             se_state := SESSION_STATE_OPEN\<rparr>
      in seg\<lparr>session_table := array_write (session_table seg) i se,
             blocks := zero_blocks (unat off) (unat (ucast total_blocks * sizeof_BlockEntry)) (blocks seg)\<rparr>)"

definition open_session ::
  "ShmManager \<Rightarrow> string \<Rightarrow> u32 \<Rightarrow> u32 \<Rightarrow> u32 \<Rightarrow> u32 \<Rightarrow> u64 \<Rightarrow> string \<Rightarrow> Segment \<Rightarrow> u32 option \<times> Segment" where
  "open_session mgr session_id k n symbol_bytes total_blocks file_size dest_path seg =
     (if \<not> header_ptr mgr \<or> \<not> session_table_ptr mgr then (None, seg)
      else if total_blocks > MAX_BLOCKS_PER_SESSION then (None, seg)
      else case find_session session_id seg of
        Some i \<Rightarrow> (Some (of_nat i), seg)
      | None \<Rightarrow>
          (case find_empty seg of
             None \<Rightarrow> (None, seg)
           | Some i \<Rightarrow>
               (Some (of_nat i), claim_session i session_id k n symbol_bytes total_blocks file_size dest_path seg)))"

definition set_state :: "nat \<Rightarrow> u32 \<Rightarrow> Segment \<Rightarrow> Segment" where
  "set_state i st seg =
     seg\<lparr>session_table := array_write (session_table seg) i ((session_table seg ! i)\<lparr>se_state := st\<rparr>)\<rparr>"

definition table_entry :: "nat \<Rightarrow> nat \<Rightarrow> nat" where
  "table_entry base b = base + b * unat sizeof_BlockEntry"

definition sweep_symbol :: "ShmManager \<Rightarrow> nat \<Rightarrow> u32 \<Rightarrow> Segment \<Rightarrow> Segment" where
  "sweep_symbol mgr a s seg =
     (let e = blocks seg a
      in if present_mask e ! sym_word s AND sym_bit s \<noteq> 0 then
           (let slot = slot_idx e ! unat s in if slot \<noteq> SLOT_IDX_FREE then free_slot mgr slot seg else seg)
         else seg)"

definition sweep_block :: "ShmManager \<Rightarrow> u32 \<Rightarrow> nat \<Rightarrow> nat \<Rightarrow> Segment \<Rightarrow> Segment" where
  "sweep_block mgr n base b seg = fold (\<lambda>s. sweep_symbol mgr (table_entry base b) (of_nat s)) [0..<unat n] seg"

definition free_links :: "u32 \<Rightarrow> BlockEntry \<Rightarrow> BlockEntry" where
  "free_links n e = e\<lparr>slot_idx := fold (\<lambda>s xs. array_write xs s SLOT_IDX_FREE) [0..<unat n] (slot_idx e)\<rparr>"

definition close_session :: "ShmManager \<Rightarrow> string option \<Rightarrow> Segment \<Rightarrow> bool \<times> Segment" where
  "close_session mgr session_id seg =
     (case session_id of None \<Rightarrow> (False, seg) | Some sid \<Rightarrow>
      if \<not> header_ptr mgr \<or> \<not> session_table_ptr mgr then (False, seg)
      else case find_session sid seg of
        None \<Rightarrow> (False, seg)
      | Some idx \<Rightarrow>
          let seg = set_state idx SESSION_STATE_CLOSING seg;
              se = session_table seg ! idx;
              n = (if se_n se \<le> MAX_N then se_n se else MAX_N);
              total_blocks = (if se_total_blocks se > MAX_BLOCKS_PER_SESSION then MAX_BLOCKS_PER_SESSION
                              else se_total_blocks se);
              table = unat (se_block_table_offset se);
              seg = fold (sweep_block mgr n table) [0..<unat total_blocks] seg;
              seg = seg\<lparr>blocks := zero_blocks table (unat (ucast total_blocks * sizeof_BlockEntry)) (blocks seg)\<rparr>;
              seg = seg\<lparr>blocks := fold (\<lambda>b bl. bl(table_entry table b := free_links n (bl (table_entry table b))))
                                     [0..<unat total_blocks] (blocks seg)\<rparr>
          in (True, set_state idx SESSION_STATE_EMPTY seg))"

definition block_entry :: "u32 \<Rightarrow> u32 \<Rightarrow> Segment \<Rightarrow> nat option" where
  "block_entry session_idx block_id seg =
     (if session_idx \<ge> MAX_SESSIONS then None
      else
        let se = session_table seg ! unat session_idx
        in if se_state se \<noteq> SESSION_STATE_OPEN then None
        else if block_id \<ge> se_total_blocks se then None
        else Some (table_entry (unat (se_block_table_offset se)) (unat block_id)))"

section \<open>Ownership of slots\<close>

text \<open>The slots the symbols of a block link, of a session's blocks, of all open sessions.\<close>

definition block_slots :: "BlockEntry \<Rightarrow> u32 list" where
  "block_slots e = filter (\<lambda>x. x \<noteq> kListEnd)
     (map (\<lambda>s. slot_of e (of_nat s)) (filter (\<lambda>s. is_present e (of_nat s)) [0..<255]))"

definition block_at :: "Segment \<Rightarrow> nat \<Rightarrow> nat \<Rightarrow> BlockEntry" where
  "block_at seg i b = blocks seg (table_entry (unat (se_block_table_offset (session_table seg ! i))) b)"

definition session_slots :: "Segment \<Rightarrow> nat \<Rightarrow> u32 list" where
  "session_slots seg i =
     (if se_state (session_table seg ! i) = SESSION_STATE_OPEN
      then concat (map (\<lambda>b. block_slots (block_at seg i b)) [0..<unat (se_total_blocks (session_table seg ! i))])
      else [])"

definition held_slots :: "Segment \<Rightarrow> u32 list" where
  "held_slots seg = concat (map (session_slots seg) [0..<8])"

definition region_ok :: "Segment \<Rightarrow> bool" where
  "region_ok seg \<longleftrightarrow> unat (block_table_region_offset (hdr seg)) < 2 ^ 32"

definition block_ok :: "u32 \<Rightarrow> BlockEntry \<Rightarrow> bool" where
  "block_ok n e \<longleftrightarrow> block_wf e \<and> (\<forall>s. is_present e s \<longrightarrow> s < n) \<and>
     (decoded e \<noteq> DECODE_COMPLETE \<longrightarrow> (\<forall>s. links e s \<noteq> Some kListEnd))"

definition session_ok :: "Segment \<Rightarrow> nat \<Rightarrow> bool" where
  "session_ok seg i \<longleftrightarrow>
     (let se = session_table seg ! i
      in se_state se = SESSION_STATE_EMPTY \<or>
         se_state se = SESSION_STATE_OPEN \<and>
         se_block_table_offset se = block_table_region_offset (hdr seg) + of_nat i * per_session_stride \<and>
         se_total_blocks se \<le> MAX_BLOCKS_PER_SESSION \<and>
         (\<forall>b<unat (se_total_blocks se). block_ok (se_n se) (block_at seg i b)))"

definition ids_unique :: "Segment \<Rightarrow> bool" where
  "ids_unique seg \<longleftrightarrow>
     (\<forall>i<8. \<forall>j<8. i \<noteq> j \<longrightarrow> se_state (session_table seg ! i) = SESSION_STATE_OPEN \<longrightarrow>
        se_state (session_table seg ! j) = SESSION_STATE_OPEN \<longrightarrow>
        \<not> strncmp_eq (se_session_id (session_table seg ! i)) (se_session_id (session_table seg ! j)) 63)"

text \<open>\<open>hand\<close> holds slots that an operation in progress has allocated or unlinked and not yet passed on.\<close>

definition shm_hand :: "ShmManager \<Rightarrow> Segment \<Rightarrow> u32 list \<Rightarrow> u32 list \<Rightarrow> bool" where
  "shm_hand mgr seg fl hand \<longleftrightarrow>
     attached mgr \<and> pool seg fl \<and> length (session_table seg) = 8 \<and> region_ok seg \<and> ids_unique seg \<and>
     (\<forall>i<8. session_ok seg i) \<and>
     distinct (held_slots seg @ fl @ hand) \<and> set (held_slots seg @ fl @ hand) = {x. x < slot_count (hdr seg)}"

definition shm_inv :: "ShmManager \<Rightarrow> Segment \<Rightarrow> u32 list \<Rightarrow> bool" where
  "shm_inv mgr seg fl \<longleftrightarrow> shm_hand mgr seg fl []"

section \<open>Addresses of block entries\<close>

lemma open_offset:
  assumes "session_ok seg i" and "region_ok seg" and "i < 8"
    and "se_state (session_table seg ! i) = SESSION_STATE_OPEN"
  shows "unat (se_block_table_offset (session_table seg ! i)) = unat (block_table_region_offset (hdr seg)) + i * 8717312"
proof -
  have off: "se_block_table_offset (session_table seg ! i) = block_table_region_offset (hdr seg) + of_nat i * 8717312"
    using assms by (auto simp: session_ok_def Let_def session_states)
  have "unat (of_nat i * 8717312 :: u64) = i * 8717312"
    using assms(3) unat_of_nat_small [of "i * 8717312", where 'a = 64] by (simp add: mult.commute)
  moreover have "unat (block_table_region_offset (hdr seg)) + i * 8717312 < 2 ^ 64"
    using assms(2,3) by (simp add: region_ok_def)
  ultimately show ?thesis by (simp add: off unat_add_lem [THEN iffD1])
qed

lemma open_total:
  "session_ok seg i \<Longrightarrow> se_state (session_table seg ! i) = SESSION_STATE_OPEN \<Longrightarrow>
   unat (se_total_blocks (session_table seg ! i)) \<le> 8192"
  by (auto simp: session_ok_def Let_def session_states MAX_BLOCKS_PER_SESSION_def word_le_nat_alt)

definition entry_addr :: "Segment \<Rightarrow> nat \<Rightarrow> nat \<Rightarrow> nat" where
  "entry_addr seg i b = unat (block_table_region_offset (hdr seg)) + i * 8717312 + b * 1064"

lemma entry_addr_inj:
  assumes "b < 8192" and "b' < 8192" and "entry_addr seg i b = entry_addr seg i' b'"
  shows "i = i' \<and> b = b'"
proof -
  have eq: "i * 8717312 + b * 1064 = i' * 8717312 + b' * 1064" using assms(3) by (simp add: entry_addr_def)
  have "b * 1064 < 8717312" "b' * 1064 < 8717312" using assms(1,2) by auto
  then have "i = i'" using arg_cong [OF eq, of "\<lambda>x. x div 8717312"] by simp
  with eq show ?thesis by simp
qed

lemma block_at_addr:
  assumes "session_ok seg i" and "region_ok seg" and "i < 8"
    and "se_state (session_table seg ! i) = SESSION_STATE_OPEN"
  shows "table_entry (unat (se_block_table_offset (session_table seg ! i))) b = entry_addr seg i b"
    and "block_at seg i b = blocks seg (entry_addr seg i b)"
  using open_offset [OF assms] by (simp_all add: block_at_def table_entry_def entry_addr_def)

section \<open>Slots as multisets\<close>

lemma mset_concat_update:
  assumes "i < n" and "\<And>j. j < n \<Longrightarrow> j \<noteq> i \<Longrightarrow> f' j = f j"
  shows "mset (concat (map f' [0..<n])) + mset (f i) = mset (concat (map f [0..<n])) + mset (f' i)"
  using assms
proof (induction n)
  case (Suc n)
  show ?case
  proof (cases "i = n")
    case True
    then have "concat (map f' [0..<n]) = concat (map f [0..<n])"
      using Suc.prems by (intro arg_cong [where f = concat] map_cong) auto
    with True show ?thesis by simp
  next
    case False
    then show ?thesis using Suc by (simp add: add.commute add.left_commute)
  qed
qed simp

lemma mset_trade:
  assumes "S' + B = S + E" and "H' + S = H + S'"
  shows "H' + B = H + (E :: 'a multiset)"
proof (rule multiset_eqI)
  fix x
  from arg_cong [OF assms(1), of "\<lambda>m. count m x"] arg_cong [OF assms(2), of "\<lambda>m. count m x"]
  show "count (H' + B) x = count (H + E) x" by simp
qed

lemma owned_iff:
  "distinct xs \<and> set xs = {x. x < c} \<longleftrightarrow> mset xs = mset_set {x :: u32. x < c}"
proof
  assume "distinct xs \<and> set xs = {x. x < c}"
  then show "mset xs = mset_set {x. x < c}" by (metis mset_set_set)
next
  assume eq: "mset xs = mset_set {x. x < c}"
  then have "set xs = {x. x < c}" by (metis finite finite_set_mset_mset_set set_mset_mset)
  moreover have "count (mset xs) x \<le> 1" for x by (simp add: eq count_mset_set')
  then have "distinct xs" by (simp add: distinct_count_atmost_1 le_Suc_eq count_eq_zero_iff)
  ultimately show "distinct xs \<and> set xs = {x. x < c}" by simp
qed

lemma block_slots_concat:
  "block_slots e = concat (map (\<lambda>s. if is_present e (of_nat s) \<and> slot_of e (of_nat s) \<noteq> kListEnd
                                    then [slot_of e (of_nat s)] else []) [0..<255])"
proof -
  have "filter (\<lambda>x. x \<noteq> kListEnd) (map g (filter P ss)) = concat (map (\<lambda>s. if P s \<and> g s \<noteq> kListEnd then [g s] else []) ss)"
    for g :: "nat \<Rightarrow> u32" and P ss by (induction ss) auto
  then show ?thesis by (simp add: block_slots_def)
qed

lemma block_slots_zero [simp]: "block_slots zero_block = []"
  by (simp add: block_slots_def)

lemma block_slots_decoded [simp]: "block_slots (e\<lparr>decoded := d\<rparr>) = block_slots e"
  by (simp add: block_slots_def)

lemma u32_of_nat_255: "s < 255 \<Longrightarrow> t < 255 \<Longrightarrow> (of_nat s :: u32) = of_nat t \<Longrightarrow> s = t"
  by (rule of_nat_word_inj [where 'a = 32]) auto

text \<open>Changing the link of one symbol changes the block's slots by that one.\<close>

lemma block_slots_change:
  assumes "s < MAX_N" and "\<And>t. t \<noteq> s \<Longrightarrow> links e' t = links e t"
  shows "mset (block_slots e') + mset (case links e s of Some x \<Rightarrow> if x = kListEnd then [] else [x] | None \<Rightarrow> [])
       = mset (block_slots e) + mset (case links e' s of Some x \<Rightarrow> if x = kListEnd then [] else [x] | None \<Rightarrow> [])"
proof -
  let ?f = "\<lambda>e s. case links e (of_nat s) of Some x \<Rightarrow> if x = kListEnd then [] else [x] | None \<Rightarrow> []"
  have slots: "block_slots e = concat (map (?f e) [0..<255])" for e
    unfolding block_slots_concat by (intro arg_cong [where f = concat] map_cong) (auto simp: links_def)
  have i: "unat s < 255" using assms(1) by (simp add: MAX_N_less)
  have "?f e' j = ?f e j" if "j < 255" "j \<noteq> unat s" for j
  proof -
    have "(of_nat j :: u32) \<noteq> s" using that i u32_of_nat_255 [of j "unat s"] by auto
    then show ?thesis by (simp add: assms(2))
  qed
  from mset_concat_update [OF i, of "?f e'" "?f e"] this show ?thesis by (simp add: slots)
qed

section \<open>One session or one block changes\<close>

lemma held_session_change:
  assumes "i < 8" and "\<And>j. j < 8 \<Longrightarrow> j \<noteq> i \<Longrightarrow> session_slots seg' j = session_slots seg j"
  shows "mset (held_slots seg') + mset (session_slots seg i) = mset (held_slots seg) + mset (session_slots seg' i)"
  unfolding held_slots_def using assms by (rule mset_concat_update)

lemma session_slots_cong:
  assumes "session_table seg' ! i = session_table seg ! i"
    and "\<And>b. b < unat (se_total_blocks (session_table seg ! i)) \<Longrightarrow> block_at seg' i b = block_at seg i b"
  shows "session_slots seg' i = session_slots seg i"
proof -
  have "map (\<lambda>b. block_slots (block_at seg' i b)) [0..<unat (se_total_blocks (session_table seg ! i))]
      = map (\<lambda>b. block_slots (block_at seg i b)) [0..<unat (se_total_blocks (session_table seg ! i))]"
    by (rule map_cong) (use assms(2) in auto)
  then show ?thesis unfolding session_slots_def assms(1) by (simp only:)
qed

lemma session_ok_cong:
  assumes "session_table seg' ! i = session_table seg ! i" and "block_table_region_offset (hdr seg') = block_table_region_offset (hdr seg)"
    and "\<And>b. b < unat (se_total_blocks (session_table seg ! i)) \<Longrightarrow> block_at seg' i b = block_at seg i b"
  shows "session_ok seg' i = session_ok seg i"
  using assms by (simp add: session_ok_def Let_def)

lemma shm_handD:
  assumes "shm_hand mgr seg fl hand"
  shows "attached mgr" "pool seg fl" "length (session_table seg) = 8" "region_ok seg" "ids_unique seg"
    and "i < 8 \<Longrightarrow> session_ok seg i"
    and "mset (held_slots seg) + mset fl + mset hand = mset_set {x. x < slot_count (hdr seg)}"
  using assms owned_iff [of "held_slots seg @ fl @ hand" "slot_count (hdr seg)"]
  by (simp_all add: shm_hand_def add.assoc)

lemma shm_handI:
  assumes "attached mgr" "pool seg fl" "length (session_table seg) = 8" "region_ok seg" "ids_unique seg"
    and "\<And>i. i < 8 \<Longrightarrow> session_ok seg i"
    and "mset (held_slots seg) + mset fl + mset hand = mset_set {x. x < slot_count (hdr seg)}"
  shows "shm_hand mgr seg fl hand"
  using assms owned_iff [of "held_slots seg @ fl @ hand" "slot_count (hdr seg)"]
  by (simp add: shm_hand_def add.assoc)

lemma shm_invD:
  assumes "shm_inv mgr seg fl"
  shows "attached mgr" "pool seg fl" "length (session_table seg) = 8" "region_ok seg"
    and "i < 8 \<Longrightarrow> session_ok seg i"
    and "mset (held_slots seg) + mset fl = mset_set {x. x < slot_count (hdr seg)}"
    and "ids_unique seg"
  using assms shm_handD [of mgr seg fl "[]"] by (simp_all add: shm_inv_def)

lemma shm_invI:
  assumes "attached mgr" "pool seg fl" "length (session_table seg) = 8" "region_ok seg"
    and "\<And>i. i < 8 \<Longrightarrow> session_ok seg i"
    and "mset (held_slots seg) + mset fl = mset_set {x. x < slot_count (hdr seg)}"
    and "ids_unique seg"
  shows "shm_inv mgr seg fl"
  unfolding shm_inv_def using assms by (intro shm_handI) simp_all

lemma held_owned:
  assumes "shm_inv mgr seg fl"
  shows "distinct (held_slots seg)" "set (held_slots seg) \<inter> set fl = {}"
    and "x \<in> set (held_slots seg) \<Longrightarrow> x < slot_count (hdr seg)"
  using assms by (auto simp: shm_inv_def shm_hand_def)

lemma find_upt_Some: "find P [0..<m] = Some i \<Longrightarrow> i < m \<and> P i"
  by (auto simp: find_Some_iff)

lemma find_empty_Some:
  "find_empty seg = Some i \<Longrightarrow> i < 8 \<and> se_state (session_table seg ! i) = SESSION_STATE_EMPTY"
  unfolding find_empty_def by (drule find_upt_Some) (simp add: MAX_SESSIONS_def)

lemma find_session_Some:
  "find_session sid seg = Some i \<Longrightarrow> i < 8 \<and> se_state (session_table seg ! i) = SESSION_STATE_OPEN \<and>
     strncmp_eq (se_session_id (session_table seg ! i)) sid 63"
  unfolding find_session_def by (drule find_upt_Some) (simp add: MAX_SESSIONS_def)

lemma find_session_None:
  "find_session sid seg = None \<Longrightarrow> i < 8 \<Longrightarrow> se_state (session_table seg ! i) = SESSION_STATE_OPEN \<Longrightarrow>
   \<not> strncmp_eq (se_session_id (session_table seg ! i)) sid 63"
  by (auto simp: find_session_def find_None_iff MAX_SESSIONS_def)

section \<open>Opening a session keeps the invariant\<close>

lemma zero_blocks_other:
  "table_entry base b < base' \<or> base' + bytes \<le> table_entry base b \<Longrightarrow>
   zero_blocks base' bytes bl (table_entry base b) = bl (table_entry base b)"
  by (auto simp: zero_blocks_def)

lemma zero_blocks_same:
  "b < cnt \<Longrightarrow> zero_blocks base (cnt * 1064) bl (table_entry base b) = zero_block"
  by (simp add: zero_blocks_def table_entry_def)

lemma block_bytes [simp]: "unat (ucast tb * 1064 :: u64) = unat tb * 1064" for tb :: u32
proof -
  have "unat tb * 1064 < 2 ^ 64" using unat_lt_exp [of tb] by simp
  then show ?thesis using unat_of_nat_small [of "unat tb * 1064", where 'a = 64]
    by (simp add: unat_mult_lem [THEN iffD1] unsigned_ucast_eq)
qed

text \<open>Regions of different sessions are disjoint.\<close>

lemma other_region:
  assumes "shm_inv mgr seg fl" and "i < 8" and "j < 8" and "j \<noteq> i"
    and "se_state (session_table seg ! j) = SESSION_STATE_OPEN"
    and "b < unat (se_total_blocks (session_table seg ! j))"
    and "base = unat (block_table_region_offset (hdr seg)) + i * 8717312" and "bytes \<le> 8716288"
  shows "zero_blocks base bytes bl (table_entry (unat (se_block_table_offset (session_table seg ! j))) b)
       = bl (table_entry (unat (se_block_table_offset (session_table seg ! j))) b)"
proof (rule zero_blocks_other)
  have "b * 1064 < 8716288" using open_total [OF shm_invD(5) [OF assms(1,3)] assms(5)] assms(6) by simp
  then have "j * 8717312 + b * 1064 < i * 8717312 \<or> i * 8717312 + 8716288 \<le> j * 8717312 + b * 1064"
    using assms(4) by (cases i j rule: linorder_cases) auto
  then show "table_entry (unat (se_block_table_offset (session_table seg ! j))) b < base \<or>
        base + bytes \<le> table_entry (unat (se_block_table_offset (session_table seg ! j))) b"
    using open_offset [OF shm_invD(5) [OF assms(1,3)] shm_invD(4) [OF assms(1)] assms(3,5)] assms(7,8)
    by (auto simp: table_entry_def)
qed

lemma claim_session_offset:
  assumes "region_ok seg" and "i < 8"
  shows "unat (block_table_region_offset (hdr seg) + of_nat i * per_session_stride) =
    unat (block_table_region_offset (hdr seg)) + i * 8717312"
proof -
  have "unat (of_nat i * 8717312 :: u64) = i * 8717312"
    using assms(2) unat_of_nat_small [of "i * 8717312", where 'a = 64] by (simp add: mult.commute)
  then show ?thesis using assms by (simp add: region_ok_def unat_add_lem [THEN iffD1])
qed

lemma claim_session_other:
  assumes inv: "shm_inv mgr seg fl" and i: "i < 8" and tb: "\<not> total_blocks > MAX_BLOCKS_PER_SESSION"
    and j: "j < 8" "j \<noteq> i" "se_state (session_table seg ! j) = SESSION_STATE_OPEN"
       "b < unat (se_total_blocks (session_table seg ! j))"
  shows "block_at (claim_session i sid k n sb total_blocks fs dest seg) j b = block_at seg j b"
proof -
  have "unat total_blocks \<le> 8192" using tb by (simp add: MAX_BLOCKS_PER_SESSION_def word_le_nat_alt not_less)
  then show ?thesis
    using other_region [OF inv i j(1,2,3,4) refl, of "unat total_blocks * 1064"] j(2)
      claim_session_offset [OF shm_invD(4) [OF inv] i] shm_invD(3) [OF inv] i
    by (simp add: block_at_def claim_session_def Let_def)
qed

lemma claim_session_inv:
  assumes inv: "shm_inv mgr seg fl" and e: "find_empty seg = Some i" and new: "find_session sid seg = None"
    and tb: "\<not> total_blocks > MAX_BLOCKS_PER_SESSION"
  shows "shm_inv mgr (claim_session i sid k n sb total_blocks fs dest seg) fl"
proof -
  let ?seg = "claim_session i sid k n sb total_blocks fs dest seg"
  let ?off = "block_table_region_offset (hdr seg) + of_nat i * per_session_stride"
  note d = shm_invD [OF inv]
  have i: "i < 8" and empty: "se_state (session_table seg ! i) = SESSION_STATE_EMPTY"
    using find_empty_Some [OF e] by auto
  have tab: "session_table ?seg ! j = session_table seg ! j" if "j \<noteq> i" for j
    using that i d(3) by (simp add: claim_session_def Let_def)
  note same = claim_session_other [OF inv i tb]
  have tab_i: "se_state (session_table ?seg ! i) = SESSION_STATE_OPEN" "se_total_blocks (session_table ?seg ! i) = total_blocks"
    "se_block_table_offset (session_table ?seg ! i) = ?off"
    using i d(3) by (simp_all add: claim_session_def Let_def)
  have fresh: "block_at ?seg i b = zero_block" if "b < unat total_blocks" for b
    using zero_blocks_same [OF that] tab_i(3) by (simp add: block_at_def claim_session_def Let_def)
  have slots: "session_slots ?seg j = session_slots seg j" if "j < 8" "j \<noteq> i" for j
  proof (cases "se_state (session_table seg ! j) = SESSION_STATE_OPEN")
    case True
    then show ?thesis using that tab same by (intro session_slots_cong) auto
  qed (simp add: session_slots_def tab [OF that(2)])
  have none: "session_slots seg i = []" using empty by (simp add: session_slots_def session_states)
  have none': "session_slots ?seg i = []" using fresh by (simp add: session_slots_def tab_i)
  have held: "mset (held_slots ?seg) = mset (held_slots seg)"
    using held_session_change [OF i slots] by (simp add: none none')
  have hdr: "hdr ?seg = hdr seg" by (simp add: claim_session_def Let_def)
  have ok: "session_ok ?seg j" if "j < 8" for j
  proof (cases "j = i")
    case True
    then show ?thesis using fresh tb i d(3)
      by (auto simp: session_ok_def Let_def tab_i not_less block_ok_def hdr)
  next
    case False
    show ?thesis
    proof (cases "se_state (session_table seg ! j) = SESSION_STATE_OPEN")
      case True
      then show ?thesis using session_ok_cong [of ?seg j seg] d(5) [OF that] that False tab same
        by (simp add: claim_session_def Let_def)
    next
      case idle: False
      then show ?thesis using d(5) [OF that] by (simp add: session_ok_def Let_def tab [OF False])
    qed
  qed
  have "ids_unique ?seg"
    unfolding ids_unique_def
  proof (intro allI impI)
    fix j j' :: nat
    assume j: "j < 8" "j' < 8" "j \<noteq> j'" "se_state (session_table ?seg ! j) = SESSION_STATE_OPEN"
      "se_state (session_table ?seg ! j') = SESSION_STATE_OPEN"
    have id: "strncmp_eq (se_session_id (session_table ?seg ! i)) x 63 = strncmp_eq sid x 63" for x
      using i d(3) by (simp add: claim_session_def Let_def strncmp_eq_def)
    show "\<not> strncmp_eq (se_session_id (session_table ?seg ! j)) (se_session_id (session_table ?seg ! j')) 63"
      using j d(7) find_session_None [OF new, of j] find_session_None [OF new, of j'] tab [of j] tab [of j'] id
      by (cases "j = i"; cases "j' = i") (auto simp: ids_unique_def strncmp_eq_def)
  qed
  then show ?thesis
    using d ok held i by (intro shm_invI)
      (simp_all add: claim_session_def Let_def pool_def region_ok_def)
qed

lemma open_session_inv:
  assumes "shm_inv mgr seg fl"
  shows "shm_inv mgr (snd (open_session mgr sid k n sb tb fs dest seg)) fl"
  using assms claim_session_inv [OF assms]
  by (auto simp: open_session_def split: option.splits)

section \<open>Closing a session keeps the invariant\<close>

lemma free_slot_frame [simp]:
  "blocks (free_slot mgr x seg) = blocks seg" "session_table (free_slot mgr x seg) = session_table seg"
  "block_table_region_offset (hdr (free_slot mgr x seg)) = block_table_region_offset (hdr seg)"
  by (simp_all add: free_slot_def Let_def)

lemma fold_free_frame [simp]:
  "blocks (fold (free_slot mgr) xs seg) = blocks seg"
  "session_table (fold (free_slot mgr) xs seg) = session_table seg"
  "block_table_region_offset (hdr (fold (free_slot mgr) xs seg)) = block_table_region_offset (hdr seg)"
  "slot_count (hdr (fold (free_slot mgr) xs seg)) = slot_count (hdr seg)"
  by (induction xs arbitrary: seg) simp_all

text \<open>The sweep of a block releases exactly the slots the block links.\<close>

lemma sweep_symbols:
  assumes "\<forall>s\<in>set ss. s < 255"
  shows "fold (\<lambda>s. sweep_symbol mgr a (of_nat s)) ss seg =
    fold (free_slot mgr) (filter (\<lambda>x. x \<noteq> kListEnd) (map (\<lambda>s. slot_of (blocks seg a) (of_nat s))
       (filter (\<lambda>s. is_present (blocks seg a) (of_nat s)) ss))) seg"
  using assms
proof (induction ss arbitrary: seg)
  case (Cons s ss)
  have "(of_nat s :: u32) < MAX_N"
    using Cons.prems unat_of_nat_small [of s, where 'a = 32] by (simp add: MAX_N_less)
  then have one: "sweep_symbol mgr a (of_nat s) seg =
     (if is_present (blocks seg a) (of_nat s) \<and> slot_of (blocks seg a) (of_nat s) \<noteq> kListEnd
      then free_slot mgr (slot_of (blocks seg a) (of_nat s)) seg else seg)"
    by (simp add: sweep_symbol_def Let_def is_present_def slot_of_def not_le)
  have "blocks (sweep_symbol mgr a (of_nat s) seg) = blocks seg" by (simp add: one)
  with Cons.IH [of "sweep_symbol mgr a (of_nat s) seg"] Cons.prems show ?case by (simp add: one)
qed simp

lemma sweep_block_slots:
  assumes "block_ok n (blocks seg (table_entry base b))"
  shows "sweep_block mgr (if n \<le> MAX_N then n else MAX_N) base b seg =
         fold (free_slot mgr) (block_slots (blocks seg (table_entry base b))) seg"
proof -
  let ?e = "blocks seg (table_entry base b)" and ?n = "if n \<le> MAX_N then n else MAX_N"
  have le: "unat ?n \<le> 255" by (simp add: MAX_N_def word_le_nat_alt)
  have absent: "\<not> is_present ?e (of_nat s)" if "s \<in> {unat ?n..<255}" for s
  proof
    assume p: "is_present ?e (of_nat s)"
    then have "(of_nat s :: u32) < n" "(of_nat s :: u32) < MAX_N"
      using assms by (auto simp: block_ok_def is_present_def)
    moreover have "unat (of_nat s :: u32) = s" using that by (simp add: unat_of_nat_small)
    ultimately show False using that by (auto simp: word_less_nat_alt split: if_splits)
  qed
  have none: "filter (\<lambda>s. is_present ?e (of_nat s)) [unat ?n..<255] = []"
    by (simp add: filter_empty_conv absent)
  have "[0..<255] = [0..<unat ?n] @ [unat ?n..<255]" using le by (metis le_add_diff_inverse upt_add_eq_append zero_le)
  then have "filter (\<lambda>s. is_present ?e (of_nat s)) [0..<255] = filter (\<lambda>s. is_present ?e (of_nat s)) [0..<unat ?n]"
    by (simp only: filter_append none append_Nil2)
  then show ?thesis
    unfolding sweep_block_def block_slots_def using le by (subst sweep_symbols) auto
qed

lemma sweep_session_slots:
  assumes "\<forall>b\<in>set bs. block_ok n (blocks seg (table_entry base b))"
  shows "fold (sweep_block mgr (if n \<le> MAX_N then n else MAX_N) base) bs seg =
         fold (free_slot mgr) (concat (map (\<lambda>b. block_slots (blocks seg (table_entry base b))) bs)) seg"
  using assms
proof (induction bs arbitrary: seg)
  case (Cons b bs)
  let ?seg = "fold (free_slot mgr) (block_slots (blocks seg (table_entry base b))) seg"
  have "\<forall>b'\<in>set bs. block_ok n (blocks ?seg (table_entry base b'))" using Cons.prems by simp
  from Cons.IH [OF this] sweep_block_slots [of n seg base b mgr] Cons.prems show ?case by simp
qed simp

lemma fold_entries_other:
  assumes "\<forall>b\<in>set bs. a \<noteq> table_entry base b"
  shows "fold (\<lambda>b bl. bl(table_entry base b := f (bl (table_entry base b)))) bs bl a = bl a"
  using assms by (induction bs arbitrary: bl) auto

lemma set_state_frame [simp]:
  "hdr (set_state i st seg) = hdr seg" "blocks (set_state i st seg) = blocks seg"
  "arena (set_state i st seg) = arena seg" "pool (set_state i st seg) fl = pool seg fl"
  by (simp_all add: set_state_def pool_def)

lemma set_state_same [simp]:
  "i < length (session_table seg) \<Longrightarrow>
   session_table (set_state i st seg) ! i = (session_table seg ! i)\<lparr>se_state := st\<rparr>"
  "i < length (session_table seg) \<Longrightarrow> length (session_table (set_state i st seg)) = length (session_table seg)"
  "i < length (session_table seg) \<Longrightarrow> j \<noteq> i \<Longrightarrow> session_table (set_state i st seg) ! j = session_table seg ! j"
  by (simp_all add: set_state_def)

text \<open>The block entries after the sweep of entry i, and the whole of \<open>close_session\<close> on an open entry.\<close>

definition closed_blocks :: "Segment \<Rightarrow> nat \<Rightarrow> nat \<Rightarrow> BlockEntry" where
  "closed_blocks seg i =
     (let se = session_table seg ! i; n = (if se_n se \<le> MAX_N then se_n se else MAX_N); table = unat (se_block_table_offset se)
      in fold (\<lambda>b bl. bl(table_entry table b := free_links n (bl (table_entry table b))))
           [0..<unat (se_total_blocks se)] (zero_blocks table (unat (se_total_blocks se) * 1064) (blocks seg)))"

lemma close_session_sweeps:
  assumes att: "attached mgr" and tab: "length (session_table seg) = 8" and so: "session_ok seg i"
    and found: "find_session sid seg = Some i"
  shows "close_session mgr (Some sid) seg =
     (True, set_state i SESSION_STATE_EMPTY
        ((fold (free_slot mgr) (session_slots seg i) (set_state i SESSION_STATE_CLOSING seg))\<lparr>blocks := closed_blocks seg i\<rparr>))"
proof -
  have i: "i < 8" and op: "se_state (session_table seg ! i) = SESSION_STATE_OPEN"
    using find_session_Some [OF found] by auto
  have len: "i < length (session_table seg)" using i tab by simp
  let ?se = "session_table seg ! i" and ?seg1 = "set_state i SESSION_STATE_CLOSING seg"
  let ?n = "if se_n ?se \<le> MAX_N then se_n ?se else MAX_N" and ?table = "unat (se_block_table_offset ?se)"
  have ok: "block_ok (se_n ?se) (block_at seg i b)" if "b < unat (se_total_blocks ?se)" for b
    using so op that by (auto simp: session_ok_def Let_def session_states)
  have tb: "\<not> se_total_blocks ?se > MAX_BLOCKS_PER_SESSION" "unat (se_total_blocks ?se) \<le> 8192"
    using open_total [OF so op] by (simp_all add: MAX_BLOCKS_PER_SESSION_def word_le_nat_alt not_less)
  have "fold (sweep_block mgr ?n ?table) [0..<unat (se_total_blocks ?se)] ?seg1 =
        fold (free_slot mgr) (concat (map (\<lambda>b. block_slots (blocks ?seg1 (table_entry ?table b)))
           [0..<unat (se_total_blocks ?se)])) ?seg1"
    by (rule sweep_session_slots) (use ok in \<open>simp add: block_at_def\<close>)
  also have "\<dots> = fold (free_slot mgr) (session_slots seg i) ?seg1"
    by (simp add: session_slots_def op block_at_def)
  finally have swept: "fold (sweep_block mgr ?n ?table) [0..<unat (se_total_blocks ?se)] ?seg1 =
        fold (free_slot mgr) (session_slots seg i) ?seg1" .
  show ?thesis
    using att tb(1) len
    by (simp add: close_session_def found attached_def Let_def swept closed_blocks_def not_le [symmetric] cong: if_cong)
qed

text \<open>What \<open>close_session\<close> leaves: the swept slots released, entries outside the session's table untouched.\<close>

lemma close_session_found:
  assumes inv: "shm_inv mgr seg fl" and found: "find_session sid seg = Some i"
  obtains bl where
    "close_session mgr (Some sid) seg =
       (True, set_state i SESSION_STATE_EMPTY
          ((fold (free_slot mgr) (session_slots seg i) (set_state i SESSION_STATE_CLOSING seg))\<lparr>blocks := bl\<rparr>))"
    and "\<And>j b. j < 8 \<Longrightarrow> j \<noteq> i \<Longrightarrow> se_state (session_table seg ! j) = SESSION_STATE_OPEN \<Longrightarrow>
       b < unat (se_total_blocks (session_table seg ! j)) \<Longrightarrow>
       bl (table_entry (unat (se_block_table_offset (session_table seg ! j))) b) = block_at seg j b"
proof -
  note d = shm_invD [OF inv]
  have i: "i < 8" and op: "se_state (session_table seg ! i) = SESSION_STATE_OPEN"
    using find_session_Some [OF found] by auto
  have len: "i < length (session_table seg)" using i d(3) by simp
  let ?se = "session_table seg ! i" and ?bl = "closed_blocks seg i"
  let ?table = "unat (se_block_table_offset ?se)"
  have tb: "unat (se_total_blocks ?se) \<le> 8192" using open_total [OF d(5) [OF i] op] by simp
  have table: "?table = unat (block_table_region_offset (hdr seg)) + i * 8717312"
    by (rule open_offset [OF d(5) [OF i] d(4) i op])
  note close_session_sweeps [OF d(1,3) d(5) [OF i] found]
  moreover have "?bl (table_entry (unat (se_block_table_offset (session_table seg ! j))) b) = block_at seg j b"
    if j: "j < 8" "j \<noteq> i" "se_state (session_table seg ! j) = SESSION_STATE_OPEN"
          "b < unat (se_total_blocks (session_table seg ! j))" for j b
  proof -
    have "\<forall>b'\<in>set [0..<unat (se_total_blocks ?se)].
        table_entry (unat (se_block_table_offset (session_table seg ! j))) b \<noteq> table_entry ?table b'"
    proof
      fix b' assume "b' \<in> set [0..<unat (se_total_blocks ?se)]"
      then have "b' < 8192" "b < 8192" using tb open_total [OF d(5) [OF j(1)] j(3)] j(4) by simp_all
      then show "table_entry (unat (se_block_table_offset (session_table seg ! j))) b \<noteq> table_entry ?table b'"
        using entry_addr_inj [of b b' seg j i] j(2)
        unfolding block_at_addr(1) [OF d(5) [OF i] d(4) i op] block_at_addr(1) [OF d(5) [OF j(1)] d(4) j(1,3)]
        by blast
    qed
    then show ?thesis
      using other_region [OF inv i j table, of "unat (se_total_blocks ?se) * 1064"] tb
      by (simp add: closed_blocks_def Let_def fold_entries_other block_at_def)
  qed
  ultimately show ?thesis by (rule that)
qed

lemma close_session_inv:
  assumes inv: "shm_inv mgr seg fl" and found: "find_session sid seg = Some i"
  shows "fst (close_session mgr (Some sid) seg)"
    and "shm_inv mgr (snd (close_session mgr (Some sid) seg)) (rev (session_slots seg i) @ fl)"
    and "se_state (session_table (snd (close_session mgr (Some sid) seg)) ! i) = SESSION_STATE_EMPTY"
proof -
  note d = shm_invD [OF inv]
  have i: "i < 8" and op: "se_state (session_table seg ! i) = SESSION_STATE_OPEN"
    using find_session_Some [OF found] by auto
  have len: "i < length (session_table seg)" using i d(3) by simp
  obtain bl where cl: "close_session mgr (Some sid) seg =
       (True, set_state i SESSION_STATE_EMPTY
          ((fold (free_slot mgr) (session_slots seg i) (set_state i SESSION_STATE_CLOSING seg))\<lparr>blocks := bl\<rparr>))"
    and bl: "\<And>j b. j < 8 \<Longrightarrow> j \<noteq> i \<Longrightarrow> se_state (session_table seg ! j) = SESSION_STATE_OPEN \<Longrightarrow>
       b < unat (se_total_blocks (session_table seg ! j)) \<Longrightarrow>
       bl (table_entry (unat (se_block_table_offset (session_table seg ! j))) b) = block_at seg j b"
    by (rule close_session_found [OF inv found]) blast
  define seg' where "seg' = snd (close_session mgr (Some sid) seg)"
  have tab: "session_table seg' ! j = session_table seg ! j" if "j \<noteq> i" for j
    using that len by (simp add: seg'_def cl)
  have tab_i: "se_state (session_table seg' ! i) = SESSION_STATE_EMPTY"
    using len by (simp add: seg'_def cl set_state_def)
  have at: "block_at seg' j b = block_at seg j b"
    if "j < 8" "j \<noteq> i" "se_state (session_table seg ! j) = SESSION_STATE_OPEN"
       "b < unat (se_total_blocks (session_table seg ! j))" for j b
    using bl [OF that] unfolding block_at_def [of seg'] tab [OF that(2)] by (simp add: seg'_def cl)
  have hdr: "block_table_region_offset (hdr seg') = block_table_region_offset (hdr seg)"
    "slot_count (hdr seg') = slot_count (hdr seg)" by (simp_all add: seg'_def cl)
  have slots: "session_slots seg' j = session_slots seg j" if "j < 8" "j \<noteq> i" for j
  proof (cases "se_state (session_table seg ! j) = SESSION_STATE_OPEN")
    case True
    then show ?thesis using that tab at by (intro session_slots_cong) auto
  qed (simp add: session_slots_def tab [OF that(2)])
  have none: "session_slots seg' i = []" by (simp add: session_slots_def tab_i session_states)
  have held: "mset (held_slots seg') + mset (session_slots seg i) = mset (held_slots seg)"
    using held_session_change [OF i slots] by (simp add: none)
  have sub: "set (session_slots seg i) \<subseteq> set (held_slots seg)"
    using i by (auto simp: held_slots_def)
  have dist: "distinct (session_slots seg i)"
    using held_owned(1) [OF inv] i by (simp add: held_slots_def distinct_concat_iff)
  have "pool (fold (free_slot mgr) (session_slots seg i) (set_state i SESSION_STATE_CLOSING seg)) (rev (session_slots seg i) @ fl)"
    using arena_pool.release_all [of mgr "set_state i SESSION_STATE_CLOSING seg" fl "session_slots seg i"]
      d(1,2) dist sub held_owned(2,3) [OF inv] by auto
  then have pool: "pool seg' (rev (session_slots seg i) @ fl)"
    by (simp add: seg'_def cl pool_def)
  have ok: "session_ok seg' j" if "j < 8" for j
  proof (cases "j = i")
    case True
    then show ?thesis using tab_i by (simp add: session_ok_def Let_def)
  next
    case False
    show ?thesis
    proof (cases "se_state (session_table seg ! j) = SESSION_STATE_OPEN")
      case True
      then show ?thesis using session_ok_cong [of seg' j seg] d(5) [OF that] that False tab at hdr by simp
    next
      case idle: False
      then show ?thesis using d(5) [OF that] by (simp add: session_ok_def Let_def tab [OF False])
    qed
  qed
  have "length (session_table seg') = 8" using d(3) len by (simp add: seg'_def cl)
  moreover have "mset (held_slots seg') + mset (rev (session_slots seg i) @ fl) = mset_set {x. x < slot_count (hdr seg')}"
  proof -
    have "mset (held_slots seg') + mset (rev (session_slots seg i) @ fl)
        = (mset (held_slots seg') + mset (session_slots seg i)) + mset fl" by (simp add: ac_simps)
    then show ?thesis unfolding held using d(6) hdr(2) by simp
  qed
  moreover have "ids_unique seg'"
    unfolding ids_unique_def
  proof (intro allI impI)
    fix j j' :: nat
    assume j: "j < 8" "j' < 8" "j \<noteq> j'" "se_state (session_table seg' ! j) = SESSION_STATE_OPEN"
      "se_state (session_table seg' ! j') = SESSION_STATE_OPEN"
    then have "j \<noteq> i" "j' \<noteq> i" using tab_i by (auto simp: session_states)
    with j show "\<not> strncmp_eq (se_session_id (session_table seg' ! j)) (se_session_id (session_table seg' ! j')) 63"
      using d(7) by (simp add: ids_unique_def tab)
  qed
  ultimately show "shm_inv mgr (snd (close_session mgr (Some sid) seg)) (rev (session_slots seg i) @ fl)"
    unfolding seg'_def [symmetric] using d(1,4) pool ok hdr by (intro shm_invI) (simp_all add: region_ok_def)
  show "fst (close_session mgr (Some sid) seg)" by (simp add: cl)
  show "se_state (session_table (snd (close_session mgr (Some sid) seg)) ! i) = SESSION_STATE_EMPTY"
    using tab_i by (simp add: seg'_def)
qed

lemma close_session_gone:
  assumes inv: "shm_inv mgr seg fl" and found: "find_session sid seg = Some i"
  shows "find_session sid (snd (close_session mgr (Some sid) seg)) = None"
proof (rule ccontr)
  assume "find_session sid (snd (close_session mgr (Some sid) seg)) \<noteq> None"
  then obtain j where j: "find_session sid (snd (close_session mgr (Some sid) seg)) = Some j" by blast
  note fj = find_session_Some [OF j] and fi = find_session_Some [OF found]
  have "j \<noteq> i" using fj close_session_inv(3) [OF inv found] by (auto simp: session_states)
  obtain bl where cl: "close_session mgr (Some sid) seg =
       (True, set_state i SESSION_STATE_EMPTY
          ((fold (free_slot mgr) (session_slots seg i) (set_state i SESSION_STATE_CLOSING seg))\<lparr>blocks := bl\<rparr>))"
    by (rule close_session_found [OF inv found]) blast
  have "session_table (snd (close_session mgr (Some sid) seg)) ! j = session_table seg ! j"
    using \<open>j \<noteq> i\<close> fi(1) shm_invD(3) [OF inv] by (simp add: cl)
  moreover from this have "\<not> strncmp_eq (se_session_id (session_table seg ! i)) (se_session_id (session_table seg ! j)) 63"
    using fj fi \<open>j \<noteq> i\<close> shm_invD(7) [OF inv] by (simp add: ids_unique_def)
  ultimately show False using fj fi by (simp add: strncmp_eq_def)
qed

section \<open>Changing one block\<close>

lemma block_entry_Some:
  assumes "shm_hand mgr seg fl hand" and "block_entry sidx bid seg = Some a"
  shows "unat sidx < 8" and "se_state (session_table seg ! unat sidx) = SESSION_STATE_OPEN"
    and "unat bid < unat (se_total_blocks (session_table seg ! unat sidx))"
    and "a = table_entry (unat (se_block_table_offset (session_table seg ! unat sidx))) (unat bid)"
    and "blocks seg a = block_at seg (unat sidx) (unat bid)"
    and "block_ok (se_n (session_table seg ! unat sidx)) (blocks seg a)"
proof -
  show i: "unat sidx < 8" and op: "se_state (session_table seg ! unat sidx) = SESSION_STATE_OPEN"
    and b: "unat bid < unat (se_total_blocks (session_table seg ! unat sidx))"
    and a: "a = table_entry (unat (se_block_table_offset (session_table seg ! unat sidx))) (unat bid)"
    using assms(2) by (auto simp: block_entry_def Let_def MAX_SESSIONS_def word_le_nat_alt word_less_nat_alt not_le
        split: if_splits)
  show at: "blocks seg a = block_at seg (unat sidx) (unat bid)" by (simp add: block_at_def a)
  show "block_ok (se_n (session_table seg ! unat sidx)) (blocks seg a)"
    using shm_handD(6) [OF assms(1) i] op b unfolding at by (auto simp: session_ok_def Let_def session_states)
qed

lemma hand_block_change:
  assumes inv: "shm_hand mgr seg fl hand" and be: "block_entry sidx bid seg = Some a"
    and ok: "block_ok (se_n (session_table seg ! unat sidx)) e'"
    and bal: "mset hand' + mset (block_slots e') = mset hand + mset (block_slots (blocks seg a))"
  shows "shm_hand mgr (seg\<lparr>blocks := (blocks seg)(a := e')\<rparr>) fl hand'"
proof -
  note d = shm_handD [OF inv] and be = block_entry_Some [OF inv be]
  let ?i = "unat sidx" and ?b = "unat bid" and ?seg = "seg\<lparr>blocks := (blocks seg)(a := e')\<rparr>"
  have at: "block_at ?seg j b = (if j = ?i \<and> b = ?b then e' else block_at seg j b)"
    if "j < 8" "se_state (session_table seg ! j) = SESSION_STATE_OPEN"
       "b < unat (se_total_blocks (session_table seg ! j))" for j b
  proof -
    have "b < 8192" "?b < 8192"
      using open_total [OF d(6) [OF that(1)] that(2)] that(3) open_total [OF d(6) [OF be(1)] be(2)] be(3) by auto
    then have "table_entry (unat (se_block_table_offset (session_table seg ! j))) b = a \<longleftrightarrow> j = ?i \<and> b = ?b"
      unfolding be(4) block_at_addr(1) [OF d(6) [OF that(1)] d(4) that(1,2)]
        block_at_addr(1) [OF d(6) [OF be(1)] d(4) be(1,2)]
      using entry_addr_inj [of b ?b seg j ?i] by auto
    then show ?thesis by (simp add: block_at_def)
  qed
  have slots: "session_slots ?seg j = session_slots seg j" if "j < 8" "j \<noteq> ?i" for j
  proof (cases "se_state (session_table seg ! j) = SESSION_STATE_OPEN")
    case True
    then show ?thesis using that at by (intro session_slots_cong) auto
  qed (simp add: session_slots_def)
  have "mset (session_slots ?seg ?i) + mset (block_slots (blocks seg a)) =
        mset (session_slots seg ?i) + mset (block_slots e')"
    using mset_concat_update [OF be(3), of "\<lambda>b. block_slots (block_at ?seg ?i b)" "\<lambda>b. block_slots (block_at seg ?i b)"]
      at [OF be(1,2)] be(3) by (simp add: session_slots_def be(2) be(5) [symmetric])
  moreover have "mset (held_slots ?seg) + mset (session_slots seg ?i) = mset (held_slots seg) + mset (session_slots ?seg ?i)"
    by (rule held_session_change [OF be(1) slots])
  ultimately have "mset (held_slots ?seg) + mset (block_slots (blocks seg a)) = mset (held_slots seg) + mset (block_slots e')"
    by (rule mset_trade)
  from mset_trade [OF _ this, of "mset hand'" "mset hand"] bal
  have "mset (held_slots ?seg) + mset hand' = mset (held_slots seg) + mset hand" by (simp add: ac_simps)
  then have "mset (held_slots ?seg) + mset fl + mset hand' = mset_set {x. x < slot_count (hdr seg)}"
    using d(7) by (simp add: ac_simps)
  moreover have "session_ok ?seg j" if "j < 8" for j
    using d(6) [OF that] at [OF that] ok be(2) by (auto simp: session_ok_def Let_def session_states)
  ultimately show ?thesis
    using d by (intro shm_handI) (simp_all add: pool_def region_ok_def ids_unique_def)
qed

section \<open>Slots in the hand of an operation\<close>

lemma hand_frame:
  assumes "shm_hand mgr seg fl hand" and "pool seg' fl'"
    and "blocks seg' = blocks seg" "session_table seg' = session_table seg"
    and "block_table_region_offset (hdr seg') = block_table_region_offset (hdr seg)"
    and "slot_count (hdr seg') = slot_count (hdr seg)"
    and "mset fl' + mset hand' = mset fl + mset hand"
  shows "shm_hand mgr seg' fl' hand'"
proof -
  note d = shm_handD [OF assms(1)]
  have at: "block_at seg' = block_at seg" by (simp add: block_at_def fun_eq_iff assms(3,4))
  then have "session_slots seg' = session_slots seg" by (simp add: session_slots_def fun_eq_iff assms(4))
  then have "held_slots seg' = held_slots seg" by (simp add: held_slots_def)
  moreover have "session_ok seg' i" if "i < 8" for i
    using d(6) [OF that] by (simp add: session_ok_def assms(4,5) at)
  ultimately show ?thesis
    using d assms(2,4-7) by (intro shm_handI) (simp_all add: region_ok_def ids_unique_def add.assoc)
qed

lemma alloc_slot_frame [simp]:
  "blocks (snd (alloc_slot mgr seg)) = blocks seg" "session_table (snd (alloc_slot mgr seg)) = session_table seg"
  "block_table_region_offset (hdr (snd (alloc_slot mgr seg))) = block_table_region_offset (hdr seg)"
  by (simp_all add: alloc_slot_def note_alloc_def Let_def)

lemma write_slot_frame [simp]:
  "blocks (write_slot x bs seg) = blocks seg" "session_table (write_slot x bs seg) = session_table seg"
  "hdr (write_slot x bs seg) = hdr seg"
  by (simp_all add: write_slot_def)

lemma hand_distinct:
  assumes "shm_hand mgr seg fl hand"
  shows "distinct hand" "set hand \<inter> set fl = {}" "x \<in> set hand \<Longrightarrow> x < slot_count (hdr seg)"
    "distinct (held_slots seg)" "set hand \<inter> set (held_slots seg) = {}"
  using assms by (auto simp: shm_hand_def)

lemma hand_alloc:
  assumes "shm_inv mgr seg fl" and "fst (alloc_slot mgr seg) \<noteq> kListEnd"
  obtains fl' where "fl = fst (alloc_slot mgr seg) # fl'"
    and "shm_hand mgr (snd (alloc_slot mgr seg)) fl' [fst (alloc_slot mgr seg)]"
proof -
  have "attached mgr \<and> pool seg fl" using shm_invD [OF assms(1)] by simp
  then obtain fl' where fl': "fl = fst (alloc_slot mgr seg) # fl'" "pool (snd (alloc_slot mgr seg)) fl'"
    using arena_pool.alloc_cases [of mgr seg fl] assms(2) by auto
  have "shm_hand mgr seg fl []" using assms(1) by (simp add: shm_inv_def)
  from hand_frame [OF this fl'(2), of "[fst (alloc_slot mgr seg)]"] fl'(1)
  have "shm_hand mgr (snd (alloc_slot mgr seg)) fl' [fst (alloc_slot mgr seg)]"
    using arg_cong [OF fl'(1), of mset] by simp
  with fl'(1) show ?thesis by (rule that)
qed

lemma hand_alloc_fail:
  "shm_inv mgr seg fl \<Longrightarrow> fst (alloc_slot mgr seg) = kListEnd \<longleftrightarrow> fl = []"
  using arena_pool.alloc_end_iff [of mgr seg fl] shm_invD by blast

lemma hand_write:
  assumes "shm_hand mgr seg fl (x # hand)" and "length payload \<le> 1536"
  shows "shm_hand mgr (write_slot x payload seg) fl (x # hand)"
  by (rule hand_frame [OF assms(1)])
    (use pool_write_slot [OF shm_handD(2) [OF assms(1)] _ assms(2), of x] hand_distinct(2) [OF assms(1)] in simp_all)

lemma hand_free:
  assumes "shm_hand mgr seg fl (x # hand)"
  shows "shm_hand mgr (free_slot mgr x seg) (x # fl) hand"
  by (rule hand_frame [OF assms])
    (use free_slot_push [OF shm_handD(1,2) [OF assms], of x] hand_distinct(2,3) [OF assms] in simp_all)

section \<open>Properties\<close>

text \<open>
  Opening and closing sessions keep the ownership invariant.  From any state in which every arena
  slot is free or linked by exactly one symbol of one open session, \<open>open_session\<close> (fresh, idempotent or
  refused) and \<open>close_session\<close> (known or unknown id) lead to such a state again: the new session's block
  table overlaps no other session's, and no slot is leaked or freed twice.
\<close>

theorem session_lifecycle_keeps_ownership:
  assumes "shm_inv mgr seg fl"
  shows "shm_inv mgr (snd (open_session mgr sid k n sb tb fs dest seg)) fl \<and>
         (\<exists>fl'. shm_inv mgr (snd (close_session mgr cid seg)) fl')"
proof -
  have "\<exists>fl'. shm_inv mgr (snd (close_session mgr cid seg)) fl'"
  proof (cases "\<exists>sid i. cid = Some sid \<and> find_session sid seg = Some i")
    case True
    then show ?thesis using close_session_inv(2) [OF assms] by blast
  next
    case False
    then have "snd (close_session mgr cid seg) = seg"
      by (auto simp: close_session_def split: option.splits)
    with assms show ?thesis by auto
  qed
  with open_session_inv [OF assms] show ?thesis by blast
qed

definition fresh3 :: Segment where
  "fresh3 = init_free_list slots3"

lemma fresh3_idle [simp]: "i < 8 \<Longrightarrow> session_table fresh3 ! i = zero_session"
  by (simp only: fresh3_def init_free_list_def slots3_def Let_def Segment.simps zero_segment_def MAX_SESSIONS_def)
    (simp del: replicate.simps)

lemma fresh3_inv: "shm_inv attached_mgr fresh3 [0, 1, 2]"
proof (rule shm_invI)
  have idle: "se_state (session_table fresh3 ! i) = SESSION_STATE_EMPTY" if "i < 8" for i
    using that by (simp add: zero_session_def SESSION_STATE_EMPTY_def)
  show "pool fresh3 [0, 1, 2]" using init_free_list_pool [of slots3] by (simp add: fresh3_def upt_0_3)
  have "session_slots fresh3 i = []" if "i < 8" for i
    using idle [OF that] by (simp add: session_slots_def session_states)
  then have "held_slots fresh3 = []" by (simp add: held_slots_def)
  moreover have "{x :: u32. x < 3} = {0, 1, 2}"
  proof -
    have "x < 3 \<longleftrightarrow> x = 0 \<or> x = 1 \<or> x = 2" for x :: u32
      by (auto simp: word_less_nat_alt word_unat_eq_iff)
    then show ?thesis by auto
  qed
  moreover have "slot_count (hdr fresh3) = 3" by (simp add: fresh3_def init_free_list_def Let_def)
  ultimately show "mset (held_slots fresh3) + mset [0, 1, 2] = mset_set {x. x < slot_count (hdr fresh3)}"
    by simp
  show "session_ok fresh3 i" if "i < 8" for i using idle [OF that] by (simp add: session_ok_def Let_def)
  show "ids_unique fresh3" using idle by (simp add: ids_unique_def session_states)
qed (simp_all add: region_ok_def fresh3_def init_free_list_def slots3_def Let_def zero_header_def zero_segment_def
       MAX_SESSIONS_def)

theorem session_lifecycle_keeps_ownership_witness:
  "shm_inv attached_mgr (snd (open_session attached_mgr ''s1'' 2 3 8 4 64 ''/d'' fresh3)) [0, 1, 2]"
  using session_lifecycle_keeps_ownership [OF fresh3_inv] by blast

text \<open>
  C20: closing reclaims everything the session holds, once.  Closing an open session reports true, puts
  exactly the slots its blocks still link back on the free list, lowers \<open>used_slots\<close> by their number and
  makes the id unknown; a second close of the same id reports false and changes nothing.
\<close>

theorem close_session_reclaims:
  assumes "shm_inv mgr seg fl" and "find_session sid seg = Some i"
  shows "(case close_session mgr (Some sid) seg of (r, seg') \<Rightarrow>
            r \<and> shm_inv mgr seg' (rev (session_slots seg i) @ fl) \<and>
            unat (used_slots (hdr seg')) + length (session_slots seg i) = unat (used_slots (hdr seg)) \<and>
            find_session sid seg' = None \<and> close_session mgr (Some sid) seg' = (False, seg'))"
proof -
  obtain r seg' where cl: "close_session mgr (Some sid) seg = (r, seg')" by fastforce
  note inv' = close_session_inv(2) [OF assms, unfolded cl snd_conv]
  have none: "find_session sid seg' = None" using close_session_gone [OF assms] by (simp add: cl)
  obtain bl where "close_session mgr (Some sid) seg =
       (True, set_state i SESSION_STATE_EMPTY
          ((fold (free_slot mgr) (session_slots seg i) (set_state i SESSION_STATE_CLOSING seg))\<lparr>blocks := bl\<rparr>))"
    by (rule close_session_found [OF assms]) blast
  then have "slot_count (hdr seg') = slot_count (hdr seg)" by (simp add: cl)
  then have "unat (used_slots (hdr seg')) + length (session_slots seg i) = unat (used_slots (hdr seg))"
    using shm_invD(2) [OF inv'] shm_invD(2) [OF assms(1)] by (simp add: pool_def)
  moreover have "close_session mgr (Some sid) seg' = (False, seg')"
    by (simp add: close_session_def none)
  ultimately show ?thesis using close_session_inv(1) [OF assms] inv' none by (simp add: cl)
qed

lemma open_session_idempotent_lemma:
  assumes "shm_inv mgr seg fl"
    and "open_session mgr sid k n sb tb fs dest seg = (Some idx, seg')"
    and "strncmp_eq sid sid' 63"
  shows "find_session sid seg' = Some (unat idx) \<and> unat idx < 8 \<and>
         open_session mgr sid' k' n' sb' tb' fs' dest' seg' =
           (if tb' > MAX_BLOCKS_PER_SESSION then None else Some idx, seg')"
proof -
  have at: "attached mgr" and len: "length (session_table seg) = 8" using shm_invD [OF assms(1)] by auto
  have eq: "find_session sid' s = find_session sid s" for s
    using assms(3) by (simp add: find_session_def strncmp_eq_def)
  obtain i where i: "find_session sid seg' = Some i" "idx = of_nat i" "i < 8"
  proof (cases "find_session sid seg")
    case (Some i)
    then show ?thesis using assms(2) find_session_Some [OF Some] by (intro that) (auto simp: open_session_def split: if_splits)
  next
    case None
    then obtain i where e: "find_empty seg = Some i" and idx: "idx = of_nat i"
      and seg': "seg' = claim_session i sid k n sb tb fs dest seg"
      using assms(2) by (auto simp: open_session_def split: if_splits option.splits)
    have lt: "i < 8" using find_empty_Some [OF e] by simp
    let ?P = "\<lambda>j. se_state (session_table seg' ! j) = SESSION_STATE_OPEN \<and>
                strncmp_eq (se_session_id (session_table seg' ! j)) sid 63"
    have "?P i" using lt len by (simp add: seg' claim_session_def Let_def strncmp_eq_def)
    moreover have "\<not> ?P j" if "j < i" for j
      using that lt len find_session_None [OF None, of j] by (auto simp: seg' claim_session_def Let_def)
    ultimately have "find_session sid seg' = Some i"
      using lt by (auto simp: find_session_def find_Some_iff MAX_SESSIONS_def intro!: exI [of _ i])
    with idx lt show ?thesis by (intro that)
  qed
  have "unat idx = i" using i by (simp add: unat_of_nat_small)
  with i at show ?thesis by (simp add: open_session_def attached_def eq)
qed

text \<open>
  C27: opening is idempotent and finds what it opened.  When \<open>open_session\<close> returns index i, the entry i
  is open and \<open>find_session\<close> finds it.  Opening any id with the same first 63 characters again changes
  nothing, whatever its arguments: it returns i, except when it asks for more than
  \<open>MAX_BLOCKS_PER_SESSION\<close> blocks, which is refused before the table is looked at, session open or not.
  So ids that differ only later share one session, and a reopen with other code parameters keeps the old
  ones.
\<close>

theorem open_session_idempotent:
  assumes "shm_inv mgr seg fl"
    and "open_session mgr sid k n sb tb fs dest seg = (Some idx, seg')"
    and "strncmp_eq sid sid' 63"
  shows "find_session sid seg' = Some (unat idx) \<and> unat idx < 8 \<and>
         open_session mgr sid' k' n' sb' tb' fs' dest' seg' =
           (if tb' > MAX_BLOCKS_PER_SESSION then None else Some idx, seg')"
  using assms by (rule open_session_idempotent_lemma)

definition opened3 :: "u32 option \<times> Segment" where
  "opened3 = open_session attached_mgr ''s1'' 2 3 8 4 64 ''/d'' fresh3"

lemma fresh3_find: "find_session sid fresh3 = None" "find_empty fresh3 = Some 0"
proof -
  have "se_state (session_table fresh3 ! i) = 0" if "i < 8" for i using that by (simp add: zero_session_def)
  note st = this
  show "find_session sid fresh3 = None"
    using st by (auto simp: find_session_def MAX_SESSIONS_def session_states find_None_iff)
  have "find_empty fresh3 = find (\<lambda>i. True) [0..<8]"
    unfolding find_empty_def using st by (intro find_cong) (auto simp: MAX_SESSIONS_def session_states)
  then show "find_empty fresh3 = Some 0" by (simp add: upt_conv_Cons)
qed

lemma opened3_Some: "opened3 = (Some 0, snd opened3)"
  using attached_mgr by (simp add: opened3_def open_session_def attached_def fresh3_find MAX_BLOCKS_PER_SESSION_def)

lemma opened3_inv: "shm_inv attached_mgr (snd opened3) [0, 1, 2]"
  unfolding opened3_def by (rule open_session_inv [OF fresh3_inv])

theorem open_session_idempotent_witness:
  "find_session ''s1'' (snd opened3) = Some 0 \<and>
   open_session attached_mgr ''s1'' 5 9 8 4 64 ''/e'' (snd opened3) = (Some 0, snd opened3) \<and>
   open_session attached_mgr ''s1'' 5 9 8 8193 64 ''/e'' (snd opened3) = (None, snd opened3)"
  using open_session_idempotent [OF fresh3_inv opened3_Some [unfolded opened3_def], of "''s1''" 5 9 8 4 64 "''/e''"]
    open_session_idempotent [OF fresh3_inv opened3_Some [unfolded opened3_def], of "''s1''" 5 9 8 8193 64 "''/e''"]
  by (simp add: opened3_def strncmp_eq_def MAX_BLOCKS_PER_SESSION_def)

lemma opened3_find: "find_session ''s1'' (snd opened3) = Some 0"
proof -
  have len: "length (session_table fresh3) = 8" using shm_invD(3) [OF fresh3_inv] .
  have "snd opened3 = claim_session 0 ''s1'' 2 3 8 4 64 ''/d'' fresh3"
    using attached_mgr by (simp add: opened3_def open_session_def attached_def fresh3_find MAX_BLOCKS_PER_SESSION_def)
  then show ?thesis
    using len by (auto simp: find_session_def find_Some_iff MAX_SESSIONS_def claim_session_def Let_def strncmp_eq_def
        intro!: exI [of _ 0])
qed

theorem close_session_reclaims_witness:
  "find_session ''s1'' (snd (close_session attached_mgr (Some ''s1'') (snd opened3))) = None"
  using close_session_reclaims [OF opened3_inv opened3_find] by (auto split: prod.splits)

end
