(* ===== verification/SessionRace.thy ===== *)
theory SessionRace
  imports Sessions
begin

text \<open>
  \<^verbatim>\<open>src/receiver/shm_manager.cpp\<close>: \<open>open_session\<close> and \<open>close_session\<close> of any number of threads of any
  number of receiver processes, interleaved.  One rule is one access to the session lock or to an entry's
  \<open>state\<close>, with the plain writes an open makes to an entry it has found free in one step.  The sweep of a
  closed session's blocks (\<^verbatim>\<open>close_session\<close> in the theory \<open>Sessions\<close>) runs while the thread is at \<open>CSweep\<close>.
  \<open>sr_live\<close> is a history the program does not store: what \<open>open_session\<close> has returned, per id, and no
  \<open>close_session\<close> has claimed since.
  The abstract specification is a directory of ids, one step per operation.
\<close>

section \<open>Steps\<close>

record OpenArgs =
  oa_session_id :: string
  oa_k :: u32
  oa_n :: u32
  oa_symbol_bytes :: u32
  oa_total_blocks :: u32
  oa_file_size :: u64
  oa_dest_path :: string

datatype spc =
    SIdle
  | OSpin OpenArgs                 \<comment> \<open>open: before the lock is taken\<close>
  | OFind OpenArgs nat             \<comment> \<open>looking at entry i for the id\<close>
  | OEmpty OpenArgs nat            \<comment> \<open>looking at entry i for a free one\<close>
  | OPublish OpenArgs nat          \<comment> \<open>fields of entry i written, before \<open>state\<close> becomes OPEN\<close>
  | OUnlock OpenArgs "nat option"  \<comment> \<open>before the lock is released\<close>
  | CSpin string
  | CFind string nat
  | CMark string nat               \<comment> \<open>entry i found, before \<open>state\<close> becomes CLOSING\<close>
  | CUnlock "nat option"
  | CSweep nat                     \<comment> \<open>lock released, before \<open>state\<close> becomes EMPTY\<close>

record SessionRace =
  sr_table :: "SessionEntry list"
  sr_lock :: u32
  sr_pc :: "nat \<Rightarrow> spc"
  sr_live :: "(string \<times> nat) list"

definition sgoto :: "nat \<Rightarrow> spc \<Rightarrow> SessionRace \<Rightarrow> SessionRace" where
  "sgoto t p s = s\<lparr>sr_pc := (sr_pc s)(t := p)\<rparr>"

definition entry_matches :: "SessionEntry list \<Rightarrow> nat \<Rightarrow> string \<Rightarrow> bool" where
  "entry_matches tab i sid \<longleftrightarrow> se_state (tab ! i) = SESSION_STATE_OPEN \<and> strncmp_eq (se_session_id (tab ! i)) sid 63"

definition fill_entry :: "u64 \<Rightarrow> OpenArgs \<Rightarrow> nat \<Rightarrow> SessionEntry \<Rightarrow> SessionEntry" where
  "fill_entry region a i se =
     (let off = region + of_nat i * per_session_stride
      in se\<lparr>se_session_id := take 63 (oa_session_id a), se_k := oa_k a, se_n := oa_n a,
            se_symbol_bytes := oa_symbol_bytes a, se_total_blocks := oa_total_blocks a, se_file_size := oa_file_size a,
            se_hash := replicate 32 0, se_dest_path := take 255 (oa_dest_path a), se_block_table_offset := off,
            se_bitmap_offset := off + per_session_block_table_bytes\<rparr>)"

definition store_state :: "nat \<Rightarrow> u32 \<Rightarrow> SessionRace \<Rightarrow> SessionRace" where
  "store_state i st s = s\<lparr>sr_table := (sr_table s)[i := (sr_table s ! i)\<lparr>se_state := st\<rparr>]\<rparr>"

inductive session_step :: "u64 \<Rightarrow> SessionRace \<Rightarrow> SessionRace \<Rightarrow> bool" for region where
  open_call: "sr_pc s t = SIdle \<Longrightarrow> \<not> oa_total_blocks a > MAX_BLOCKS_PER_SESSION \<Longrightarrow> session_step region s (sgoto t (OSpin a) s)"
| open_spin: "sr_pc s t = OSpin a \<Longrightarrow> session_step region s s"
| open_lock: "sr_pc s t = OSpin a \<Longrightarrow> sr_lock s = 0 \<Longrightarrow> session_step region s (sgoto t (OFind a 0) (s\<lparr>sr_lock := 1\<rparr>))"
| open_match: "sr_pc s t = OFind a i \<Longrightarrow> i < 8 \<Longrightarrow> entry_matches (sr_table s) i (oa_session_id a) \<Longrightarrow>
     session_step region s (sgoto t (OUnlock a (Some i)) s)"
| open_next: "sr_pc s t = OFind a i \<Longrightarrow> i < 8 \<Longrightarrow> \<not> entry_matches (sr_table s) i (oa_session_id a) \<Longrightarrow>
     session_step region s (sgoto t (OFind a (i + 1)) s)"
| open_unknown: "sr_pc s t = OFind a i \<Longrightarrow> \<not> i < 8 \<Longrightarrow> session_step region s (sgoto t (OEmpty a 0) s)"
| open_busy: "sr_pc s t = OEmpty a i \<Longrightarrow> i < 8 \<Longrightarrow> se_state (sr_table s ! i) \<noteq> SESSION_STATE_EMPTY \<Longrightarrow>
     session_step region s (sgoto t (OEmpty a (i + 1)) s)"
| open_fill: "sr_pc s t = OEmpty a i \<Longrightarrow> i < 8 \<Longrightarrow> se_state (sr_table s ! i) = SESSION_STATE_EMPTY \<Longrightarrow>
     session_step region s (sgoto t (OPublish a i) (s\<lparr>sr_table := (sr_table s)[i := fill_entry region a i (sr_table s ! i)]\<rparr>))"
| open_full: "sr_pc s t = OEmpty a i \<Longrightarrow> \<not> i < 8 \<Longrightarrow> session_step region s (sgoto t (OUnlock a None) s)"
| open_publish: "sr_pc s t = OPublish a i \<Longrightarrow>
     session_step region s (sgoto t (OUnlock a (Some i)) (store_state i SESSION_STATE_OPEN s))"
| open_unlock: "sr_pc s t = OUnlock a r \<Longrightarrow>
     session_step region s (sgoto t SIdle (s\<lparr>sr_lock := 0,
       sr_live := (case r of None \<Rightarrow> sr_live s | Some i \<Rightarrow> (oa_session_id a, i) # sr_live s)\<rparr>))"
| close_call: "sr_pc s t = SIdle \<Longrightarrow> session_step region s (sgoto t (CSpin sid) s)"
| close_spin: "sr_pc s t = CSpin sid \<Longrightarrow> session_step region s s"
| close_lock: "sr_pc s t = CSpin sid \<Longrightarrow> sr_lock s = 0 \<Longrightarrow> session_step region s (sgoto t (CFind sid 0) (s\<lparr>sr_lock := 1\<rparr>))"
| close_match: "sr_pc s t = CFind sid i \<Longrightarrow> i < 8 \<Longrightarrow> entry_matches (sr_table s) i sid \<Longrightarrow>
     session_step region s (sgoto t (CMark sid i) s)"
| close_next: "sr_pc s t = CFind sid i \<Longrightarrow> i < 8 \<Longrightarrow> \<not> entry_matches (sr_table s) i sid \<Longrightarrow>
     session_step region s (sgoto t (CFind sid (i + 1)) s)"
| close_unknown: "sr_pc s t = CFind sid i \<Longrightarrow> \<not> i < 8 \<Longrightarrow> session_step region s (sgoto t (CUnlock None) s)"
| close_mark: "sr_pc s t = CMark sid i \<Longrightarrow>
     session_step region s (sgoto t (CUnlock (Some i))
       (store_state i SESSION_STATE_CLOSING (s\<lparr>sr_live := filter (\<lambda>(_, j). j \<noteq> i) (sr_live s)\<rparr>)))"
| close_unlock: "sr_pc s t = CUnlock r \<Longrightarrow>
     session_step region s (sgoto t (case r of None \<Rightarrow> SIdle | Some i \<Rightarrow> CSweep i) (s\<lparr>sr_lock := 0\<rparr>))"
| close_done: "sr_pc s t = CSweep i \<Longrightarrow> session_step region s (sgoto t SIdle (store_state i SESSION_STATE_EMPTY s))"

inductive session_reachable :: "u64 \<Rightarrow> SessionRace \<Rightarrow> bool" for region where
  start: "length tab = 8 \<Longrightarrow> \<forall>se\<in>set tab. se_state se = SESSION_STATE_EMPTY \<Longrightarrow>
     session_reachable region \<lparr>sr_table = tab, sr_lock = 0, sr_pc = (\<lambda>_. SIdle), sr_live = []\<rparr>"
| step: "session_reachable region s \<Longrightarrow> session_step region s s' \<Longrightarrow> session_reachable region s'"

section \<open>The invariant\<close>

fun holds_lock :: "spc \<Rightarrow> bool" where
  "holds_lock (OFind _ _) = True" | "holds_lock (OEmpty _ _) = True" | "holds_lock (OPublish _ _) = True"
| "holds_lock (OUnlock _ _) = True" | "holds_lock (CFind _ _) = True" | "holds_lock (CMark _ _) = True"
| "holds_lock (CUnlock _) = True" | "holds_lock _ = False"

fun sweeping :: "spc \<Rightarrow> nat set" where
  "sweeping (CUnlock (Some i)) = {i}" | "sweeping (CSweep i) = {i}" | "sweeping _ = {}"

fun pc_knows :: "SessionEntry list \<Rightarrow> spc \<Rightarrow> bool" where
  "pc_knows tab (OFind a i) = (\<forall>j<8. j < i \<longrightarrow> \<not> entry_matches tab j (oa_session_id a))"
| "pc_knows tab (OEmpty a i) = (\<forall>j<8. \<not> entry_matches tab j (oa_session_id a))"
| "pc_knows tab (OPublish a i) = (i < 8 \<and> se_state (tab ! i) = SESSION_STATE_EMPTY \<and>
     se_session_id (tab ! i) = take 63 (oa_session_id a) \<and> (\<forall>j<8. \<not> entry_matches tab j (oa_session_id a)))"
| "pc_knows tab (OUnlock a (Some i)) = (i < 8 \<and> entry_matches tab i (oa_session_id a))"
| "pc_knows tab (CFind sid i) = (\<forall>j<8. j < i \<longrightarrow> \<not> entry_matches tab j sid)"
| "pc_knows tab (CMark sid i) = (i < 8 \<and> entry_matches tab i sid)"
| "pc_knows _ _ = True"

definition ids_distinct :: "SessionEntry list \<Rightarrow> bool" where
  "ids_distinct tab \<longleftrightarrow> (\<forall>i<8. \<forall>j<8. i \<noteq> j \<longrightarrow> se_state (tab ! i) = SESSION_STATE_OPEN \<longrightarrow>
     \<not> entry_matches tab j (se_session_id (tab ! i)))"

definition session_inv :: "SessionRace \<Rightarrow> bool" where
  "session_inv s \<longleftrightarrow> length (sr_table s) = 8 \<and>
     (\<forall>t u. holds_lock (sr_pc s t) \<longrightarrow> holds_lock (sr_pc s u) \<longrightarrow> t = u) \<and>
     (\<forall>t. holds_lock (sr_pc s t) \<longrightarrow> sr_lock s \<noteq> 0) \<and>
     (\<forall>t u. t \<noteq> u \<longrightarrow> sweeping (sr_pc s t) \<inter> sweeping (sr_pc s u) = {}) \<and>
     (\<forall>t. \<forall>i\<in>sweeping (sr_pc s t). i < 8 \<and> se_state (sr_table s ! i) = SESSION_STATE_CLOSING) \<and>
     (\<forall>t. pc_knows (sr_table s) (sr_pc s t)) \<and> ids_distinct (sr_table s) \<and>
     (\<forall>(sid, i)\<in>set (sr_live s). i < 8 \<and> entry_matches (sr_table s) i sid)"

lemma states_distinct [simp]:
  "SESSION_STATE_OPEN \<noteq> SESSION_STATE_CLOSING" "SESSION_STATE_CLOSING \<noteq> SESSION_STATE_OPEN"
  "SESSION_STATE_OPEN \<noteq> SESSION_STATE_EMPTY" "SESSION_STATE_EMPTY \<noteq> SESSION_STATE_OPEN"
  "SESSION_STATE_CLOSING \<noteq> SESSION_STATE_EMPTY" "SESSION_STATE_EMPTY \<noteq> SESSION_STATE_CLOSING"
  by (simp_all add: session_states)

lemma sgoto_sel [simp]:
  "sr_table (sgoto t p s) = sr_table s" "sr_lock (sgoto t p s) = sr_lock s"
  "sr_pc (sgoto t p s) = (sr_pc s)(t := p)" "sr_live (sgoto t p s) = sr_live s"
  by (simp_all add: sgoto_def)

lemma store_state_sel [simp]:
  "sr_table (store_state i st s) = (sr_table s)[i := (sr_table s ! i)\<lparr>se_state := st\<rparr>]"
  "sr_lock (store_state i st s) = sr_lock s" "sr_pc (store_state i st s) = sr_pc s" "sr_live (store_state i st s) = sr_live s"
  by (simp_all add: store_state_def)

lemma session_invD:
  assumes "session_inv s"
  shows "length (sr_table s) = 8"
    and "holds_lock (sr_pc s t) \<Longrightarrow> holds_lock (sr_pc s u) \<Longrightarrow> t = u"
    and "holds_lock (sr_pc s t) \<Longrightarrow> sr_lock s \<noteq> 0"
    and "t \<noteq> u \<Longrightarrow> sweeping (sr_pc s t) \<inter> sweeping (sr_pc s u) = {}"
    and "i \<in> sweeping (sr_pc s t) \<Longrightarrow> i < 8 \<and> se_state (sr_table s ! i) = SESSION_STATE_CLOSING"
    and "pc_knows (sr_table s) (sr_pc s t)" and "ids_distinct (sr_table s)"
    and "(sid, i) \<in> set (sr_live s) \<Longrightarrow> i < 8 \<and> entry_matches (sr_table s) i sid"
proof -
  show "holds_lock (sr_pc s t) \<Longrightarrow> holds_lock (sr_pc s u) \<Longrightarrow> t = u" using assms unfolding session_inv_def by blast
qed (use assms in \<open>auto simp: session_inv_def\<close>)

lemma session_invI:
  assumes "length (sr_table s) = 8"
    and "\<And>t u. holds_lock (sr_pc s t) \<Longrightarrow> holds_lock (sr_pc s u) \<Longrightarrow> t = u"
    and "\<And>t. holds_lock (sr_pc s t) \<Longrightarrow> sr_lock s \<noteq> 0"
    and "\<And>t u. t \<noteq> u \<Longrightarrow> sweeping (sr_pc s t) \<inter> sweeping (sr_pc s u) = {}"
    and "\<And>t i. i \<in> sweeping (sr_pc s t) \<Longrightarrow> i < 8 \<and> se_state (sr_table s ! i) = SESSION_STATE_CLOSING"
    and "\<And>t. pc_knows (sr_table s) (sr_pc s t)" and "ids_distinct (sr_table s)"
    and "\<And>sid i. (sid, i) \<in> set (sr_live s) \<Longrightarrow> i < 8 \<and> entry_matches (sr_table s) i sid"
  shows "session_inv s"
  unfolding session_inv_def using assms(2,8) by (intro conjI allI impI ballI assms; auto)

lemma pc_knows_free: "\<not> holds_lock p \<Longrightarrow> pc_knows tab p"
  by (cases p) simp_all

section \<open>Every step keeps the invariant\<close>

text \<open>Steps that leave the table alone.\<close>

lemma session_inv_move:
  assumes inv: "session_inv s"
    and lock: "holds_lock p \<Longrightarrow> l \<noteq> 0" "\<And>u. u \<noteq> t \<Longrightarrow> holds_lock (sr_pc s u) \<Longrightarrow> \<not> holds_lock p \<and> l \<noteq> 0"
    and sw: "sweeping p \<subseteq> sweeping (sr_pc s t)" and kn: "pc_knows (sr_table s) p"
    and live: "\<And>sid i. (sid, i) \<in> set lv \<Longrightarrow> i < 8 \<and> entry_matches (sr_table s) i sid"
  shows "session_inv (sgoto t p (s\<lparr>sr_lock := l, sr_live := lv\<rparr>))"
proof (rule session_invI, goal_cases)
  case (2 u v)
  then show ?case using session_invD(2) [OF inv, of u v] lock(2) by (auto split: if_splits)
next
  case (3 u)
  then show ?case using lock by (auto split: if_splits)
next
  case (4 u v)
  then show ?case using session_invD(4) [OF inv, of u v] session_invD(4) [OF inv, of t v] session_invD(4) [OF inv, of u t] sw
    by (auto split: if_splits)
next
  case (5 u i)
  then show ?case using session_invD(5) [OF inv, of i u] sw session_invD(5) [OF inv, of i t] by (auto split: if_splits)
qed (use session_invD(1,6,7) [OF inv] kn live in auto)

lemma session_inv_goto:
  assumes "session_inv s" and "holds_lock p \<Longrightarrow> holds_lock (sr_pc s t)"
    and "sweeping p \<subseteq> sweeping (sr_pc s t)" and "pc_knows (sr_table s) p"
  shows "session_inv (sgoto t p s)"
proof -
  have "session_inv (sgoto t p (s\<lparr>sr_lock := sr_lock s, sr_live := sr_live s\<rparr>))"
    using assms session_invD(2,3,8) [OF assms(1)] by (intro session_inv_move) blast+
  then show ?thesis by simp
qed

lemma session_inv_lock:
  assumes "session_inv s" and "sr_lock s = 0" and "sweeping p = {}" and "pc_knows (sr_table s) p"
  shows "session_inv (sgoto t p (s\<lparr>sr_lock := 1\<rparr>))"
proof -
  have "session_inv (sgoto t p (s\<lparr>sr_lock := 1, sr_live := sr_live s\<rparr>))"
    using assms session_invD(3,8) [OF assms(1)] by (intro session_inv_move) auto
  then show ?thesis by simp
qed

lemma session_inv_unlock:
  assumes "session_inv s" and "holds_lock (sr_pc s t)" and "\<not> holds_lock p" and "sweeping p \<subseteq> sweeping (sr_pc s t)"
    and "\<And>sid i. (sid, i) \<in> set lv \<Longrightarrow> i < 8 \<and> entry_matches (sr_table s) i sid"
  shows "session_inv (sgoto t p (s\<lparr>sr_lock := 0, sr_live := lv\<rparr>))"
proof (rule session_inv_move [OF assms(1)])
  show "\<not> holds_lock p \<and> (0 :: u32) \<noteq> 0" if "u \<noteq> t" "holds_lock (sr_pc s u)" for u
    using session_invD(2) [OF assms(1,2) that(2)] that(1) by simp
qed (use assms(3-5) in \<open>simp_all add: pc_knows_free\<close>)

text \<open>Steps that store into an entry.\<close>

lemma session_inv_entry:
  assumes inv: "session_inv s" and i: "i < 8"
    and lock: "holds_lock p \<Longrightarrow> holds_lock (sr_pc s t)"
    and sw: "\<And>j. j \<in> sweeping p \<Longrightarrow> j = i \<and> se_state e = SESSION_STATE_CLOSING"
    and other: "\<And>u. u \<noteq> t \<Longrightarrow> i \<notin> sweeping (sr_pc s u)"
    and kn: "pc_knows ((sr_table s)[i := e]) p" "\<And>u. u \<noteq> t \<Longrightarrow> pc_knows ((sr_table s)[i := e]) (sr_pc s u)"
    and ids: "ids_distinct ((sr_table s)[i := e])"
    and live: "\<And>sid j. (sid, j) \<in> set lv \<Longrightarrow> j < 8 \<and> entry_matches ((sr_table s)[i := e]) j sid"
  shows "session_inv (sgoto t p (s\<lparr>sr_table := (sr_table s)[i := e], sr_live := lv\<rparr>))"
proof -
  have mono: "holds_lock (sr_pc s u)" if "holds_lock (((sr_pc s)(t := p)) u)" for u
    using that lock by (cases "u = t") simp_all
  show ?thesis
  proof (rule session_invI, goal_cases)
    case (2 u v)
    then show ?case by (intro session_invD(2) [OF inv] mono) simp_all
  next
    case (3 u)
    then show ?case using session_invD(3) [OF inv mono [of u]] by simp
  next
    case (4 u v)
    then show ?case using session_invD(4) [OF inv, of u v] sw other by (auto split: if_splits)
  next
    case (5 u j)
    then show ?case
      using session_invD(5) [OF inv, of j u] sw [of j] other [of u] i session_invD(1) [OF inv]
      by (auto simp: nth_list_update split: if_splits)
  qed (use session_invD(1) [OF inv] kn ids live in auto)
qed

lemma entry_matches_update:
  "i < length tab \<Longrightarrow> entry_matches (tab[i := e]) j sid \<longleftrightarrow>
     (if j = i then se_state e = SESSION_STATE_OPEN \<and> strncmp_eq (se_session_id e) sid 63 else entry_matches tab j sid)"
  by (simp add: entry_matches_def nth_list_update)

lemma strncmp_take [simp]: "strncmp_eq (take 63 a) b 63 = strncmp_eq a b 63" "strncmp_eq a (take 63 b) 63 = strncmp_eq a b 63"
  by (simp_all add: strncmp_eq_def)

lemma entry_matches_take [simp]: "entry_matches tab i (take 63 sid) = entry_matches tab i sid"
  by (simp add: entry_matches_def)

text \<open>An entry that is not open before or after can change as it likes.\<close>

lemma closed_entry_change:
  assumes "i < length tab" and "se_state (tab ! i) \<noteq> SESSION_STATE_OPEN" and "se_state e \<noteq> SESSION_STATE_OPEN"
  shows "entry_matches (tab[i := e]) j sid = entry_matches tab j sid"
    and "ids_distinct tab \<Longrightarrow> ids_distinct (tab[i := e])"
proof -
  show m: "entry_matches (tab[i := e]) j sid = entry_matches tab j sid" for j sid
    using assms by (simp add: entry_matches_update) (simp add: entry_matches_def)
  show "ids_distinct tab \<Longrightarrow> ids_distinct (tab[i := e])"
    using assms by (auto simp: ids_distinct_def m nth_list_update)
qed

text \<open>The four stores of the two operations.\<close>

lemma other_waits:
  assumes "session_inv s" and "holds_lock (sr_pc s t)" and "u \<noteq> t"
  shows "pc_knows tab (sr_pc s u)"
  using session_invD(2) [OF assms(1,2), of u] assms(3) by (auto intro: pc_knows_free)

lemma state_not_swept:
  "session_inv s \<Longrightarrow> se_state (sr_table s ! i) \<noteq> SESSION_STATE_CLOSING \<Longrightarrow> i \<notin> sweeping (sr_pc s u)"
  using session_invD(5) by blast

lemma fill_step:
  assumes inv: "session_inv s" and pc: "sr_pc s t = OEmpty a i" and i: "i < 8"
    and st: "se_state (sr_table s ! i) = SESSION_STATE_EMPTY"
  shows "session_inv (sgoto t (OPublish a i) (s\<lparr>sr_table := (sr_table s)[i := fill_entry region a i (sr_table s ! i)]\<rparr>))"
proof -
  let ?e = "fill_entry region a i (sr_table s ! i)"
  have len: "i < length (sr_table s)" using session_invD(1) [OF inv] i by simp
  have e: "se_state ?e = SESSION_STATE_EMPTY" "se_session_id ?e = take 63 (oa_session_id a)" by (simp_all add: fill_entry_def Let_def st)
  note same = closed_entry_change [OF len, of ?e]
  have kn: "\<forall>j<8. \<not> entry_matches (sr_table s) j (oa_session_id a)" using session_invD(6) [OF inv, of t] pc by simp
  have "session_inv (sgoto t (OPublish a i) (s\<lparr>sr_table := (sr_table s)[i := ?e], sr_live := sr_live s\<rparr>))"
  proof (rule session_inv_entry [OF inv i])
    show "pc_knows ((sr_table s)[i := ?e]) (OPublish a i)" using kn i len e same(1) st by (simp add: session_states)
    show "ids_distinct ((sr_table s)[i := ?e])" using same(2) session_invD(7) [OF inv] st e by (simp add: session_states)
    show "j < 8 \<and> entry_matches ((sr_table s)[i := ?e]) j sid" if "(sid, j) \<in> set (sr_live s)" for sid j
      using session_invD(8) [OF inv that] same(1) st e by (simp add: session_states)
    show "i \<notin> sweeping (sr_pc s u)" for u using state_not_swept [OF inv] st by (simp add: session_states)
  qed (use pc other_waits [OF inv, of t] in auto)
  then show ?thesis by simp
qed

lemma publish_step:
  assumes inv: "session_inv s" and pc: "sr_pc s t = OPublish a i"
  shows "session_inv (sgoto t (OUnlock a (Some i)) (store_state i SESSION_STATE_OPEN s))"
proof -
  let ?e = "(sr_table s ! i)\<lparr>se_state := SESSION_STATE_OPEN\<rparr>" and ?sid = "oa_session_id a"
  have i: "i < 8" and st: "se_state (sr_table s ! i) = SESSION_STATE_EMPTY" and id: "se_session_id (sr_table s ! i) = take 63 ?sid"
    and new: "\<And>j. j < 8 \<Longrightarrow> \<not> entry_matches (sr_table s) j ?sid"
    using session_invD(6) [OF inv, of t] pc by simp_all
  have len: "i < length (sr_table s)" using session_invD(1) [OF inv] i by simp
  note upd = entry_matches_update [OF len, of ?e]
  have live: "j < 8 \<and> entry_matches ((sr_table s)[i := ?e]) j sid" if "(sid, j) \<in> set (sr_live s)" for sid j
    using session_invD(8) [OF inv that] st by (auto simp: upd) (simp_all add: entry_matches_def session_states)
  have "\<not> entry_matches ((sr_table s)[i := ?e]) k (se_session_id ((sr_table s)[i := ?e] ! j))"
    if "j < 8" "k < 8" "j \<noteq> k" "se_state ((sr_table s)[i := ?e] ! j) = SESSION_STATE_OPEN" for j k
  proof (cases "j = i")
    case True
    then show ?thesis using that new [of k] len by (simp add: upd id)
  next
    case False
    then have "se_state (sr_table s ! j) = SESSION_STATE_OPEN" using that(4) by simp
    then show ?thesis
      using False that(1-3) new [of j] session_invD(7) [OF inv] len
      by (auto simp: upd id ids_distinct_def) (simp add: entry_matches_def strncmp_eq_def)
  qed
  then have ids: "ids_distinct ((sr_table s)[i := ?e])" by (simp add: ids_distinct_def)
  have "session_inv (sgoto t (OUnlock a (Some i)) (s\<lparr>sr_table := (sr_table s)[i := ?e], sr_live := sr_live s\<rparr>))"
  proof (rule session_inv_entry [OF inv i])
    show "pc_knows ((sr_table s)[i := ?e]) (OUnlock a (Some i))" using i by (simp add: upd id strncmp_eq_def)
    show "i \<notin> sweeping (sr_pc s u)" for u using state_not_swept [OF inv] st by (simp add: session_states)
  qed (use pc live ids other_waits [OF inv, of t] in auto)
  then show ?thesis by (simp add: store_state_def)
qed

lemma mark_step:
  assumes inv: "session_inv s" and pc: "sr_pc s t = CMark sid i"
  shows "session_inv (sgoto t (CUnlock (Some i))
       (store_state i SESSION_STATE_CLOSING (s\<lparr>sr_live := filter (\<lambda>(_, j). j \<noteq> i) (sr_live s)\<rparr>)))"
proof -
  let ?e = "(sr_table s ! i)\<lparr>se_state := SESSION_STATE_CLOSING\<rparr>"
  have i: "i < 8" and st: "se_state (sr_table s ! i) = SESSION_STATE_OPEN"
    using session_invD(6) [OF inv, of t] pc by (simp_all add: entry_matches_def)
  have len: "i < length (sr_table s)" using session_invD(1) [OF inv] i by simp
  note upd = entry_matches_update [OF len, of ?e]
  have ids: "ids_distinct ((sr_table s)[i := ?e])"
    using session_invD(7) [OF inv] len by (auto simp: ids_distinct_def upd nth_list_update split: if_splits)
  have "session_inv (sgoto t (CUnlock (Some i)) (s\<lparr>sr_table := (sr_table s)[i := ?e],
       sr_live := filter (\<lambda>(_, j). j \<noteq> i) (sr_live s)\<rparr>))"
  proof (rule session_inv_entry [OF inv i])
    show "j < 8 \<and> entry_matches ((sr_table s)[i := ?e]) j sid"
      if "(sid, j) \<in> set (filter (\<lambda>(_, j). j \<noteq> i) (sr_live s))" for sid j
      using that session_invD(8) [OF inv] by (auto simp: upd)
    show "i \<notin> sweeping (sr_pc s u)" for u using state_not_swept [OF inv] st by (simp add: session_states)
  qed (use pc ids other_waits [OF inv, of t] in auto)
  moreover have "s\<lparr>sr_table := (sr_table s)[i := ?e], sr_live := filter (\<lambda>(_, j). j \<noteq> i) (sr_live s)\<rparr> =
     store_state i SESSION_STATE_CLOSING (s\<lparr>sr_live := filter (\<lambda>(_, j). j \<noteq> i) (sr_live s)\<rparr>)"
    by (simp add: store_state_def)
  ultimately show ?thesis by simp
qed

lemma done_step:
  assumes inv: "session_inv s" and pc: "sr_pc s t = CSweep i"
  shows "session_inv (sgoto t SIdle (store_state i SESSION_STATE_EMPTY s))"
proof -
  let ?e = "(sr_table s ! i)\<lparr>se_state := SESSION_STATE_EMPTY\<rparr>"
  have i: "i < 8" and st: "se_state (sr_table s ! i) = SESSION_STATE_CLOSING"
    using session_invD(5) [OF inv, of i t] pc by simp_all
  have len: "i < length (sr_table s)" using session_invD(1) [OF inv] i by simp
  note same = closed_entry_change [OF len, of ?e]
  have keeps: "pc_knows ((sr_table s)[i := ?e]) p" if "pc_knows (sr_table s) p" for p
    using that st len
    by (cases "((sr_table s), p)" rule: pc_knows.cases) (auto simp: same(1) nth_list_update)
  have "session_inv (sgoto t SIdle (s\<lparr>sr_table := (sr_table s)[i := ?e], sr_live := sr_live s\<rparr>))"
  proof (rule session_inv_entry [OF inv i])
    show "i \<notin> sweeping (sr_pc s u)" if "u \<noteq> t" for u using session_invD(4) [OF inv that] pc by auto
    show "pc_knows ((sr_table s)[i := ?e]) (sr_pc s u)" for u using keeps session_invD(6) [OF inv] .
    show "ids_distinct ((sr_table s)[i := ?e])" using same(2) session_invD(7) [OF inv] st by (simp add: session_states)
    show "j < 8 \<and> entry_matches ((sr_table s)[i := ?e]) j sid" if "(sid, j) \<in> set (sr_live s)" for sid j
      using session_invD(8) [OF inv that] same(1) st by (simp add: session_states)
  qed auto
  then show ?thesis by (simp add: store_state_def)
qed

lemma session_step_inv:
  assumes "session_step region s s'" and inv: "session_inv s"
  shows "session_inv s'"
  using assms(1)
proof cases
  case (open_call t a)
  then show ?thesis using session_inv_goto [OF inv, of "OSpin a" t] by simp
next
  case open_spin
  then show ?thesis using inv by simp
next
  case (open_lock t a)
  then show ?thesis using session_inv_lock [OF inv, of "OFind a 0" t] by simp
next
  case (open_match t a i)
  then show ?thesis using session_inv_goto [OF inv, of "OUnlock a (Some i)" t] by simp
next
  case (open_next t a i)
  then show ?thesis
    using session_inv_goto [OF inv, of "OFind a (i + 1)" t] session_invD(6) [OF inv, of t] by (simp add: less_Suc_eq)
next
  case (open_unknown t a i)
  then show ?thesis using session_inv_goto [OF inv, of "OEmpty a 0" t] session_invD(6) [OF inv, of t] by simp
next
  case (open_busy t a i)
  then show ?thesis using session_inv_goto [OF inv, of "OEmpty a (i + 1)" t] session_invD(6) [OF inv, of t] by simp
next
  case open_fill
  then show ?thesis using fill_step [OF inv] by simp
next
  case (open_full t a i)
  then show ?thesis using session_inv_goto [OF inv, of "OUnlock a None" t] by simp
next
  case open_publish
  then show ?thesis using publish_step [OF inv] by simp
next
  case (open_unlock t a r)
  have "j < 8 \<and> entry_matches (sr_table s) j sid"
    if "(sid, j) \<in> set (case r of None \<Rightarrow> sr_live s | Some i \<Rightarrow> (oa_session_id a, i) # sr_live s)" for sid j
    using that session_invD(6) [OF inv, of t] session_invD(8) [OF inv] open_unlock(2) by (auto split: option.splits)
  then show ?thesis using session_inv_unlock [OF inv, of t SIdle] open_unlock by simp
next
  case (close_call t sid)
  then show ?thesis using session_inv_goto [OF inv, of "CSpin sid" t] by simp
next
  case close_spin
  then show ?thesis using inv by simp
next
  case (close_lock t sid)
  then show ?thesis using session_inv_lock [OF inv, of "CFind sid 0" t] by simp
next
  case (close_match t sid i)
  then show ?thesis using session_inv_goto [OF inv, of "CMark sid i" t] by simp
next
  case (close_next t sid i)
  then have "\<forall>j<8. j < i + 1 \<longrightarrow> \<not> entry_matches (sr_table s) j sid"
    using session_invD(6) [OF inv, of t] by (auto simp: less_Suc_eq)
  then show ?thesis using session_inv_goto [OF inv, of "CFind sid (i + 1)" t] close_next by simp
next
  case (close_unknown t sid i)
  then show ?thesis using session_inv_goto [OF inv, of "CUnlock None" t] by simp
next
  case close_mark
  then show ?thesis using mark_step [OF inv] by simp
next
  case (close_unlock t r)
  have "session_inv (sgoto t (case r of None \<Rightarrow> SIdle | Some i \<Rightarrow> CSweep i) (s\<lparr>sr_lock := 0, sr_live := sr_live s\<rparr>))"
    using close_unlock(2) session_invD(8) [OF inv] by (intro session_inv_unlock [OF inv]) (auto split: option.splits)
  then show ?thesis using close_unlock by simp
next
  case close_done
  then show ?thesis using done_step [OF inv] by simp
qed

lemma session_reachable_inv: "session_reachable region s \<Longrightarrow> session_inv s"
proof (induction rule: session_reachable.induct)
  case (start tab)
  then have "se_state (tab ! i) = SESSION_STATE_EMPTY" if "i < 8" for i using that by simp
  then show ?case
    using start by (intro session_invI) (simp_all add: ids_distinct_def session_states)
next
  case (step s s')
  show ?case by (rule session_step_inv [OF step.hyps(2) step.IH])
qed

section \<open>Properties\<close>

text \<open>One thread opening a session on an idle table.\<close>

lemma find_run:
  assumes "session_reachable region s" and "sr_pc s t = OFind a 0"
    and "\<forall>j<8. \<not> entry_matches (sr_table s) j (oa_session_id a)"
  shows "i \<le> 8 \<Longrightarrow> session_reachable region (sgoto t (OFind a i) s)"
proof (induction i)
  case 0
  have "sgoto t (OFind a 0) s = s" using assms(2) by (simp add: sgoto_def fun_upd_idem)
  with assms(1) show ?case by simp
next
  case (Suc i)
  have "session_step region (sgoto t (OFind a i) s) (sgoto t (OFind a (i + 1)) (sgoto t (OFind a i) s))"
    using Suc.prems assms(3) by (intro session_step.open_next) simp_all
  moreover have "sgoto t (OFind a (i + 1)) (sgoto t (OFind a i) s) = sgoto t (OFind a (Suc i)) s" by (simp add: sgoto_def)
  ultimately show ?case using Suc by (metis Suc_leD session_reachable.step)
qed

lemma one_opens:
  fixes a :: OpenArgs
  assumes "session_reachable region s" and "\<forall>u. sr_pc s u = SIdle" and "sr_lock s = 0" and "sr_live s = []"
    and empty: "\<forall>i<8. se_state (sr_table s ! i) = SESSION_STATE_EMPTY" and "\<not> oa_total_blocks a > MAX_BLOCKS_PER_SESSION"
  shows "\<exists>s'. session_reachable region s' \<and> sr_live s' = [(oa_session_id a, 0)] \<and> sr_pc s' t = SIdle"
proof -
  have none: "\<forall>j<8. \<not> entry_matches (sr_table s) j (oa_session_id a)" using empty by (simp add: entry_matches_def)
  define s2 where "s2 = sgoto t (OFind a 0) (sgoto t (OSpin a) s\<lparr>sr_lock := 1\<rparr>)"
  have 1: "session_reachable region (sgoto t (OSpin a) s)"
    using assms(1,2,6) by (intro session_reachable.step [OF _ session_step.open_call]) simp_all
  have 2: "session_reachable region s2" unfolding s2_def
    using assms(3) by (intro session_reachable.step [OF 1 session_step.open_lock]) simp_all
  have 3: "session_reachable region (sgoto t (OFind a 8) s2)"
    using find_run [OF 2, of t a 8] none by (simp add: s2_def)
  let ?s3 = "sgoto t (OEmpty a 0) (sgoto t (OFind a 8) s2)"
  have 4: "session_reachable region ?s3"
    by (intro session_reachable.step [OF 3 session_step.open_unknown [of _ t a 8]]) simp_all
  let ?s4 = "sgoto t (OPublish a 0) (?s3\<lparr>sr_table := (sr_table ?s3)[0 := fill_entry region a 0 (sr_table ?s3 ! 0)]\<rparr>)"
  have 5: "session_reachable region ?s4"
    using empty by (intro session_reachable.step [OF 4 session_step.open_fill]) (simp_all add: s2_def)
  let ?s5 = "sgoto t (OUnlock a (Some 0)) (store_state 0 SESSION_STATE_OPEN ?s4)"
  have 6: "session_reachable region ?s5" by (intro session_reachable.step [OF 5 session_step.open_publish]) simp_all
  have "session_reachable region (sgoto t SIdle (?s5\<lparr>sr_lock := 0, sr_live := (oa_session_id a, 0) # sr_live ?s5\<rparr>))"
    using session_reachable.step [OF 6 session_step.open_unlock [of ?s5 t a "Some 0"]] by simp
  then show ?thesis by (rule exI [of _ "sgoto t SIdle (?s5\<lparr>sr_lock := 0, sr_live := (oa_session_id a, 0) # sr_live ?s5\<rparr>)", OF conjI])
      (simp add: s2_def assms(4))
qed

lemma one_opened:
  obtains s where "session_reachable 0 s" and "sr_live s = [(''s1'', 0)]"
proof -
  let ?a = "\<lparr>oa_session_id = ''s1'', oa_k = 1, oa_n = 2, oa_symbol_bytes = 3, oa_total_blocks = 4, oa_file_size = 5,
     oa_dest_path = ''/d''\<rparr>"
  let ?s = "\<lparr>sr_table = replicate 8 (zero_session\<lparr>se_state := SESSION_STATE_EMPTY\<rparr>), sr_lock = 0, sr_pc = (\<lambda>_. SIdle), sr_live = []\<rparr>"
  have "session_reachable 0 ?s" by (rule session_reachable.start) simp_all
  then show thesis
    using one_opens [of 0 ?s ?a 7] that by (auto simp: MAX_BLOCKS_PER_SESSION_def simp del: replicate.simps)
qed

text \<open>
  C17: concurrent opens and closes agree.  Whatever the interleaving of \<open>open_session\<close> and \<open>close_session\<close> in
  any number of processes: no two open entries have the same id; two opens that returned an index, neither
  closed since, returned the same index exactly when their ids are the same (on 63 characters), and that
  entry is open; and a closer that sweeps an entry is the only one, with the entry in state CLOSING, which
  no search matches and no open claims.
\<close>

theorem concurrent_opens_agree:
  assumes "session_reachable region s"
  shows "(\<forall>i<8. \<forall>j<8. se_state (sr_table s ! i) = SESSION_STATE_OPEN \<and> se_state (sr_table s ! j) = SESSION_STATE_OPEN \<and>
            strncmp_eq (se_session_id (sr_table s ! i)) (se_session_id (sr_table s ! j)) 63 \<longrightarrow> i = j) \<and>
         (\<forall>(a, i)\<in>set (sr_live s). \<forall>(b, j)\<in>set (sr_live s).
            entry_matches (sr_table s) i a \<and> (strncmp_eq a b 63 \<longleftrightarrow> i = j)) \<and>
         (\<forall>t u i. sr_pc s t = CSweep i \<longrightarrow>
            se_state (sr_table s ! i) = SESSION_STATE_CLOSING \<and> (sr_pc s u = CSweep i \<longrightarrow> t = u))"
proof (intro conjI)
  note inv = session_reachable_inv [OF assms]
  have uniq: "i = j" if "i < 8" "j < 8" "entry_matches (sr_table s) i a" "entry_matches (sr_table s) j a" for i j a
  proof (rule ccontr)
    assume "i \<noteq> j"
    then have "\<not> entry_matches (sr_table s) j (se_session_id (sr_table s ! i))"
      using that session_invD(7) [OF inv] by (simp add: ids_distinct_def entry_matches_def)
    then show False using that(3,4) by (simp add: entry_matches_def strncmp_eq_def)
  qed
  then show "\<forall>i<8. \<forall>j<8. se_state (sr_table s ! i) = SESSION_STATE_OPEN \<and> se_state (sr_table s ! j) = SESSION_STATE_OPEN \<and>
            strncmp_eq (se_session_id (sr_table s ! i)) (se_session_id (sr_table s ! j)) 63 \<longrightarrow> i = j"
    by (auto simp: entry_matches_def strncmp_eq_def)
  have "entry_matches (sr_table s) i a \<and> (strncmp_eq a b 63 \<longleftrightarrow> i = j)"
    if "(a, i) \<in> set (sr_live s)" "(b, j) \<in> set (sr_live s)" for a i b j
  proof -
    note l = session_invD(8) [OF inv that(1)] session_invD(8) [OF inv that(2)]
    have "entry_matches (sr_table s) i b" if "strncmp_eq a b 63" using l that by (simp add: entry_matches_def strncmp_eq_def)
    with l uniq show ?thesis by (auto simp: entry_matches_def strncmp_eq_def)
  qed
  then show "\<forall>(a, i)\<in>set (sr_live s). \<forall>(b, j)\<in>set (sr_live s).
            entry_matches (sr_table s) i a \<and> (strncmp_eq a b 63 \<longleftrightarrow> i = j)" by auto
  show "\<forall>t u i. sr_pc s t = CSweep i \<longrightarrow>
            se_state (sr_table s ! i) = SESSION_STATE_CLOSING \<and> (sr_pc s u = CSweep i \<longrightarrow> t = u)"
    using session_invD(4,5) [OF inv] by (metis Int_iff empty_iff insertI1 sweeping.simps(2))
qed

theorem concurrent_opens_agree_witness:
  "\<exists>s :: SessionRace. sr_live s = [(''s1'', 0)] \<and> se_state (sr_table s ! 0) = SESSION_STATE_OPEN"
proof -
  obtain s where s: "session_reachable 0 s" "sr_live s = [(''s1'', 0)]" by (rule one_opened)
  with concurrent_opens_agree [OF s(1)] have "entry_matches (sr_table s) 0 ''s1''" by simp
  with s(2) show ?thesis unfolding entry_matches_def by blast
qed

section \<open>The table as a directory\<close>


















end
