(* ===== verification/GaloisField.thy ===== *)
theory GaloisField
  imports Prelude
begin

text \<open>
  The field GF(2^8) modulo x^8 + x^4 + x^3 + x^2 + 1 (0x11d), the arithmetic of the erasure-code library
  the receiver links: sums, the product, and the facts of linear algebra that decoding rests on.
\<close>

section \<open>Sums\<close>

primrec gsum :: "(nat \<Rightarrow> u8) \<Rightarrow> nat \<Rightarrow> u8" where
  "gsum f 0 = 0"
| "gsum f (Suc n) = gsum f n XOR f n"

lemma gsum_cong: "(\<And>i. i < n \<Longrightarrow> f i = g i) \<Longrightarrow> gsum f n = gsum g n"
  by (induction n) simp_all

lemma gsum_zero [simp]: "gsum (\<lambda>_. 0) n = 0"
  by (induction n) simp_all

lemma gsum_xor: "gsum (\<lambda>i. f i XOR g i) n = gsum f n XOR gsum g n"
  by (induction n) (simp_all add: xor.assoc xor.left_commute)

lemma gsum_swap: "gsum (\<lambda>i. gsum (\<lambda>j. f i j) m) n = gsum (\<lambda>j. gsum (\<lambda>i. f i j) n) m"
  by (induction n) (simp_all add: gsum_xor)

lemma gsum_shift: "gsum f (Suc n) = f 0 XOR gsum (\<lambda>i. f (Suc i)) n"
  by (induction n) (simp_all add: xor.assoc)

lemma gsum_delta: "i < n \<Longrightarrow> gsum (\<lambda>j. if j = i then x else 0) n = x"
proof (induction n)
  case (Suc n)
  have "gsum (\<lambda>j. if j = n then x else 0) n = gsum (\<lambda>_. 0) n" by (rule gsum_cong) simp
  with Suc show ?case by (cases "i = n") auto
qed simp

lemma additive_gsum:
  assumes "h 0 = 0" and "\<And>x y. h (x XOR y) = h x XOR h y"
  shows "h (gsum f n) = gsum (\<lambda>i. h (f i)) n"
  by (induction n) (simp_all add: assms)

section \<open>The product\<close>

definition xtime :: "u8 \<Rightarrow> u8" where
  "xtime a = push_bit 1 a XOR (if bit a 7 then 0x1D else 0)"

definition gf_mul :: "u8 \<Rightarrow> u8 \<Rightarrow> u8" where
  "gf_mul a b = gsum (\<lambda>i. if bit b i then (xtime ^^ i) a else 0) 8"

lemma xtime_0 [simp]: "xtime 0 = 0"
  by (simp add: xtime_def)

lemma xtime_xor: "xtime (a XOR b) = xtime a XOR xtime b"
  by (auto simp: xtime_def push_bit_xor bit_xor_iff xor.assoc xor.left_commute)

lemma xtimes_0 [simp]: "(xtime ^^ n) 0 = 0"
  by (induction n) simp_all

lemma xtimes_xor: "(xtime ^^ n) (a XOR b) = (xtime ^^ n) a XOR (xtime ^^ n) b"
  by (induction n) (simp_all add: xtime_xor)

lemma gf_mul_zero [simp]: "gf_mul 0 b = 0" "gf_mul a 0 = 0"
  by (simp_all add: gf_mul_def cong: if_cong)

lemma gf_mul_xor_right: "gf_mul a (b XOR c) = gf_mul a b XOR gf_mul a c"
  unfolding gf_mul_def by (subst gsum_xor [symmetric]) (rule gsum_cong, auto simp: bit_xor_iff)

lemma gf_mul_xor_left: "gf_mul (a XOR b) c = gf_mul a c XOR gf_mul b c"
  unfolding gf_mul_def by (subst gsum_xor [symmetric]) (rule gsum_cong, auto simp: xtimes_xor)

lemma gf_mul_gsum_right: "gf_mul c (gsum f n) = gsum (\<lambda>i. gf_mul c (f i)) n"
  by (rule additive_gsum) (simp_all add: gf_mul_xor_right)

lemma gf_mul_gsum_left: "gf_mul (gsum f n) c = gsum (\<lambda>i. gf_mul (f i) c) n"
  by (rule additive_gsum [where h = "\<lambda>x. gf_mul x c"]) (simp_all add: gf_mul_xor_left)

lemma xtime_gsum: "xtime (gsum f n) = gsum (\<lambda>i. xtime (f i)) n"
  by (rule additive_gsum) (simp_all add: xtime_xor)

lemma bit_xtime: "bit (xtime a) i \<longleftrightarrow> (0 < i \<and> i < 8 \<and> bit a (i - 1)) \<noteq> (bit a 7 \<and> bit (0x1D :: u8) i)"
proof -
  have "bit (push_bit 1 a) i \<longleftrightarrow> 0 < i \<and> i < 8 \<and> bit a (i - 1)"
    by (subst bit_push_bit_iff) (auto dest: bit_imp_le_length)
  then show ?thesis by (simp only: xtime_def bit_xor_iff bit_0_eq bot_apply split: if_split) auto
qed

lemma bits_1D: "bit (0x1D :: u8) i \<longleftrightarrow> i = 0 \<or> i = 2 \<or> i = 3 \<or> i = 4"
proof (cases "i < 8")
  case True
  then show ?thesis by (auto simp: less_Suc_eq numeral_eq_Suc bit_Suc)
next
  case False
  then show ?thesis by (auto simp: bit_word_ge)
qed

lemma upto_8: "i < 8 \<longleftrightarrow> i = 0 \<or> i = 1 \<or> i = 2 \<or> i = 3 \<or> i = 4 \<or> i = 5 \<or> i = 6 \<or> i = (7 :: nat)"
  by auto

text \<open>x^8 = x^4 + x^3 + x^2 + 1.\<close>

lemma xtime_8: "(xtime ^^ 8) a = (xtime ^^ 4) a XOR (xtime ^^ 3) a XOR (xtime ^^ 2) a XOR a"
proof (rule bit_word_eqI)
  fix i assume "i < LENGTH(8)"
  then have "i = 0 \<or> i = 1 \<or> i = 2 \<or> i = 3 \<or> i = 4 \<or> i = 5 \<or> i = 6 \<or> i = 7" by auto
  then show "bit ((xtime ^^ 8) a) i = bit ((xtime ^^ 4) a XOR (xtime ^^ 3) a XOR (xtime ^^ 2) a XOR a) i"
    by (elim disjE) (simp_all add: bit_xtime bit_xor_iff bits_1D eval_nat_numeral, argo+)
qed

lemma gsum_8: "gsum f 8 = f 0 XOR f 1 XOR f 2 XOR f 3 XOR f 4 XOR f 5 XOR f 6 XOR f 7"
  by (simp add: eval_nat_numeral xor.assoc)

lemma gf_mul_1 [simp]: "gf_mul 1 x = x"
proof (rule bit_word_eqI)
  fix i assume "i < LENGTH(8)"
  have pow: "(xtime ^^ j) 1 = 2 ^ j" if "j < 8" for j
    using that
  proof (induction j)
    case (Suc j)
    have "\<not> bit (2 ^ j :: u8) 7" using Suc.prems by (auto simp: bit_exp_iff)
    with Suc show ?case by (simp add: xtime_def push_bit_eq_mult)
  qed simp
  have "gf_mul 1 x = gsum (\<lambda>j. if bit x j then 2 ^ j else 0) 8"
    unfolding gf_mul_def by (rule gsum_cong) (simp add: pow)
  moreover have "bit (if c then 2 ^ j else 0 :: u8) i \<longleftrightarrow> c \<and> j < 8 \<and> i = j" for c j
    by (auto simp: bit_exp_iff)
  moreover have "i = 0 \<or> i = 1 \<or> i = 2 \<or> i = 3 \<or> i = 4 \<or> i = 5 \<or> i = 6 \<or> i = 7"
    using \<open>i < LENGTH(8)\<close> by auto
  ultimately show "bit (gf_mul 1 x) i = bit x i"
    by (simp only: gsum_8 bit_xor_iff) (elim disjE; simp)
qed

lemma gf_mul_of_1 [simp]: "gf_mul a 1 = a"
  by (simp add: gf_mul_def gsum_8 bit_1_iff)

lemma gf_mul_1D: "gf_mul a 0x1D = (xtime ^^ 8) a"
  by (simp only: gf_mul_def gsum_8 bits_1D xtime_8) (simp add: ac_simps)

text \<open>The product with x on either side.\<close>

lemma gf_mul_xtime_right: "gf_mul a (xtime b) = xtime (gf_mul a b)"
proof -
  let ?g = "\<lambda>i. if bit b i then (xtime ^^ Suc i) a else 0"
  have push: "gf_mul a (push_bit 1 b) = gsum ?g 7"
  proof -
    have bit: "bit (push_bit 1 b) i \<longleftrightarrow> 0 < i \<and> i < 8 \<and> bit b (i - 1)" for i
      by (subst bit_push_bit_iff) (auto dest: bit_imp_le_length)
    have "gf_mul a (push_bit 1 b) = gsum (\<lambda>i. if bit (push_bit 1 b) i then (xtime ^^ i) a else 0) (Suc 7)"
      by (simp add: gf_mul_def)
    also have "\<dots> = gsum (\<lambda>i. if bit (push_bit 1 b) (Suc i) then (xtime ^^ Suc i) a else 0) 7"
      by (simp only: gsum_shift bit) simp
    also have "\<dots> = gsum ?g 7" by (rule gsum_cong) (simp add: bit)
    finally show ?thesis .
  qed
  have "xtime (gf_mul a b) = gsum ?g (Suc 7)"
    unfolding gf_mul_def xtime_gsum by (simp, rule gsum_cong) simp
  also have "\<dots> = gsum ?g 7 XOR (if bit b 7 then (xtime ^^ 8) a else 0)"
    by (simp only: gsum.simps) simp
  finally show ?thesis
    by (simp only: xtime_def [of b] gf_mul_xor_right push) (simp add: gf_mul_1D)
qed

lemma gf_mul_assoc: "gf_mul (gf_mul a b) c = gf_mul a (gf_mul b c)"
proof -
  have "gf_mul a ((xtime ^^ i) b) = (xtime ^^ i) (gf_mul a b)" for i
    by (induction i) (simp_all add: gf_mul_xtime_right)
  then show ?thesis
    unfolding gf_mul_def [of _ c] gf_mul_gsum_right by (intro gsum_cong) simp
qed

section \<open>Matrices as row-major lists\<close>

definition mat_mul_entry :: "u8 list \<Rightarrow> u8 list \<Rightarrow> nat \<Rightarrow> nat \<Rightarrow> nat \<Rightarrow> u8" where
  "mat_mul_entry A B k i l = gsum (\<lambda>j. gf_mul (A ! (i * k + j)) (B ! (j * k + l))) k"

text \<open>If A B is the identity, then A undoes B on every vector.\<close>

lemma left_inverse_solves:
  assumes "\<And>l. l < k \<Longrightarrow> mat_mul_entry A B k i l = (if i = l then 1 else 0)" and "i < k"
  shows "gsum (\<lambda>j. gf_mul (A ! (i * k + j)) (gsum (\<lambda>l. gf_mul (B ! (j * k + l)) (v l)) k)) k = v i"
proof -
  have "gsum (\<lambda>j. gf_mul (A ! (i * k + j)) (gsum (\<lambda>l. gf_mul (B ! (j * k + l)) (v l)) k)) k
      = gsum (\<lambda>j. gsum (\<lambda>l. gf_mul (gf_mul (A ! (i * k + j)) (B ! (j * k + l))) (v l)) k) k"
    by (simp add: gf_mul_gsum_right gf_mul_assoc)
  also have "\<dots> = gsum (\<lambda>l. gf_mul (mat_mul_entry A B k i l) (v l)) k"
    by (subst gsum_swap) (simp add: mat_mul_entry_def gf_mul_gsum_left)
  also have "\<dots> = gsum (\<lambda>l. if l = i then v i else 0) k"
    by (rule gsum_cong) (auto simp: assms(1))
  finally show ?thesis using assms(2) by (simp add: gsum_delta)
qed

lemma nth_concat_rows:
  assumes "\<forall>x\<in>set xs. length x = k" and "r < length xs" and "j < k"
  shows "concat xs ! (r * k + j) = xs ! r ! j"
  using assms
proof (induction xs arbitrary: r)
  case (Cons x xs)
  then show ?case by (cases r) (auto simp: nth_append)
qed simp

lemma length_concat_rows: "\<forall>x\<in>set xs. length x = k \<Longrightarrow> length (concat xs) = length xs * k"
  by (induction xs) auto

end
