(* ===== verification/RsCodec.thy ===== *)
theory RsCodec
  imports GaloisField
begin

text \<open>
  \<^verbatim>\<open>src/receiver/rs_codec.cpp\<close>: the erasure codec.  The four functions of the erasure-code library are
  parameters (\<open>isal\<close>); what the code relies on is stated as \<open>isal_documented\<close> (matrix application and
  inversion over GF(2^8)) and \<open>cauchy_documented\<close> (the shape of the generated matrix, and that any k of
  its rows are invertible).  Buffers are lists; an absent symbol's entry is never read.
\<close>

section \<open>Library interface\<close>

text \<open>Arguments: (n, k); (matrix, k) to (status, inverse); (k, rows, matrix); (len, k, rows, tables, sources).\<close>

record isal =
  gf_gen_cauchy1_matrix :: "nat \<Rightarrow> nat \<Rightarrow> u8 list"
  gf_invert_matrix :: "u8 list \<Rightarrow> nat \<Rightarrow> int \<times> u8 list"
  ec_init_tables :: "nat \<Rightarrow> nat \<Rightarrow> u8 list \<Rightarrow> u8 list"
  ec_encode_data :: "nat \<Rightarrow> nat \<Rightarrow> nat \<Rightarrow> u8 list \<Rightarrow> u8 list list \<Rightarrow> u8 list list"

definition mat_apply :: "nat \<Rightarrow> nat \<Rightarrow> nat \<Rightarrow> u8 list \<Rightarrow> u8 list list \<Rightarrow> u8 list list" where
  "mat_apply len k rows M src =
     map (\<lambda>i. map (\<lambda>p. gsum (\<lambda>j. gf_mul (M ! (i * k + j)) (src ! j ! p)) k) [0..<len]) [0..<rows]"

definition isal_documented :: "isal \<Rightarrow> bool" where
  "isal_documented lib \<longleftrightarrow>
     (\<forall>len k rows M src. length M = rows * k \<longrightarrow> length src = k \<longrightarrow> (\<forall>s\<in>set src. length s = len) \<longrightarrow>
        ec_encode_data lib len k rows (ec_init_tables lib k rows M) src = mat_apply len k rows M src) \<and>
     (\<forall>M k inv. length M = k * k \<longrightarrow> gf_invert_matrix lib M k = (0, inv) \<longrightarrow>
        length inv = k * k \<and> (\<forall>i<k. \<forall>l<k. mat_mul_entry inv M k i l = (if i = l then 1 else 0)))"

definition mat_row :: "u8 list \<Rightarrow> nat \<Rightarrow> nat \<Rightarrow> u8 list" where
  "mat_row M k i = take k (drop (i * k) M)"

definition cauchy_documented :: "isal \<Rightarrow> nat \<Rightarrow> nat \<Rightarrow> bool" where
  "cauchy_documented lib n k \<longleftrightarrow>
     (let E = gf_gen_cauchy1_matrix lib n k
      in length E = n * k \<and> (\<forall>i<k. \<forall>j<k. E ! (i * k + j) = (if i = j then 1 else 0)) \<and>
         (\<forall>rs. length rs = k \<longrightarrow> distinct rs \<longrightarrow> (\<forall>r\<in>set rs. r < n) \<longrightarrow>
            fst (gf_invert_matrix lib (concat (map (mat_row E k) rs)) k) = 0))"

section \<open>The codec\<close>

record RsCodec =
  rs_k :: u32
  rs_n :: u32
  rs_symbol_bytes :: u32
  encode_matrix :: "u8 list"

definition new_codec :: "isal \<Rightarrow> u32 \<Rightarrow> u32 \<Rightarrow> u32 \<Rightarrow> RsCodec" where
  "new_codec lib k n symbol_bytes =
     \<lparr>rs_k = k, rs_n = n, rs_symbol_bytes = symbol_bytes,
      encode_matrix = gf_gen_cauchy1_matrix lib (unat n) (unat k)\<rparr>"

text \<open>The loop that collects the first k present symbols.\<close>

fun collect_chosen :: "nat \<Rightarrow> bool list \<Rightarrow> nat list \<Rightarrow> nat list \<Rightarrow> nat list" where
  "collect_chosen k present chosen [] = chosen"
| "collect_chosen k present chosen (i # is) =
     (if length chosen < k then collect_chosen k present (if present ! i then chosen @ [i] else chosen) is
      else chosen)"

definition rs_decode :: "isal \<Rightarrow> RsCodec \<Rightarrow> u8 list list \<Rightarrow> bool list \<Rightarrow> u8 list option" where
  "rs_decode lib c symbols present =
     (let k = unat (rs_k c); n = unat (rs_n c); symbol_bytes = unat (rs_symbol_bytes c)
      in if list_all (\<lambda>i. present ! i) [0..<k]
         then Some (concat (map (\<lambda>i. take symbol_bytes (symbols ! i)) [0..<k]))
         else
           let chosen = collect_chosen k present [] [0..<n]
           in if length chosen < k then None
           else
             let sub_matrix = concat (map (\<lambda>r. mat_row (encode_matrix c) k (chosen ! r)) [0..<k])
             in case gf_invert_matrix lib sub_matrix k of (status, decode_matrix) \<Rightarrow>
                if status \<noteq> 0 then None
                else
                  let tables = ec_init_tables lib k k decode_matrix;
                      src = map (\<lambda>r. symbols ! (chosen ! r)) [0..<k]
                  in Some (concat (ec_encode_data lib symbol_bytes k k tables src)))"

definition encode_for_testing :: "isal \<Rightarrow> RsCodec \<Rightarrow> u8 list list \<Rightarrow> u8 list list" where
  "encode_for_testing lib c data_symbols =
     (let k = unat (rs_k c); p = unat (rs_n c - rs_k c);
          tables = ec_init_tables lib k p (drop (k * k) (encode_matrix c));
          src = map (\<lambda>i. data_symbols ! i) [0..<k]
      in ec_encode_data lib (unat (rs_symbol_bytes c)) k p tables src)"

section \<open>Decoding recovers the data\<close>

lemma collect_chosen_eq:
  "length chosen \<le> k \<Longrightarrow> collect_chosen k present chosen is = take k (chosen @ filter (\<lambda>i. present ! i) is)"
  by (induction "is" arbitrary: chosen) (auto simp: take_Cons')

lemma mat_row_nth:
  "length M = n * k \<Longrightarrow> i < n \<Longrightarrow> j < k \<Longrightarrow> mat_row M k i ! j = M ! (i * k + j)"
  "length M = n * k \<Longrightarrow> i < n \<Longrightarrow> length (mat_row M k i) = k"
proof -
  assume "length M = n * k" "i < n"
  moreover from this have "i * k + k \<le> n * k" by (metis Suc_leI add.commute mult_Suc mult_le_mono1)
  ultimately show "length (mat_row M k i) = k" "j < k \<Longrightarrow> mat_row M k i ! j = M ! (i * k + j)"
    by (simp_all add: mat_row_def)
qed

lemma cauchy_matrix:
  assumes "cauchy_documented lib n k"
  shows "length (gf_gen_cauchy1_matrix lib n k) = n * k"
    and "i < k \<Longrightarrow> j < k \<Longrightarrow> gf_gen_cauchy1_matrix lib n k ! (i * k + j) = (if i = j then 1 else 0)"
    and "length rs = k \<Longrightarrow> distinct rs \<Longrightarrow> \<forall>r\<in>set rs. r < n \<Longrightarrow>
         fst (gf_invert_matrix lib (concat (map (mat_row (gf_gen_cauchy1_matrix lib n k) k) rs)) k) = 0"
  using assms unfolding cauchy_documented_def Let_def by blast+

lemma encode_parity:
  assumes "isal_documented lib" and "cauchy_documented lib (unat n) (unat k)"
    and "length d = unat k" "\<forall>s\<in>set d. length s = unat sb" and "k \<le> n"
  shows "encode_for_testing lib (new_codec lib k n sb) d =
     mat_apply (unat sb) (unat k) (unat n - unat k) (drop (unat k * unat k) (gf_gen_cauchy1_matrix lib (unat n) (unat k))) d"
proof -
  let ?M = "drop (unat k * unat k) (gf_gen_cauchy1_matrix lib (unat n) (unat k))"
  have pn: "unat (n - k) = unat n - unat k" using assms(5) by (simp add: unat_sub)
  have d: "map (\<lambda>i. d ! i) [0..<unat k] = d" using assms(3) map_nth [of d] by simp
  have "length ?M = (unat n - unat k) * unat k" using cauchy_matrix(1) [OF assms(2)] by (simp add: diff_mult_distrib)
  then have "ec_encode_data lib (unat sb) (unat k) (unat n - unat k) (ec_init_tables lib (unat k) (unat n - unat k) ?M) d
      = mat_apply (unat sb) (unat k) (unat n - unat k) ?M d"
    using assms(1,3,4) unfolding isal_documented_def by blast
  then show ?thesis by (simp add: encode_for_testing_def new_codec_def Let_def pn d)
qed

text \<open>Every transmitted symbol, data or parity, is its row of the encode matrix applied to the data.\<close>

lemma encoded_symbol:
  assumes doc: "isal_documented lib" and gen: "cauchy_documented lib (unat n) (unat k)"
    and data: "length d = unat k" "\<forall>s\<in>set d. length s = unat sb" and kn: "k \<le> n" and i: "i < unat n"
  shows "length ((d @ encode_for_testing lib (new_codec lib k n sb) d) ! i) = unat sb"
    and "p < unat sb \<Longrightarrow> (d @ encode_for_testing lib (new_codec lib k n sb) d) ! i ! p =
         gsum (\<lambda>j. gf_mul (gf_gen_cauchy1_matrix lib (unat n) (unat k) ! (i * unat k + j)) (d ! j ! p)) (unat k)"
proof -
  let ?E = "gf_gen_cauchy1_matrix lib (unat n) (unat k)" and ?k = "unat k"
  note par = encode_parity [OF doc gen data kn]
  show "length ((d @ encode_for_testing lib (new_codec lib k n sb) d) ! i) = unat sb"
    unfolding par using data i by (simp add: nth_append mat_apply_def)
  assume p: "p < unat sb"
  show "(d @ encode_for_testing lib (new_codec lib k n sb) d) ! i ! p =
         gsum (\<lambda>j. gf_mul (?E ! (i * ?k + j)) (d ! j ! p)) ?k"
  proof (cases "i < ?k")
    case True
    have "gsum (\<lambda>j. gf_mul (?E ! (i * ?k + j)) (d ! j ! p)) ?k = gsum (\<lambda>j. if j = i then d ! i ! p else 0) ?k"
      by (rule gsum_cong) (simp add: cauchy_matrix(2) [OF gen True])
    with True data(1) show ?thesis by (simp add: nth_append gsum_delta)
  next
    case False
    then have "?k * ?k \<le> i * ?k" by (simp add: mult_le_mono1)
    with diff_mult_distrib [of i ?k ?k] have at: "?k * ?k + ((i - ?k) * ?k + j) = i * ?k + j" for j by linarith
    have "?k * ?k \<le> length ?E" using kn cauchy_matrix(1) [OF gen] by (simp add: word_le_nat_alt)
    then have "drop (?k * ?k) ?E ! ((i - ?k) * ?k + j) = ?E ! (i * ?k + j)" for j by (simp add: at)
    then show ?thesis unfolding par using False i p data(1) by (simp add: nth_append mat_apply_def)
  qed
qed

lemma concat_map_take: "length d = k \<Longrightarrow> \<forall>s\<in>set d. length s = m \<Longrightarrow> concat (map (\<lambda>i. take m (d ! i)) [0..<k]) = concat d"
proof -
  assume a: "length d = k" "\<forall>s\<in>set d. length s = m"
  have "map (\<lambda>i. take m (d ! i)) [0..<k] = d" by (rule nth_equalityI) (use a in auto)
  then show ?thesis by simp
qed

text \<open>Inverting the chosen rows and applying the inverse to their symbols gives back the data.\<close>

lemma chosen_rows_solve:
  assumes doc: "isal_documented lib" and gen: "cauchy_documented lib (unat n) (unat k)"
    and data: "length d = unat k" "\<forall>s\<in>set d. length s = unat sb" and kn: "k \<le> n"
    and rs: "length rs = unat k" "distinct rs" "\<forall>r\<in>set rs. r < unat n"
    and src: "length src = unat k"
      "\<And>r. r < unat k \<Longrightarrow> src ! r = (d @ encode_for_testing lib (new_codec lib k n sb) d) ! (rs ! r)"
    and sub: "sub = concat (map (mat_row (gf_gen_cauchy1_matrix lib (unat n) (unat k)) (unat k)) rs)"
  obtains inv where "gf_invert_matrix lib sub (unat k) = (0, inv)"
    and "ec_encode_data lib (unat sb) (unat k) (unat k) (ec_init_tables lib (unat k) (unat k) inv) src = d"
proof -
  let ?k = "unat k" and ?sb = "unat sb" and ?E = "gf_gen_cauchy1_matrix lib (unat n) (unat k)"
  note E = cauchy_matrix [OF gen]
  have rowlen: "\<forall>x\<in>set (map (mat_row ?E ?k) rs). length x = ?k" using rs(3) mat_row_nth(2) [OF E(1)] by auto
  have sublen: "length sub = ?k * ?k" unfolding sub using length_concat_rows [OF rowlen] rs(1) by simp
  have subnth: "sub ! (r * ?k + j) = ?E ! (rs ! r * ?k + j)" if "r < ?k" "j < ?k" for r j
    unfolding sub using nth_concat_rows [OF rowlen, of r j] that rs mat_row_nth(1) [OF E(1)] by simp
  have "fst (gf_invert_matrix lib sub ?k) = 0" unfolding sub by (rule E(3) [OF rs])
  then obtain inv where inv: "gf_invert_matrix lib sub ?k = (0, inv)" by (metis prod.collapse)
  have invM: "length inv = ?k * ?k" "\<And>i l. i < ?k \<Longrightarrow> l < ?k \<Longrightarrow> mat_mul_entry inv sub ?k i l = (if i = l then 1 else 0)"
    using doc sublen inv unfolding isal_documented_def by blast+
  have len: "\<forall>s\<in>set src. length s = ?sb"
    using src rs encoded_symbol(1) [OF doc gen data kn] by (simp add: all_set_conv_all_nth)
  have sp: "src ! j ! p = gsum (\<lambda>l. gf_mul (sub ! (j * ?k + l)) (d ! l ! p)) ?k" if "j < ?k" "p < ?sb" for j p
  proof -
    have "rs ! j < unat n" using rs that(1) by simp
    then show ?thesis
      unfolding src(2) [OF that(1)] encoded_symbol(2) [OF doc gen data kn \<open>rs ! j < unat n\<close> that(2)]
      by (intro gsum_cong) (simp add: subnth [OF that(1)])
  qed
  have "mat_apply ?sb ?k ?k inv src ! i ! p = d ! i ! p" if i: "i < ?k" and p: "p < ?sb" for i p
  proof -
    have "mat_apply ?sb ?k ?k inv src ! i ! p = gsum (\<lambda>j. gf_mul (inv ! (i * ?k + j)) (src ! j ! p)) ?k"
      using i p by (simp add: mat_apply_def)
    also have "\<dots> = gsum (\<lambda>j. gf_mul (inv ! (i * ?k + j)) (gsum (\<lambda>l. gf_mul (sub ! (j * ?k + l)) (d ! l ! p)) ?k)) ?k"
      by (rule gsum_cong) (simp add: sp p)
    also have "\<dots> = d ! i ! p" by (rule left_inverse_solves [OF invM(2) i]) (use i in simp_all)
    finally show ?thesis .
  qed
  then have "mat_apply ?sb ?k ?k inv src = d"
    using data by (intro nth_equalityI) (auto simp: mat_apply_def intro!: nth_equalityI)
  moreover have "ec_encode_data lib ?sb ?k ?k (ec_init_tables lib ?k ?k inv) src = mat_apply ?sb ?k ?k inv src"
    using doc invM(1) src(1) len unfolding isal_documented_def by blast
  ultimately show ?thesis using inv by (intro that) simp_all
qed

text \<open>The fast path of \<open>decode\<close>: every data symbol is there.\<close>

lemma decode_systematic:
  assumes all: "list_all (\<lambda>i. present ! i) [0..<unat k]" and kn: "k \<le> n"
    and data: "length d = unat k" "\<forall>s\<in>set d. length s = unat sb"
    and sym: "\<forall>i<unat n. present ! i \<longrightarrow> symbols ! i = (d @ parity) ! i"
  shows "rs_decode lib (new_codec lib k n sb) symbols present = Some (concat d)"
    and "unat k \<le> length (filter (\<lambda>i. present ! i) [0..<unat n])"
proof -
  have le: "unat k \<le> unat n" using kn by (simp add: word_le_nat_alt)
  have p: "present ! i" if "i < unat k" for i using that all by (simp add: list_all_iff)
  have "symbols ! i = d ! i" if "i < unat k" for i
    using sym p [OF that] that le data(1) by (simp add: nth_append)
  then have "concat (map (\<lambda>i. take (unat sb) (symbols ! i)) [0..<unat k]) = concat (map (\<lambda>i. take (unat sb) (d ! i)) [0..<unat k])"
    by (intro arg_cong [where f = concat] map_cong) simp_all
  then show "rs_decode lib (new_codec lib k n sb) symbols present = Some (concat d)"
    using all concat_map_take [OF data] by (simp add: rs_decode_def new_codec_def Let_def)
  have "[0..<unat n] = [0..<unat k] @ [unat k..<unat n]" using le by (metis le_add_diff_inverse upt_add_eq_append zero_le)
  moreover have "filter (\<lambda>i. present ! i) [0..<unat k] = [0..<unat k]" using p by (simp add: filter_id_conv)
  ultimately show "unat k \<le> length (filter (\<lambda>i. present ! i) [0..<unat n])" by simp
qed

lemma any_k_lemma:
  assumes doc: "isal_documented lib" and gen: "cauchy_documented lib (unat n) (unat k)"
    and data: "length d = unat k" "\<forall>s\<in>set d. length s = unat sb" and kn: "k \<le> n"
    and sym: "\<forall>i<unat n. present ! i \<longrightarrow> symbols ! i = (d @ encode_for_testing lib (new_codec lib k n sb) d) ! i"
  shows "rs_decode lib (new_codec lib k n sb) symbols present =
     (if unat k \<le> length (filter (\<lambda>i. present ! i) [0..<unat n]) then Some (concat d) else None)"
proof -
  let ?k = "unat k" and ?n = "unat n" and ?sb = "unat sb" and ?E = "gf_gen_cauchy1_matrix lib (unat n) (unat k)"
  let ?parity = "encode_for_testing lib (new_codec lib k n sb) d"
  let ?have = "filter (\<lambda>i. present ! i) [0..<?n]"
  show ?thesis
  proof (cases "list_all (\<lambda>i. present ! i) [0..<?k]")
    case True
    then show ?thesis using decode_systematic [OF True kn data sym] by simp
  next
    case missing: False
    have chosen: "collect_chosen ?k present [] [0..<?n] = take ?k ?have" by (simp add: collect_chosen_eq)
    show ?thesis
    proof (cases "?k \<le> length ?have")
      case False
      with missing show ?thesis by (simp add: rs_decode_def new_codec_def Let_def chosen)
    next
      case True
      define rs where "rs = take ?k ?have"
      have rs: "length rs = ?k" "distinct rs" "\<forall>r\<in>set rs. r < ?n \<and> present ! r"
        using True by (auto simp: rs_def dest: in_set_takeD)
      define sub where "sub = concat (map (mat_row ?E ?k) rs)"
      define src where "src = map (\<lambda>r. symbols ! (rs ! r)) [0..<?k]"
      have rows: "map (\<lambda>r. mat_row ?E ?k (rs ! r)) [0..<?k] = map (mat_row ?E ?k) rs"
        by (rule nth_equalityI) (simp_all add: rs(1))
      have "length src = ?k" "\<And>r. r < ?k \<Longrightarrow> src ! r = (d @ ?parity) ! (rs ! r)"
        using sym rs by (simp_all add: src_def)
      then obtain inv where inv: "gf_invert_matrix lib sub ?k = (0, inv)"
        and out: "ec_encode_data lib ?sb ?k ?k (ec_init_tables lib ?k ?k inv) src = d"
        using chosen_rows_solve [OF doc gen data kn rs(1,2) _ _ _ sub_def] rs(3) by metis
      with missing True show ?thesis
        by (simp add: rs_decode_def new_codec_def Let_def chosen rs_def [symmetric] rs(1) rows sub_def [symmetric] src_def [symmetric] inv out)
    qed
  qed
qed

section \<open>The interface of an erasure code\<close>

text \<open>
  What the pipeline relies on: a code c takes the data symbols of a block to a codeword of \<open>width c\<close> symbols,
  and whichever of them are at hand, \<open>need c\<close> of them give the data back and fewer give nothing.
\<close>

locale erasure_code =
  fixes suits :: "'c \<Rightarrow> u8 list list \<Rightarrow> bool" and need :: "'c \<Rightarrow> nat" and width :: "'c \<Rightarrow> nat"
    and codeword :: "'c \<Rightarrow> u8 list list \<Rightarrow> u8 list list"
    and decode :: "'c \<Rightarrow> u8 list list \<Rightarrow> bool list \<Rightarrow> u8 list option"
  assumes any_need: "suits c d \<Longrightarrow> \<forall>i<width c. present ! i \<longrightarrow> symbols ! i = codeword c d ! i \<Longrightarrow>
     decode c symbols present =
       (if need c \<le> length (filter (\<lambda>i. present ! i) [0..<width c]) then Some (concat d) else None)"
begin

lemma decoded_is_data:
  "suits c d \<Longrightarrow> \<forall>i<width c. present ! i \<longrightarrow> symbols ! i = codeword c d ! i \<Longrightarrow>
   decode c symbols present = Some out \<Longrightarrow> out = concat d"
  using any_need [of c d present symbols] by (simp split: if_splits)

lemma enough_decodes:
  "suits c d \<Longrightarrow> \<forall>i<width c. present ! i \<longrightarrow> symbols ! i = codeword c d ! i \<Longrightarrow>
   need c \<le> length (filter (\<lambda>i. present ! i) [0..<width c]) \<Longrightarrow> decode c symbols present = Some (concat d)"
  using any_need [of c d present symbols] by simp

end

record Coding =
  cd_lib :: isal
  cd_k :: u32
  cd_n :: u32
  cd_symbol_bytes :: u32

definition coding_suits :: "Coding \<Rightarrow> u8 list list \<Rightarrow> bool" where
  "coding_suits c d \<longleftrightarrow>
     isal_documented (cd_lib c) \<and> cauchy_documented (cd_lib c) (unat (cd_n c)) (unat (cd_k c)) \<and> cd_k c \<le> cd_n c \<and>
     length d = unat (cd_k c) \<and> (\<forall>s\<in>set d. length s = unat (cd_symbol_bytes c))"

definition coding_codec :: "Coding \<Rightarrow> RsCodec" where
  "coding_codec c = new_codec (cd_lib c) (cd_k c) (cd_n c) (cd_symbol_bytes c)"

interpretation rs_code: erasure_code coding_suits "\<lambda>c. unat (cd_k c)" "\<lambda>c. unat (cd_n c)"
  "\<lambda>c d. d @ encode_for_testing (cd_lib c) (coding_codec c) d" "\<lambda>c. rs_decode (cd_lib c) (coding_codec c)"
proof
  fix c d present symbols
  assume "coding_suits c d"
    and "\<forall>i<unat (cd_n c). present ! i \<longrightarrow> symbols ! i = (d @ encode_for_testing (cd_lib c) (coding_codec c) d) ! i"
  then show "rs_decode (cd_lib c) (coding_codec c) symbols present =
     (if unat (cd_k c) \<le> length (filter (\<lambda>i. present ! i) [0..<unat (cd_n c)]) then Some (concat d) else None)"
    unfolding coding_codec_def coding_suits_def by (intro any_k_lemma) blast+
qed

text \<open>
  C9: any k symbols recover the block.  For data of k symbols, encoded as the sender does (the data
  symbols followed by \<open>encode_for_testing\<close>'s parity), \<open>decode\<close> returns true with exactly the data whenever
  at least k of the n symbols are present, whichever they are and whatever the absent entries hold; with
  fewer it returns false.
\<close>

theorem decode_recovers_data:
  assumes doc: "isal_documented lib" and gen: "cauchy_documented lib (unat n) (unat k)"
    and data: "length d = unat k" "\<forall>s\<in>set d. length s = unat sb" and kn: "k \<le> n"
    and sym: "\<forall>i<unat n. present ! i \<longrightarrow> symbols ! i = (d @ encode_for_testing lib (new_codec lib k n sb) d) ! i"
  shows "rs_decode lib (new_codec lib k n sb) symbols present =
     (if unat k \<le> length (filter (\<lambda>i. present ! i) [0..<unat n]) then Some (concat d) else None)"
  using rs_code.any_need [of "\<lparr>cd_lib = lib, cd_k = k, cd_n = n, cd_symbol_bytes = sb\<rparr>" d present symbols] assms
  by (simp add: coding_suits_def coding_codec_def)

text \<open>A library instance for one data symbol and one parity symbol: the encode matrix is (1, 1).\<close>

definition isal_1_1 :: isal where
  "isal_1_1 = \<lparr>gf_gen_cauchy1_matrix = (\<lambda>n k. replicate n 1),
     gf_invert_matrix = (\<lambda>M k. if k = 1 \<and> M = [1] then (0, [1]) else (-1, M)),
     ec_init_tables = (\<lambda>k rows M. M), ec_encode_data = (\<lambda>len k rows M src. mat_apply len k rows M src)\<rparr>"

lemma isal_1_1_documented: "isal_documented isal_1_1"
  by (auto simp: isal_documented_def isal_1_1_def mat_mul_entry_def split: if_splits)

lemma isal_1_1_cauchy: "cauchy_documented isal_1_1 2 1"
proof -
  have "concat (map (mat_row [1, 1] 1) rs) = [1]" if one: "length rs = 1" "\<forall>r\<in>set rs. r < 2" for rs
  proof -
    obtain r where "rs = [r]" using one(1) by (auto simp: length_Suc_conv)
    with one(2) show ?thesis by (auto simp: mat_row_def less_Suc_eq numeral_2_eq_2)
  qed
  then show ?thesis by (simp add: cauchy_documented_def Let_def isal_1_1_def numeral_2_eq_2)
qed

text \<open>Multiplication and inversion in the field, unfolded for evaluation.\<close>

definition gf_inv :: "u8 \<Rightarrow> u8" where
  "gf_inv x =
     (let s = gf_mul x x; p = s; s = gf_mul s s; p = gf_mul p s; s = gf_mul s s; p = gf_mul p s; s = gf_mul s s; p = gf_mul p s;
          s = gf_mul s s; p = gf_mul p s; s = gf_mul s s; p = gf_mul p s; s = gf_mul s s
      in gf_mul p s)"

lemma gf_mul_unfold:
  "gf_mul a b = (if bit b 0 then a else 0) XOR (if bit b 1 then xtime a else 0) XOR (if bit b 2 then xtime (xtime a) else 0) XOR
     (if bit b 3 then xtime (xtime (xtime a)) else 0) XOR (if bit b 4 then xtime (xtime (xtime (xtime a))) else 0) XOR
     (if bit b 5 then xtime (xtime (xtime (xtime (xtime a)))) else 0) XOR
     (if bit b 6 then xtime (xtime (xtime (xtime (xtime (xtime a))))) else 0) XOR
     (if bit b 7 then xtime (xtime (xtime (xtime (xtime (xtime (xtime a)))))) else 0)"
  unfolding gf_mul_def by (simp add: eval_nat_numeral ac_simps)

lemmas gf_eval = gf_mul_unfold xtime_def

lemma gf_inv_small: "gf_inv 1 = 1" "gf_inv 2 = 0x8E" "gf_inv 3 = 0xF4" "gf_inv 0x8E = 2" "gf_inv 0xF4 = 3"
  unfolding gf_inv_def by (simp_all add: gf_eval Let_def cong: let_weak_cong)

text \<open>
  A library instance for up to two data symbols: the Cauchy matrix as the library documents it, inversion by the
  determinant, which succeeds only when the result is an inverse.
\<close>

definition small_inverse :: "u8 list \<Rightarrow> nat \<Rightarrow> u8 list" where
  "small_inverse M k =
     (if k = 1 then [gf_inv (M ! 0)]
      else if k = 2 then
        (let r = gf_inv (gf_mul (M ! 0) (M ! 3) XOR gf_mul (M ! 1) (M ! 2))
         in [gf_mul r (M ! 3), gf_mul r (M ! 1), gf_mul r (M ! 2), gf_mul r (M ! 0)])
      else [])"

definition checks_inverse :: "u8 list \<Rightarrow> u8 list \<Rightarrow> nat \<Rightarrow> bool" where
  "checks_inverse V M k \<longleftrightarrow> length V = k * k \<and>
     list_all (\<lambda>i. list_all (\<lambda>l. mat_mul_entry V M k i l = (if i = l then 1 else 0)) [0..<k]) [0..<k]"

definition isal_small :: isal where
  "isal_small = \<lparr>
     gf_gen_cauchy1_matrix = (\<lambda>n k. concat (map (\<lambda>i. map (\<lambda>j.
        if i < k then (if i = j then 1 else 0) else gf_inv (of_nat i XOR of_nat j)) [0..<k]) [0..<n])),
     gf_invert_matrix = (\<lambda>M k. if checks_inverse (small_inverse M k) M k then (0, small_inverse M k) else (-1, M)),
     ec_init_tables = (\<lambda>k rows M. M), ec_encode_data = (\<lambda>len k rows M src. mat_apply len k rows M src)\<rparr>"

lemma isal_small_documented: "isal_documented isal_small"
  by (auto simp: isal_documented_def isal_small_def checks_inverse_def list_all_iff split: if_splits)

lemma upto_small: "[0..<3] = [0, 1, 2 :: nat]" "[0..<2] = [0, 1 :: nat]"
  by (simp_all add: upt_rec)

lemma cauchy_3_2: "gf_gen_cauchy1_matrix isal_small 3 2 = [1, 0, 0, 1, 0x8E, 0xF4]"
proof -
  have "(2 :: u8) XOR 1 = 3" by simp
  then show ?thesis by (simp add: isal_small_def upto_small gf_inv_small)
qed

lemma inverts_2:
  "checks_inverse (small_inverse M 2) M 2 \<Longrightarrow> fst (gf_invert_matrix isal_small M 2) = 0"
  by (simp add: isal_small_def)

lemma gsum_2: "gsum f 2 = f 0 XOR f 1"
  by (simp add: numeral_2_eq_2)

lemma small_inverts:
  "checks_inverse (small_inverse [1, 0, 0, 1] 2) [1, 0, 0, 1] 2" "checks_inverse (small_inverse [0, 1, 1, 0] 2) [0, 1, 1, 0] 2"
  "checks_inverse (small_inverse [1, 0, 0x8E, 0xF4] 2) [1, 0, 0x8E, 0xF4] 2" "checks_inverse (small_inverse [0x8E, 0xF4, 1, 0] 2) [0x8E, 0xF4, 1, 0] 2"
  "checks_inverse (small_inverse [0, 1, 0x8E, 0xF4] 2) [0, 1, 0x8E, 0xF4] 2" "checks_inverse (small_inverse [0x8E, 0xF4, 0, 1] 2) [0x8E, 0xF4, 0, 1] 2"
  by (simp_all add: small_inverse_def checks_inverse_def upto_small mat_mul_entry_def gsum_2 gf_inv_small gf_eval Let_def cong: let_weak_cong)

lemma isal_small_cauchy: "cauchy_documented isal_small 3 2"
proof -
  have "fst (gf_invert_matrix isal_small (concat (map (mat_row [1, 0, 0, 1, 0x8E, 0xF4] 2) rs)) 2) = 0"
    if one: "length rs = 2" "distinct rs" "\<forall>r\<in>set rs. r < 3" for rs
  proof -
    obtain p q where "rs = [p, q]" using one(1) by (auto simp: length_Suc_conv numeral_2_eq_2)
    moreover have "p \<noteq> q" "p = 0 \<or> p = 1 \<or> p = 2" "q = 0 \<or> q = 1 \<or> q = 2" using one calculation by auto
    ultimately show ?thesis by (auto simp: mat_row_def intro!: inverts_2 small_inverts)
  qed
  moreover have "i < 2 \<longleftrightarrow> i = 0 \<or> i = 1" for i :: nat by auto
  ultimately show ?thesis by (auto simp: cauchy_documented_def Let_def cauchy_3_2)
qed


theorem decode_recovers_data_witness:
  "rs_decode isal_small (new_codec isal_small 2 3 2) [[], [9, 10], [138, 2]] [False, True, True] = Some [7, 8, 9, 10]"
proof -
  have par: "encode_for_testing isal_small (new_codec isal_small 2 3 2) [[7, 8], [9, 10]] = [[138, 2]]"
    by (simp add: encode_for_testing_def new_codec_def Let_def cauchy_3_2) (simp add: isal_small_def mat_apply_def upto_small gsum_2 gf_eval)
  have below: "i < 3 \<longleftrightarrow> i = 0 \<or> i = 1 \<or> i = 2" for i :: nat by auto
  have present: "filter (\<lambda>i. [False, True, True] ! i) [0..<3] = [1, 2]" by (simp add: upto_small)
  show ?thesis
    using decode_recovers_data [OF isal_small_documented, of 3 2 "[[7, 8], [9, 10]]" 2 "[False, True, True]" "[[], [9, 10], [138, 2]]"]
      isal_small_cauchy par present by (simp add: below)
qed

end
