(* ===== verification/BlockWriter.thy ===== *)
theory BlockWriter
  imports Prelude
begin

text \<open>
  \<^verbatim>\<open>src/receiver/block_writer.cpp\<close>: decoded blocks into the memory-mapped destination file.  The results
  of the system calls are parameters (\<open>file_os\<close>).  A file is its page-cache bytes and the bytes known to
  be durable; a successful \<open>msync\<close> makes the bytes of its range durable.  A mapping is
  \<open>bw_mapped\<close>, and \<open>bw_path\<close> says which file the descriptor refers to.
\<close>

section \<open>State\<close>

record DestFile =
  cached :: "nat \<Rightarrow> u8"
  durable :: "nat \<Rightarrow> u8"

record BlockWriter =
  bw_fd :: int
  bw_mapped :: bool
  bw_file_size :: u64
  bw_block_bytes :: u64
  bw_path :: string

text \<open>\<open>open(path)\<close>, \<open>fstat(fd).st_size\<close> or failure, whether \<open>mmap\<close> and \<open>msync(offset, length)\<close> succeed.\<close>

record file_os =
  os_open :: "string \<Rightarrow> int"
  os_fstat :: "int \<Rightarrow> u64 option"
  os_mmap :: "int \<Rightarrow> u64 \<Rightarrow> bool"
  os_msync :: "u64 \<Rightarrow> u64 \<Rightarrow> bool"
  os_page_size :: u64

section \<open>Operations\<close>

definition new_writer :: BlockWriter where
  "new_writer = \<lparr>bw_fd = -1, bw_mapped = False, bw_file_size = 0, bw_block_bytes = 0, bw_path = []\<rparr>"

definition close_writer :: "BlockWriter \<Rightarrow> BlockWriter" where
  "close_writer w =
     (let w = (if bw_mapped w then w\<lparr>bw_mapped := False\<rparr> else w);
          w = (if bw_fd w \<ge> 0 then w\<lparr>bw_fd := -1\<rparr> else w)
      in w\<lparr>bw_file_size := 0, bw_block_bytes := 0\<rparr>)"

definition open_writer :: "file_os \<Rightarrow> string \<Rightarrow> u64 \<Rightarrow> u32 \<Rightarrow> u32 \<Rightarrow> BlockWriter \<Rightarrow> bool \<times> BlockWriter" where
  "open_writer os dest_path file_size k symbol_bytes w =
     (let w = close_writer w;
          w = w\<lparr>bw_block_bytes := ucast k * ucast symbol_bytes, bw_file_size := file_size\<rparr>;
          w = w\<lparr>bw_fd := os_open os dest_path, bw_path := dest_path\<rparr>
      in if bw_fd w < 0 then (False, w)
      else case os_fstat os (bw_fd w) of
        None \<Rightarrow> (False, close_writer w)
      | Some st_size \<Rightarrow>
          if st_size < bw_file_size w then (False, close_writer w)
          else if bw_file_size w = 0 then (True, w)
          else if \<not> os_mmap os (bw_fd w) (bw_file_size w) then (False, close_writer w)
          else (True, w\<lparr>bw_mapped := True\<rparr>))"

definition write_block :: "BlockWriter \<Rightarrow> u32 \<Rightarrow> u8 list \<Rightarrow> DestFile \<Rightarrow> bool \<times> DestFile" where
  "write_block w block_id decoded f =
     (if \<not> bw_mapped w then (False, f)
      else
        let off = ucast block_id * bw_block_bytes w
        in if off \<ge> bw_file_size w then (False, f)
        else
          let n = min (bw_block_bytes w) (bw_file_size w - off)
          in (True, f\<lparr>cached := mem_write (unat off) (take (unat n) decoded) (cached f)\<rparr>))"

definition msync :: "file_os \<Rightarrow> u64 \<Rightarrow> u64 \<Rightarrow> DestFile \<Rightarrow> bool \<times> DestFile" where
  "msync os off len f =
     (if os_msync os off len
      then (True, f\<lparr>durable := (\<lambda>a. if unat off \<le> a \<and> a < unat off + unat len then cached f a else durable f a)\<rparr>)
      else (False, f))"

definition flush_block :: "file_os \<Rightarrow> BlockWriter \<Rightarrow> u32 \<Rightarrow> DestFile \<Rightarrow> bool \<times> DestFile" where
  "flush_block os w block_id f =
     (if \<not> bw_mapped w then (False, f)
      else
        let off = ucast block_id * bw_block_bytes w
        in if off \<ge> bw_file_size w then (False, f)
        else
          let n = min (bw_block_bytes w) (bw_file_size w - off);
              aligned_off = (off div os_page_size os) * os_page_size os;
              aligned_len = (off + n) - aligned_off
          in msync os aligned_off aligned_len f)"

definition flush_all :: "file_os \<Rightarrow> BlockWriter \<Rightarrow> DestFile \<Rightarrow> bool \<times> DestFile" where
  "flush_all os w f = (if \<not> bw_mapped w then (True, f) else msync os 0 (bw_file_size w) f)"

section \<open>Ranges\<close>

definition block_off :: "BlockWriter \<Rightarrow> u32 \<Rightarrow> nat" where
  "block_off w bid = unat (ucast bid * bw_block_bytes w)"

definition block_len :: "BlockWriter \<Rightarrow> u32 \<Rightarrow> nat" where
  "block_len w bid = min (unat (bw_block_bytes w)) (unat (bw_file_size w) - block_off w bid)"

lemma unat_min: "unat (min a b) = min (unat a) (unat b)" for a b :: "'a::len word"
  by (simp add: min_def word_le_nat_alt)

lemma block_range:
  assumes "\<not> ucast bid * bw_block_bytes w \<ge> bw_file_size w"
  shows "block_off w bid < unat (bw_file_size w)" "block_off w bid + block_len w bid \<le> unat (bw_file_size w)"
    and "unat (min (bw_block_bytes w) (bw_file_size w - ucast bid * bw_block_bytes w)) = block_len w bid"
    and "unat (ucast bid * bw_block_bytes w + min (bw_block_bytes w) (bw_file_size w - ucast bid * bw_block_bytes w))
       = block_off w bid + block_len w bid"
proof -
  show lt: "block_off w bid < unat (bw_file_size w)"
    using assms by (simp add: block_off_def word_less_nat_alt not_le)
  show le: "block_off w bid + block_len w bid \<le> unat (bw_file_size w)" using lt by (simp add: block_len_def)
  show len: "unat (min (bw_block_bytes w) (bw_file_size w - ucast bid * bw_block_bytes w)) = block_len w bid"
    using assms by (simp add: block_len_def block_off_def unat_min unat_sub not_le less_imp_le)
  have "block_off w bid + block_len w bid < 2 ^ 64" using le unat_lt_exp [of "bw_file_size w"] by simp
  then show "unat (ucast bid * bw_block_bytes w + min (bw_block_bytes w) (bw_file_size w - ucast bid * bw_block_bytes w))
       = block_off w bid + block_len w bid"
    using len by (simp add: block_off_def unat_add_lem [THEN iffD1])
qed

lemma write_block_cases:
  "write_block w bid decoded f =
     (if bw_mapped w \<and> block_off w bid < unat (bw_file_size w)
      then (True, f\<lparr>cached := mem_write (block_off w bid) (take (block_len w bid) decoded) (cached f)\<rparr>)
      else (False, f))"
  using block_range(3) [where bid = bid and w = w]
  by (auto simp: write_block_def Let_def block_off_def word_less_nat_alt word_le_nat_alt)

lemma write_block_byte:
  assumes "bw_mapped w" and "block_off w bid < unat (bw_file_size w)" and "unat (bw_block_bytes w) \<le> length decoded"
  shows "cached (snd (write_block w bid decoded f)) a =
    (if block_off w bid \<le> a \<and> a < block_off w bid + block_len w bid then decoded ! (a - block_off w bid) else cached f a)"
  using assms by (auto simp: write_block_cases mem_write_def block_len_def min_def)

lemma msync_byte:
  "msync os off len f = (True, f') \<Longrightarrow> unat off \<le> a \<Longrightarrow> a < unat off + unat len \<Longrightarrow> durable f' a = cached f a"
  "msync os off len f = (True, f') \<Longrightarrow> cached f' = cached f"
  by (auto simp: msync_def split: if_splits)

text \<open>The range handed to \<open>msync\<close> starts on a page and covers the block.\<close>

lemma sync_range:
  assumes "bid_off + n \<le> fs" and "fs < 2 ^ 64" and "unat (off :: u64) = bid_off" and "unat (end_off :: u64) = bid_off + n"
  shows "unat ((off div page) * page) \<le> bid_off"
    and "unat ((off div page) * page) + unat (end_off - (off div page) * page) = bid_off + n"
proof -
  have "unat off div unat page * unat page < 2 ^ 64"
    using order_le_less_trans [OF div_times_less_eq_dividend unat_lt_exp [of off]] by simp
  then have "unat ((off div page) * page) = unat off div unat page * unat page"
    by (simp add: unat_mult_lem [THEN iffD1] unat_div)
  then have "(off div page) * page \<le> off" by (simp add: word_le_nat_alt div_times_less_eq_dividend)
  then show le: "unat ((off div page) * page) \<le> bid_off" using assms(3) by (simp add: word_le_nat_alt)
  have "(off div page) * page \<le> end_off" using le assms(4) by (simp add: word_le_nat_alt)
  then show "unat ((off div page) * page) + unat (end_off - (off div page) * page) = bid_off + n"
    using assms(4) le by (simp add: unat_sub)
qed

section \<open>Properties\<close>

text \<open>Writing a list of (block id, decoded bytes) pairs one after the other.\<close>

definition write_blocks :: "BlockWriter \<Rightarrow> (u32 \<times> u8 list) list \<Rightarrow> DestFile \<Rightarrow> DestFile" where
  "write_blocks w ws f = foldl (\<lambda>f (bid, decoded). snd (write_block w bid decoded f)) f ws"

definition block_data :: "BlockWriter \<Rightarrow> u8 list \<Rightarrow> u32 \<times> u8 list \<Rightarrow> bool" where
  "block_data w content p \<longleftrightarrow>
     (case p of (bid, decoded) \<Rightarrow>
        block_off w bid < unat (bw_file_size w) \<and> unat (bw_block_bytes w) \<le> length decoded \<and>
        (\<forall>i<block_len w bid. decoded ! i = content ! (block_off w bid + i)))"

definition covers :: "BlockWriter \<Rightarrow> nat \<Rightarrow> u32 \<times> u8 list \<Rightarrow> bool" where
  "covers w a p \<longleftrightarrow> block_off w (fst p) \<le> a \<and> a < block_off w (fst p) + block_len w (fst p)"

lemma write_blocks_byte:
  assumes "bw_mapped w" and "\<forall>p\<in>set ws. block_data w content p"
  shows "cached (write_blocks w ws f) a = (if \<exists>p\<in>set ws. covers w a p then content ! a else cached f a)"
  using assms(2)
proof (induction ws arbitrary: f)
  case Nil
  then show ?case by (simp add: write_blocks_def)
next
  case (Cons p ws)
  obtain bid decoded where p: "p = (bid, decoded)" by (cases p)
  have bd: "block_data w content (bid, decoded)" using Cons.prems p by simp
  then have byte: "cached (snd (write_block w bid decoded f)) a = (if covers w a p then content ! a else cached f a)"
    using write_block_byte [OF assms(1), of bid decoded f a]
    by (auto simp: block_data_def covers_def p)
  have "write_blocks w (p # ws) f = write_blocks w ws (snd (write_block w bid decoded f))"
    by (simp add: write_blocks_def p)
  with Cons.IH [of "snd (write_block w bid decoded f)"] Cons.prems byte show ?case by auto
qed

text \<open>
  The file is assembled from its blocks.  When every byte of the file belongs to some written block
  and every written block carries the file's bytes (the last one padded at will), then after the writes,
  in any order and with any repetitions, the file holds exactly the content, and no byte at or past
  \<open>file_size\<close> has changed.
\<close>

theorem blocks_assemble_file:
  assumes "bw_mapped w" and "\<forall>p\<in>set ws. block_data w content p"
    and "length content = unat (bw_file_size w)"
    and "\<forall>a<unat (bw_file_size w). \<exists>p\<in>set ws. covers w a p"
  shows "mem_read 0 (unat (bw_file_size w)) (cached (write_blocks w ws f)) = content \<and>
         (\<forall>a\<ge>unat (bw_file_size w). cached (write_blocks w ws f) a = cached f a)"
proof
  show "mem_read 0 (unat (bw_file_size w)) (cached (write_blocks w ws f)) = content"
    by (rule nth_equalityI) (use assms write_blocks_byte [OF assms(1,2)] in \<open>auto simp: mem_read_def\<close>)
  have "\<not> covers w a p" if "a \<ge> unat (bw_file_size w)" "p \<in> set ws" for a p
    using that assms(2) by (auto simp: covers_def block_data_def block_len_def)
  then show "\<forall>a\<ge>unat (bw_file_size w). cached (write_blocks w ws f) a = cached f a"
    using write_blocks_byte [OF assms(1,2)] by auto
qed

definition writer5 :: BlockWriter where
  "writer5 = \<lparr>bw_fd = 4, bw_mapped = True, bw_file_size = 5, bw_block_bytes = 3, bw_path = ''/d''\<rparr>"

theorem blocks_assemble_file_witness:
  "mem_read 0 5 (cached (write_blocks writer5 [(1, [13, 14, 0]), (0, [10, 11, 12])]
     \<lparr>cached = (\<lambda>_. 7), durable = (\<lambda>_. 7)\<rparr>)) = [10, 11, 12, 13, 14]"
proof -
  let ?ws = "[(1, [13, 14, 0]), (0, [10, 11, 12])] :: (u32 \<times> u8 list) list"
  have off: "block_off writer5 0 = 0" "block_off writer5 1 = 3" "block_len writer5 0 = 3" "block_len writer5 1 = 2"
    by (simp_all add: writer5_def block_off_def block_len_def)
  have w: "bw_file_size writer5 = 5" "bw_block_bytes writer5 = 3" by (simp_all add: writer5_def)
  have below: "i < 3 \<longleftrightarrow> i = 0 \<or> i = 1 \<or> i = 2" "i < 2 \<longleftrightarrow> i = 0 \<or> i = 1" for i :: nat by auto
  have "block_data writer5 [10, 11, 12, 13, 14] p" if "p \<in> set ?ws" for p
    using that off by (auto simp: block_data_def below w)
  moreover have "\<exists>p\<in>set ?ws. covers writer5 a p" if "a < 5" for a
    using that off by (auto simp: covers_def)
  ultimately show ?thesis
    using blocks_assemble_file [of writer5 ?ws "[10, 11, 12, 13, 14]" "\<lparr>cached = (\<lambda>_. 7), durable = (\<lambda>_. 7)\<rparr>"]
    by (simp add: writer5_def)
qed

text \<open>What a successful flush does to the durable image.\<close>

lemma flush_range:
  assumes "flush_block os w bid f = (True, f')" and "block_off w bid < unat (bw_file_size w)"
  shows "cached f' = cached f \<and> (\<exists>lo \<le> block_off w bid. \<forall>a. durable f' a =
     (if lo \<le> a \<and> a < block_off w bid + block_len w bid then cached f a else durable f a))"
proof -
  have nge: "\<not> ucast bid * bw_block_bytes w \<ge> bw_file_size w"
    using assms(2) by (simp add: block_off_def word_le_nat_alt)
  note range = block_range [OF nge]
  let ?off = "ucast bid * bw_block_bytes w :: u64"
  let ?stop = "?off + min (bw_block_bytes w) (bw_file_size w - ?off)"
  let ?a = "(?off div os_page_size os) * os_page_size os"
  have ms: "msync os ?a (?stop - ?a) f = (True, f')"
    using assms(1) nge by (simp add: flush_block_def Let_def split: if_splits)
  have "unat ?a \<le> block_off w bid" "unat ?a + unat (?stop - ?a) = block_off w bid + block_len w bid"
    using sync_range [OF range(2), of ?off ?stop "os_page_size os"] range(4) unat_lt_exp [of "bw_file_size w"]
    by (simp_all add: block_off_def)
  with ms show ?thesis by (auto simp: msync_def split: if_splits)
qed

lemma write_flush_durable_lemma:
  assumes "write_block w bid decoded f = (True, f1)" and "flush_block os w bid f1 = (True, f2)"
    and "unat (bw_block_bytes w) \<le> length decoded" and "i < block_len w bid"
  shows "block_off w bid + i < unat (bw_file_size w) \<and> durable f2 (block_off w bid + i) = decoded ! i"
proof -
  have m: "bw_mapped w" and lt: "block_off w bid < unat (bw_file_size w)"
    using assms(1) by (auto simp: write_block_cases split: if_splits)
  have "durable f2 (block_off w bid + i) = cached f1 (block_off w bid + i)" using flush_range [OF assms(2) lt] assms(4) by auto
  also have "\<dots> = decoded ! i"
    using write_block_byte [OF m lt assms(3), of f "block_off w bid + i"] assms(1,4) by simp
  finally show ?thesis using lt assms(4) by (simp add: block_len_def less_diff_conv add.commute)
qed

section \<open>A store of durable blocks\<close>

text \<open>
  What the pipeline relies on when it reports a block: storing it puts the block's bytes into the visible and
  the stable image, changes no other visible byte, and takes any other stable byte it changes from the
  visible image.
\<close>

primrec run_all :: "('p \<Rightarrow> 'f \<Rightarrow> 'f option) \<Rightarrow> 'p list \<Rightarrow> 'f \<Rightarrow> 'f option" where
  "run_all store [] f = Some f"
| "run_all store (p # ps) f = (case store p f of None \<Rightarrow> None | Some f' \<Rightarrow> run_all store ps f')"

locale durable_blocks =
  fixes store :: "'p \<Rightarrow> 'f \<Rightarrow> 'f option"
    and visible :: "'f \<Rightarrow> nat \<Rightarrow> u8"
    and stable :: "'f \<Rightarrow> nat \<Rightarrow> u8"
    and writes :: "nat \<Rightarrow> 'p \<Rightarrow> bool"
    and byte_of :: "'p \<Rightarrow> nat \<Rightarrow> u8"
  assumes store_writes: "store p f = Some f' \<Longrightarrow> writes a p \<Longrightarrow> visible f' a = byte_of p a \<and> stable f' a = byte_of p a"
    and store_keeps: "store p f = Some f' \<Longrightarrow> \<not> writes a p \<Longrightarrow>
           visible f' a = visible f a \<and> (stable f' a = stable f a \<or> stable f' a = visible f a)"
begin

lemma settled_byte_stays:
  assumes "run_all store ps f = Some f'" and "\<forall>p\<in>set ps. writes a p \<longrightarrow> byte_of p a = c"
    and "visible f a = c" and "stable f a = c"
  shows "visible f' a = c \<and> stable f' a = c"
  using assms
proof (induction ps arbitrary: f)
  case (Cons p ps)
  then obtain g where g: "store p f = Some g" "run_all store ps g = Some f'" by (auto split: option.splits)
  have "visible g a = c \<and> stable g a = c"
    using Cons.prems(2-4) store_writes [OF g(1), of a] store_keeps [OF g(1), of a] by (cases "writes a p") auto
  then show ?case using Cons.prems(2) by (intro Cons.IH [OF g(2)]) simp_all
qed simp

lemma stored_bytes_settle:
  assumes "run_all store ps f = Some f'" and "\<forall>p\<in>set ps. writes a p \<longrightarrow> byte_of p a = c" and "\<exists>p\<in>set ps. writes a p"
  shows "visible f' a = c \<and> stable f' a = c"
  using assms
proof (induction ps arbitrary: f)
  case (Cons p ps)
  then obtain g where g: "store p f = Some g" "run_all store ps g = Some f'" by (auto split: option.splits)
  show ?case
  proof (cases "writes a p")
    case True
    then have "visible g a = c" "stable g a = c" using store_writes [OF g(1) True] Cons.prems(2) by simp_all
    with settled_byte_stays [OF g(2)] Cons.prems(2) show ?thesis by simp
  next
    case False
    then show ?thesis using Cons.IH [OF g(2)] Cons.prems(2,3) by auto
  qed
qed simp

end

text \<open>\<open>write_block\<close> and then \<open>flush_block\<close>, as \<open>decode_and_write_block\<close> calls them.\<close>

definition store_block :: "file_os \<Rightarrow> BlockWriter \<Rightarrow> u32 \<times> u8 list \<Rightarrow> DestFile \<Rightarrow> DestFile option" where
  "store_block os w p f =
     (case write_block w (fst p) (snd p) f of
        (False, _) \<Rightarrow> None
      | (True, f) \<Rightarrow> (case flush_block os w (fst p) f of (False, _) \<Rightarrow> None | (True, f) \<Rightarrow> Some f))"

definition writes_byte :: "BlockWriter \<Rightarrow> nat \<Rightarrow> u32 \<times> u8 list \<Rightarrow> bool" where
  "writes_byte w a p \<longleftrightarrow> block_off w (fst p) \<le> a \<and> a < block_off w (fst p) + min (block_len w (fst p)) (length (snd p))"

definition block_byte :: "BlockWriter \<Rightarrow> u32 \<times> u8 list \<Rightarrow> nat \<Rightarrow> u8" where
  "block_byte w p a = snd p ! (a - block_off w (fst p))"

lemma store_block_Some:
  assumes "store_block os w p f = Some f'"
  shows "bw_mapped w" and "block_off w (fst p) < unat (bw_file_size w)"
    and "cached f' = mem_write (block_off w (fst p)) (take (block_len w (fst p)) (snd p)) (cached f)"
    and "\<exists>lo \<le> block_off w (fst p). \<forall>a. durable f' a =
       (if lo \<le> a \<and> a < block_off w (fst p) + block_len w (fst p) then cached f' a else durable f a)"
proof -
  obtain f1 where w: "write_block w (fst p) (snd p) f = (True, f1)" and fl: "flush_block os w (fst p) f1 = (True, f')"
    using assms by (auto simp: store_block_def split: prod.splits bool.splits)
  show m: "bw_mapped w" and lt: "block_off w (fst p) < unat (bw_file_size w)"
    using w by (auto simp: write_block_cases split: if_splits)
  have f1: "f1 = f\<lparr>cached := mem_write (block_off w (fst p)) (take (block_len w (fst p)) (snd p)) (cached f)\<rparr>"
    using w m lt by (simp add: write_block_cases)
  note fl' = flush_range [OF fl lt]
  then show "cached f' = mem_write (block_off w (fst p)) (take (block_len w (fst p)) (snd p)) (cached f)" by (simp add: f1)
  show "\<exists>lo \<le> block_off w (fst p). \<forall>a. durable f' a =
       (if lo \<le> a \<and> a < block_off w (fst p) + block_len w (fst p) then cached f' a else durable f a)"
    using fl' by (auto simp: f1)
qed

interpretation dest_file: durable_blocks "store_block os w" cached durable "writes_byte w" "block_byte w"
proof
  fix p f f' a
  assume st: "store_block os w p f = Some f'"
  note r = store_block_Some [OF st]
  show "cached f' a = block_byte w p a \<and> durable f' a = block_byte w p a" if "writes_byte w a p"
    using that r(4) by (auto simp: r(3) writes_byte_def block_byte_def mem_write_def)
  show "cached f' a = cached f a \<and> (durable f' a = durable f a \<or> durable f' a = cached f a)" if "\<not> writes_byte w a p"
  proof -
    have same: "cached f' a = cached f a" using that by (auto simp: r(3) writes_byte_def mem_write_def)
    with r(4) show ?thesis by metis
  qed
qed

text \<open>
  The finished file is durable.  When every \<open>write_block\<close> and \<open>flush_block\<close> of a list of blocks succeeds,
  every byte of the file belongs to some block of the list, and the blocks carry the file's bytes, then in
  any order and with any repetitions the durable image of the file ends up exactly the content, whatever
  the page size and however the page-rounded flushes overlap.
\<close>

theorem flushed_file_durable:
  assumes "run_all (store_block os w) ws f = Some f'" and "\<forall>p\<in>set ws. block_data w content p"
    and "length content = unat (bw_file_size w)" and "\<forall>a<unat (bw_file_size w). \<exists>p\<in>set ws. covers w a p"
  shows "mem_read 0 (unat (bw_file_size w)) (durable f') = content"
proof (rule nth_equalityI)
  fix a assume "a < length (mem_read 0 (unat (bw_file_size w)) (durable f'))"
  then have a: "a < unat (bw_file_size w)" by simp
  have "writes_byte w a p = covers w a p" if "p \<in> set ws" for p
    using assms(2) that by (auto simp: writes_byte_def covers_def block_data_def block_len_def)
  moreover have "block_byte w p a = content ! a" if "p \<in> set ws" "covers w a p" for p
    using assms(2) that by (auto simp: block_byte_def covers_def block_data_def)
  ultimately have "durable f' a = content ! a"
    using dest_file.stored_bytes_settle [OF assms(1), of a "content ! a"] assms(4) a by blast
  then show "mem_read 0 (unat (bw_file_size w)) (durable f') ! a = content ! a" using a by (simp add: mem_read_def)
qed (use assms(3) in simp)

definition os_ok :: file_os where
  "os_ok = \<lparr>os_open = (\<lambda>_. 4), os_fstat = (\<lambda>_. Some 4096), os_mmap = (\<lambda>_ _. True), os_msync = (\<lambda>_ _. True),
     os_page_size = 4096\<rparr>"

theorem flushed_file_durable_witness:
  "\<exists>f'. run_all (store_block os_ok writer5) [(1, [13, 14, 0]), (0, [10, 11, 12])] \<lparr>cached = (\<lambda>_. 7), durable = (\<lambda>_. 7)\<rparr> = Some f' \<and>
     mem_read 0 5 (durable f') = [10, 11, 12, 13, 14]"
proof -
  let ?ws = "[(1, [13, 14, 0]), (0, [10, 11, 12])] :: (u32 \<times> u8 list) list"
  have off: "block_off writer5 0 = 0" "block_off writer5 1 = 3" "block_len writer5 0 = 3" "block_len writer5 1 = 2"
    by (simp_all add: writer5_def block_off_def block_len_def)
  have below: "i < 3 \<longleftrightarrow> i = 0 \<or> i = 1 \<or> i = 2" "i < 2 \<longleftrightarrow> i = 0 \<or> i = 1" for i :: nat by auto
  have w: "bw_mapped writer5" "bw_file_size writer5 = 5" "bw_block_bytes writer5 = 3" by (simp_all add: writer5_def)
  have "\<exists>f'. store_block os_ok writer5 p f = Some f'" if "p \<in> set ?ws" for p f
    using that by (auto simp: store_block_def write_block_cases off w flush_block_def Let_def msync_def os_ok_def)
  note stores = this
  let ?f = "\<lparr>cached = (\<lambda>_. 7), durable = (\<lambda>_. 7)\<rparr>"
  obtain g where g: "store_block os_ok writer5 (1, [13, 14, 0]) ?f = Some g" using stores [of "(1, [13, 14, 0])" ?f] by auto
  obtain f' where "store_block os_ok writer5 (0, [10, 11, 12]) g = Some f'" using stores [of "(0, [10, 11, 12])" g] by auto
  with g have run: "run_all (store_block os_ok writer5) ?ws ?f = Some f'" by simp
  have size: "unat (bw_file_size writer5) = 5" "unat (bw_block_bytes writer5) = 3" by (simp_all add: writer5_def)
  have "\<forall>p\<in>set ?ws. block_data writer5 [10, 11, 12, 13, 14] p" by (auto simp: block_data_def below off size)
  moreover have "\<forall>a<5. \<exists>p\<in>set ?ws. covers writer5 a p" by (auto simp: covers_def off)
  ultimately show ?thesis using flushed_file_durable [OF run, of "[10, 11, 12, 13, 14]"] run by (simp add: size)
qed

end
