(* ===== verification/Pipeline.thy ===== *)
theory Pipeline
  imports Sessions RsCodec BlockWriter
begin

text \<open>
  \<^verbatim>\<open>src/receiver/session_pipeline.cpp\<close>: session opens, purges and data packets of one receiver process,
  over the shared segment, the erasure codec and the destination files.  A \<open>BlockView\<close> is the offset of
  its block entry.  The erasure library (\<open>isal\<close>) and the file system calls (\<open>file_os\<close>) are parameters.
\<close>

section \<open>State\<close>

datatype DataPacketOutcome =
    RegisteredOnly | Duplicate | UnknownSession | InvalidBlockOrSymbol | ArenaExhausted | BlockDecoded

record SessionOpen =
  so_session_id :: string
  so_k :: u32
  so_n :: u32
  so_block_bytes :: u32
  so_total_blocks :: u32
  so_dest_path :: string
  so_file_size :: u64

record SessionContext =
  ctx_session_idx :: u32
  ctx_k :: u32
  ctx_n :: u32
  ctx_symbol_bytes :: u32
  ctx_codec :: RsCodec
  ctx_writer :: BlockWriter

record World =
  shm :: Segment
  contexts :: "string \<rightharpoonup> SessionContext"
  files :: "string \<Rightarrow> DestFile"

record Env =
  env_mgr :: ShmManager
  env_lib :: isal
  env_os :: file_os

section \<open>Opening and purging\<close>

definition handle_session_open :: "Env \<Rightarrow> SessionOpen \<Rightarrow> u64 \<Rightarrow> World \<Rightarrow> bool \<times> World" where
  "handle_session_open env msg file_size w =
     (if contexts w (so_session_id msg) \<noteq> None then (True, w)
      else
        case open_session (env_mgr env) (c_str (so_session_id msg)) (so_k msg) (so_n msg) (so_block_bytes msg)
               (so_total_blocks msg) file_size (c_str (so_dest_path msg)) (shm w) of
          (None, seg) \<Rightarrow> (False, w\<lparr>shm := seg\<rparr>)
        | (Some session_idx, seg) \<Rightarrow>
            let w = w\<lparr>shm := seg\<rparr>;
                codec = new_codec (env_lib env) (so_k msg) (so_n msg) (so_block_bytes msg)
            in case open_writer (env_os env) (c_str (so_dest_path msg)) file_size (so_k msg) (so_block_bytes msg) new_writer of
                 (False, _) \<Rightarrow> (False, w)
               | (True, writer) \<Rightarrow>
                   let ctx = \<lparr>ctx_session_idx = session_idx, ctx_k = so_k msg, ctx_n = so_n msg,
                              ctx_symbol_bytes = so_block_bytes msg, ctx_codec = codec, ctx_writer = writer\<rparr>
                   in (True, w\<lparr>contexts := (contexts w)(so_session_id msg \<mapsto> ctx)\<rparr>))"

definition purge_session :: "Env \<Rightarrow> string \<Rightarrow> World \<Rightarrow> World" where
  "purge_session env session_id w =
     w\<lparr>shm := snd (close_session (env_mgr env) (Some (c_str session_id)) (shm w)),
       contexts := (contexts w)(session_id := None)\<rparr>"

section \<open>Data packets\<close>

definition set_block :: "nat \<Rightarrow> BlockEntry \<Rightarrow> World \<Rightarrow> World" where
  "set_block a e w = w\<lparr>shm := (shm w)\<lparr>blocks := (blocks (shm w))(a := e)\<rparr>\<rparr>"

text \<open>The arrays \<open>present[MAX_N]\<close> and \<open>symbols[MAX_N]\<close> after the gather loop.\<close>

definition gather_present :: "u32 \<Rightarrow> BlockEntry \<Rightarrow> bool list" where
  "gather_present n e = map (\<lambda>s. s < unat n \<and> is_present e (of_nat s)) [0..<unat MAX_N]"

definition gather_symbols :: "u32 \<Rightarrow> nat \<Rightarrow> BlockEntry \<Rightarrow> Segment \<Rightarrow> u8 list list" where
  "gather_symbols n symbol_bytes e seg =
     map (\<lambda>s. if s < unat n \<and> is_present e (of_nat s)
              then read_slot (slot_of e (of_nat s)) symbol_bytes seg else []) [0..<unat MAX_N]"

text \<open>One round of the release loop: its two calls, in order.\<close>

definition release_accesses :: "ShmManager \<Rightarrow> nat \<Rightarrow> u32 \<Rightarrow> (Segment \<Rightarrow> Segment) list" where
  "release_accesses mgr a s =
     [\<lambda>seg. free_slot mgr (slot_of (blocks seg a) s) seg,
      \<lambda>seg. seg\<lparr>blocks := (blocks seg)(a := clear_slot s (blocks seg a))\<rparr>]"

definition release_symbol :: "ShmManager \<Rightarrow> nat \<Rightarrow> u32 \<Rightarrow> Segment \<Rightarrow> Segment" where
  "release_symbol mgr a s seg = fold (\<lambda>access. access) (release_accesses mgr a s) seg"

definition decode_and_write_block :: "Env \<Rightarrow> SessionContext \<Rightarrow> u32 \<Rightarrow> nat \<Rightarrow> World \<Rightarrow> bool \<times> World" where
  "decode_and_write_block env ctx block_id a w =
     (let e = blocks (shm w) a;
          present = gather_present (ctx_n ctx) e;
          symbols = gather_symbols (ctx_n ctx) (unat (ctx_symbol_bytes ctx)) e (shm w);
          path = bw_path (ctx_writer ctx)
      in case rs_decode (env_lib env) (ctx_codec ctx) symbols present of
           None \<Rightarrow> (False, w)
         | Some decoded_bytes \<Rightarrow>
             (case write_block (ctx_writer ctx) block_id decoded_bytes (files w path) of
                (False, f) \<Rightarrow> (False, w\<lparr>files := (files w)(path := f)\<rparr>)
              | (True, f) \<Rightarrow>
                  (case flush_block (env_os env) (ctx_writer ctx) block_id f of
                     (False, f) \<Rightarrow> (False, w\<lparr>files := (files w)(path := f)\<rparr>)
                   | (True, f) \<Rightarrow>
                       let w = w\<lparr>files := (files w)(path := f)\<rparr>
                       in case mark_decode_complete (blocks (shm w) a) of
                            (False, e) \<Rightarrow> (False, set_block a e w)
                          | (True, e) \<Rightarrow>
                              let w = set_block a e w
                              in (True, w\<lparr>shm := fold (\<lambda>s seg. if present ! s then release_symbol (env_mgr env) a (of_nat s) seg else seg)
                                            [0..<unat (ctx_n ctx)] (shm w)\<rparr>))))"

text \<open>
  \<open>handle_data_packet\<close> in two parts: the lookup, which only reads, gives an outcome or the context and block
  view that the rest of the handler keeps using; the rest allocates, registers and decodes.
  The result is the outcome, \<open>*out_decoded_block_id\<close> when it is written, and the new state.
\<close>

definition packet_lookup ::
  "string \<Rightarrow> u32 \<Rightarrow> u32 \<Rightarrow> u8 list \<Rightarrow> World \<Rightarrow> DataPacketOutcome + SessionContext \<times> nat" where
  "packet_lookup session_id block_id symbol_id payload w =
     (case contexts w session_id of
        None \<Rightarrow> Inl UnknownSession
      | Some ctx \<Rightarrow>
        if symbol_id \<ge> ctx_n ctx \<or> length payload \<noteq> unat (ctx_symbol_bytes ctx) then Inl InvalidBlockOrSymbol
        else case block_entry (ctx_session_idx ctx) block_id (shm w) of
          None \<Rightarrow> Inl InvalidBlockOrSymbol
        | Some a \<Rightarrow>
          if decoded (blocks (shm w) a) = DECODE_COMPLETE then Inl Duplicate
          else if is_present (blocks (shm w) a) symbol_id then Inl Duplicate
          else Inr (ctx, a))"

definition packet_register ::
  "Env \<Rightarrow> SessionContext \<Rightarrow> u32 \<Rightarrow> u32 \<Rightarrow> u8 list \<Rightarrow> nat \<Rightarrow> World \<Rightarrow> (DataPacketOutcome \<times> u32 option) \<times> World" where
  "packet_register env ctx block_id symbol_id payload a w =
     (case alloc_slot (env_mgr env) (shm w) of (slot, seg) \<Rightarrow>
        if slot = SLOT_IDX_FREE then ((ArenaExhausted, None), w\<lparr>shm := seg\<rparr>)
        else
          let w = w\<lparr>shm := write_slot slot payload seg\<rparr>
          in case register_symbol symbol_id slot (blocks (shm w) a) of (result, e) \<Rightarrow>
            let w = set_block a e w
            in if result = DuplicateSymbol then
                 ((Duplicate, None), w\<lparr>shm := free_slot (env_mgr env) slot (shm w)\<rparr>)
               else if result = InvalidSymbolId then
                 ((InvalidBlockOrSymbol, None), w\<lparr>shm := free_slot (env_mgr env) slot (shm w)\<rparr>)
               else if seen e \<ge> ctx_k ctx then
                 (case try_claim_decode e of
                    (False, e) \<Rightarrow> ((RegisteredOnly, None), set_block a e w)
                  | (True, e) \<Rightarrow>
                      (case decode_and_write_block env ctx block_id a (set_block a e w) of
                         (True, w) \<Rightarrow> ((BlockDecoded, Some block_id), w)
                       | (False, w) \<Rightarrow> ((RegisteredOnly, None), w)))
               else ((RegisteredOnly, None), w))"

definition handle_data_packet ::
  "Env \<Rightarrow> string \<Rightarrow> u32 \<Rightarrow> u32 \<Rightarrow> u8 list \<Rightarrow> World \<Rightarrow> (DataPacketOutcome \<times> u32 option) \<times> World" where
  "handle_data_packet env session_id block_id symbol_id payload w =
     (case packet_lookup session_id block_id symbol_id payload w of
        Inl outcome \<Rightarrow> ((outcome, None), w)
      | Inr (ctx, a) \<Rightarrow> packet_register env ctx block_id symbol_id payload a w)"

lemma release_symbol_eq:
  "release_symbol mgr a s seg =
     (let seg = free_slot mgr (slot_of (blocks seg a) s) seg
      in seg\<lparr>blocks := (blocks seg)(a := clear_slot s (blocks seg a))\<rparr>)"
  by (simp add: release_symbol_def release_accesses_def Let_def)

lemmas handle_data_packet_eq = handle_data_packet_def packet_lookup_def packet_register_def

section \<open>Slots are conserved\<close>

lemma block_entry_frame:
  "session_table seg' = session_table seg \<Longrightarrow> block_entry sidx bid seg' = block_entry sidx bid seg"
  by (simp add: block_entry_def)

lemma free_slot_blocks:
  "free_slot mgr x (seg\<lparr>blocks := bl\<rparr>) = (free_slot mgr x seg)\<lparr>blocks := bl\<rparr>"
  by (simp add: free_slot_def Let_def)

text \<open>Changes of the entry that keep its links.\<close>

lemma block_ok_same_links:
  assumes "block_ok n e" and "links e' = links e" and "block_wf e'"
    and "decoded e' \<noteq> DECODE_COMPLETE \<longrightarrow> decoded e \<noteq> DECODE_COMPLETE"
  shows "block_ok n e'" "mset (block_slots e') = mset (block_slots e)"
proof -
  have "is_present e' s = is_present e s" for s using dom_links [of e] dom_links [of e'] assms(2) by auto
  then show "block_ok n e'" using assms by (simp add: block_ok_def)
  show "mset (block_slots e') = mset (block_slots e)"
    using block_slots_change [of 0 e' e] assms(2) by (simp add: MAX_N_def)
qed

lemma hand_decoded:
  assumes "shm_hand mgr seg fl hand" and "block_entry sidx bid seg = Some a"
    and "d \<noteq> DECODE_COMPLETE \<longrightarrow> decoded (blocks seg a) \<noteq> DECODE_COMPLETE"
  shows "shm_hand mgr (seg\<lparr>blocks := (blocks seg)(a := (blocks seg a)\<lparr>decoded := d\<rparr>)\<rparr>) fl hand"
proof (rule hand_block_change [OF assms(1,2)])
  note ok = block_entry_Some(6) [OF assms(1,2)]
  have "block_wf ((blocks seg a)\<lparr>decoded := d\<rparr>)" using ok by (simp add: block_ok_def)
  then show "block_ok (se_n (session_table seg ! unat sidx)) ((blocks seg a)\<lparr>decoded := d\<rparr>)"
    using assms(3) by (intro block_ok_same_links(1) [OF ok]) simp_all
qed simp

text \<open>A registered slot passes from the hand of the operation to the block.\<close>

lemma hand_register:
  assumes inv: "shm_hand mgr seg fl [x]" and be: "block_entry sidx bid seg = Some a"
    and reg: "register_symbol s x (blocks seg a) = (NewSymbol, e')"
    and sn: "s < se_n (session_table seg ! unat sidx)" and pend: "decoded (blocks seg a) \<noteq> DECODE_COMPLETE"
  shows "shm_hand mgr (seg\<lparr>blocks := (blocks seg)(a := e')\<rparr>) fl []"
    and "links e' = (links (blocks seg a))(s \<mapsto> x)" and "decoded e' = decoded (blocks seg a)" and "links (blocks seg a) s = None"
proof -
  let ?e = "blocks seg a"
  note ok = block_entry_Some(6) [OF inv be]
  have wf: "block_wf ?e" using ok by (simp add: block_ok_def)
  have s: "s < MAX_N" "links ?e s = None"
    using reg register_symbol_old [OF wf, of s x] by (cases "s < MAX_N"; cases "links ?e s"; auto simp: not_less)+
  note new = register_symbol_new [OF wf s, of x, unfolded reg fst_conv snd_conv]
  show l: "links e' = (links ?e)(s \<mapsto> x)" and "decoded e' = decoded ?e" and "links ?e s = None" using new s by simp_all
  have xs: "x \<noteq> kListEnd" using hand_distinct(3) [OF inv, of x] by (auto dest: below_not_end)
  have "mset (block_slots e') = mset (block_slots ?e) + {#x#}"
    using block_slots_change [OF s(1), of e' ?e] by (simp add: l s(2) xs)
  moreover have "block_ok (se_n (session_table seg ! unat sidx)) e'"
  proof -
    have "is_present e' t \<longleftrightarrow> is_present ?e t \<or> t = s" for t
      using dom_links [of e'] dom_links [of ?e] l by auto
    then show ?thesis using ok sn xs register_symbol_wf [OF wf, of s x] new(3) pend
      by (auto simp: block_ok_def reg l)
  qed
  ultimately show "shm_hand mgr (seg\<lparr>blocks := (blocks seg)(a := e')\<rparr>) fl []"
    by (intro hand_block_change [OF inv be]) simp_all
qed

text \<open>One release of the decode loop: the link is cleared and the slot goes back to the free list.\<close>

lemma release_symbol_hand:
  assumes inv: "shm_hand mgr seg fl []" and be: "block_entry sidx bid seg = Some a"
    and s: "s < MAX_N" "links (blocks seg a) s = Some x" "x \<noteq> kListEnd" and dc: "decoded (blocks seg a) = DECODE_COMPLETE"
  shows "shm_hand mgr (release_symbol mgr a s seg) (x # fl) []"
    and "blocks (release_symbol mgr a s seg) a = clear_slot s (blocks seg a)"
    and "session_table (release_symbol mgr a s seg) = session_table seg"
proof -
  let ?e = "blocks seg a" and ?e' = "clear_slot s (blocks seg a)"
  note ok = block_entry_Some(6) [OF inv be]
  have p: "is_present ?e s" "slot_of ?e s = x" using s(2) by (auto simp: links_def split: if_splits)
  have len: "length (slot_idx ?e) = 255" using ok by (simp add: block_ok_def block_wf_def)
  have "mset (block_slots ?e') + {#x#} = mset (block_slots ?e)"
    using block_slots_change [OF s(1), of ?e' ?e] p by (simp add: links_clear [OF len s(1)] s)
  moreover have "block_ok (se_n (session_table seg ! unat sidx)) ?e'"
    using ok dc by (simp add: block_ok_def)
  ultimately have "shm_hand mgr (seg\<lparr>blocks := (blocks seg)(a := ?e')\<rparr>) fl [x]"
    by (intro hand_block_change [OF inv be]) simp_all
  from hand_free [OF this] show "shm_hand mgr (release_symbol mgr a s seg) (x # fl) []"
    by (simp add: release_symbol_eq Let_def free_slot_blocks p)
  show "blocks (release_symbol mgr a s seg) a = clear_slot s (blocks seg a)"
    "session_table (release_symbol mgr a s seg) = session_table seg"
    by (simp_all add: release_symbol_eq Let_def)
qed

lemma release_loop_hand:
  assumes "shm_hand mgr seg fl []" and "block_entry sidx bid seg = Some a"
    and "distinct ss" and "\<forall>s\<in>set ss. s < 255"
    and "\<forall>s\<in>set ss. present ! s \<longrightarrow> (\<exists>x. links (blocks seg a) (of_nat s) = Some x \<and> x \<noteq> kListEnd)"
    and "decoded (blocks seg a) = DECODE_COMPLETE"
  shows "\<exists>fl'. shm_hand mgr (fold (\<lambda>s seg. if present ! s then release_symbol mgr a (of_nat s) seg else seg) ss seg) fl' [] \<and>
     length fl' = length fl + length (filter (\<lambda>s. present ! s) ss) \<and>
     session_table (fold (\<lambda>s seg. if present ! s then release_symbol mgr a (of_nat s) seg else seg) ss seg) = session_table seg"
  using assms
proof (induction ss arbitrary: seg fl)
  case (Cons s ss)
  show ?case
  proof (cases "present ! s")
    case True
    then obtain x where x: "links (blocks seg a) (of_nat s) = Some x" "x \<noteq> kListEnd" using Cons.prems(5) by auto
    have sN: "(of_nat s :: u32) < MAX_N"
      using Cons.prems(4) unat_of_nat_small [of s, where 'a = 32] by (simp add: MAX_N_less)
    note rel = release_symbol_hand [OF Cons.prems(1,2) sN x Cons.prems(6)]
    have len: "length (slot_idx (blocks seg a)) = 255"
      using block_entry_Some(6) [OF Cons.prems(1,2)] by (simp add: block_ok_def block_wf_def)
    have "links (clear_slot (of_nat s) (blocks seg a)) (of_nat t) = links (blocks seg a) (of_nat t)" if "t \<in> set ss" for t
    proof -
      have "(of_nat t :: u32) \<noteq> of_nat s" using that Cons.prems(3,4) u32_of_nat_255 [of t s] by auto
      then show ?thesis by (simp add: links_clear [OF len sN])
    qed
    then have "\<exists>fl'. shm_hand mgr (fold (\<lambda>s seg. if present ! s then release_symbol mgr a (of_nat s) seg else seg) ss
          (release_symbol mgr a (of_nat s) seg)) fl' [] \<and>
        length fl' = length (x # fl) + length (filter (\<lambda>s. present ! s) ss) \<and>
        session_table (fold (\<lambda>s seg. if present ! s then release_symbol mgr a (of_nat s) seg else seg) ss
          (release_symbol mgr a (of_nat s) seg)) = session_table (release_symbol mgr a (of_nat s) seg)"
      using Cons.prems rel by (intro Cons.IH [OF rel(1)]) (simp_all add: block_entry_frame [OF rel(3)])
    with True rel(3) show ?thesis by simp
  next
    case False
    with Cons show ?thesis by simp
  qed
qed auto

lemma gather_present_nth:
  "s < 255 \<Longrightarrow> gather_present n e ! s \<longleftrightarrow> s < unat n \<and> is_present e (of_nat s)"
  by (simp add: gather_present_def MAX_N_def)

lemma set_block_sel [simp]:
  "shm (set_block a e w) = (shm w)\<lparr>blocks := (blocks (shm w))(a := e)\<rparr>"
  "contexts (set_block a e w) = contexts w" "files (set_block a e w) = files w"
  by (simp_all add: set_block_def)

lemma decode_and_write_inv:
  assumes inv: "shm_hand (env_mgr env) (shm w) fl []" and be: "block_entry sidx bid (shm w) = Some a"
    and cl: "decoded (blocks (shm w) a) = DECODE_CLAIMED" and n: "ctx_n ctx \<le> MAX_N"
    and dw: "decode_and_write_block env ctx block_id a w = (r, w')"
  shows "\<exists>fl'. shm_hand (env_mgr env) (shm w') fl' []" and "session_table (shm w') = session_table (shm w)"
    and "contexts w' = contexts w"
    and "r \<Longrightarrow> \<exists>fl'. shm_hand (env_mgr env) (shm w') fl' [] \<and>
       length fl' = length fl + length (filter (\<lambda>s. gather_present (ctx_n ctx) (blocks (shm w) a) ! s) [0..<unat (ctx_n ctx)])"
proof -
  let ?e = "blocks (shm w) a" and ?d = "(blocks (shm w) a)\<lparr>decoded := DECODE_COMPLETE\<rparr>"
  let ?seg = "(shm w)\<lparr>blocks := (blocks (shm w))(a := ?d)\<rparr>" and ?present = "gather_present (ctx_n ctx) (blocks (shm w) a)"
  have mark: "mark_decode_complete ?e = (True, ?d)" using cl by (simp add: mark_decode_complete_def)
  have compl: "shm_hand (env_mgr env) ?seg fl []"
    using hand_decoded [OF inv be, of DECODE_COMPLETE] by simp
  have be': "block_entry sidx bid ?seg = Some a" using be block_entry_frame [of ?seg "shm w"] by simp
  have n255: "unat (ctx_n ctx) \<le> 255" using n by (simp add: MAX_N_def word_le_nat_alt)
  have linked: "\<exists>x. links ?d (of_nat s) = Some x \<and> x \<noteq> kListEnd" if "s < 255" "?present ! s" for s
  proof -
    have "is_present ?e (of_nat s)" using that by (simp add: gather_present_nth)
    then have "links ?d (of_nat s) = Some (slot_of ?e (of_nat s))" "links ?e (of_nat s) = Some (slot_of ?e (of_nat s))"
      by (simp_all add: links_def)
    moreover have "slot_of ?e (of_nat s) \<noteq> kListEnd"
    proof -
      have "decoded ?e \<noteq> DECODE_COMPLETE" using cl by (simp add: decode_states)
      then have "links ?e (of_nat s) \<noteq> Some kListEnd"
        using block_entry_Some(6) [OF inv be] unfolding block_ok_def by blast
      then show ?thesis using calculation(2) by simp
    qed
    ultimately show ?thesis by blast
  qed
  have loop: "\<exists>fl'. shm_hand (env_mgr env) (fold (\<lambda>s seg. if ?present ! s then release_symbol (env_mgr env) a (of_nat s) seg else seg)
       [0..<unat (ctx_n ctx)] ?seg) fl' [] \<and>
     length fl' = length fl + length (filter (\<lambda>s. ?present ! s) [0..<unat (ctx_n ctx)]) \<and>
     session_table (fold (\<lambda>s seg. if ?present ! s then release_symbol (env_mgr env) a (of_nat s) seg else seg)
       [0..<unat (ctx_n ctx)] ?seg) = session_table ?seg"
    by (rule release_loop_hand [OF compl be']) (use linked n255 in auto)
  have "shm w' = shm w \<or> shm w' = fold (\<lambda>s seg. if ?present ! s then release_symbol (env_mgr env) a (of_nat s) seg else seg)
       [0..<unat (ctx_n ctx)] ?seg"
    using dw mark by (auto simp: decode_and_write_block_def Let_def split: option.splits prod.splits bool.splits)
  then show "\<exists>fl'. shm_hand (env_mgr env) (shm w') fl' []" "session_table (shm w') = session_table (shm w)"
    using loop inv by auto
  show "\<exists>fl'. shm_hand (env_mgr env) (shm w') fl' [] \<and>
       length fl' = length fl + length (filter (\<lambda>s. ?present ! s) [0..<unat (ctx_n ctx)])" if r
  proof -
    have "shm w' = fold (\<lambda>s seg. if ?present ! s then release_symbol (env_mgr env) a (of_nat s) seg else seg)
       [0..<unat (ctx_n ctx)] ?seg"
      using dw mark that by (auto simp: decode_and_write_block_def Let_def split: option.splits prod.splits bool.splits)
    then show ?thesis using loop by auto
  qed
  show "contexts w' = contexts w"
    using dw mark by (auto simp: decode_and_write_block_def Let_def split: option.splits prod.splits bool.splits)
qed

text \<open>The branches of \<open>handle_data_packet\<close>.\<close>

lemma packet_rejected:
  "contexts w sid = None \<Longrightarrow> handle_data_packet env sid bid symid payload w = ((UnknownSession, None), w)"
  "contexts w sid = Some ctx \<Longrightarrow> symid \<ge> ctx_n ctx \<or> length payload \<noteq> unat (ctx_symbol_bytes ctx) \<Longrightarrow>
   handle_data_packet env sid bid symid payload w = ((InvalidBlockOrSymbol, None), w)"
  "contexts w sid = Some ctx \<Longrightarrow> block_entry (ctx_session_idx ctx) bid (shm w) = None \<Longrightarrow>
   handle_data_packet env sid bid symid payload w = ((InvalidBlockOrSymbol, None), w)"
  by (simp_all add: handle_data_packet_eq)

definition valid_packet :: "SessionContext \<Rightarrow> u32 \<Rightarrow> u32 \<Rightarrow> u8 list \<Rightarrow> nat \<Rightarrow> World \<Rightarrow> bool" where
  "valid_packet ctx bid symid payload a w \<longleftrightarrow>
     symid < ctx_n ctx \<and> length payload = unat (ctx_symbol_bytes ctx) \<and>
     block_entry (ctx_session_idx ctx) bid (shm w) = Some a"

lemma packet_duplicate:
  assumes "contexts w sid = Some ctx" and "valid_packet ctx bid symid payload a w"
    and "decoded (blocks (shm w) a) = DECODE_COMPLETE \<or> is_present (blocks (shm w) a) symid"
  shows "handle_data_packet env sid bid symid payload w = ((Duplicate, None), w)"
  using assms by (auto simp: handle_data_packet_eq valid_packet_def not_le)

lemma packet_exhausted:
  assumes "contexts w sid = Some ctx" and "valid_packet ctx bid symid payload a w"
    and "decoded (blocks (shm w) a) \<noteq> DECODE_COMPLETE" and "\<not> is_present (blocks (shm w) a) symid"
    and "alloc_slot (env_mgr env) (shm w) = (kListEnd, seg)"
  shows "handle_data_packet env sid bid symid payload w = ((ArenaExhausted, None), w\<lparr>shm := seg\<rparr>)"
  using assms by (simp add: handle_data_packet_eq valid_packet_def not_le)

text \<open>The state once a new symbol is registered, and the rest of the handler.\<close>

definition registered_world :: "Env \<Rightarrow> u32 \<Rightarrow> u8 list \<Rightarrow> nat \<Rightarrow> World \<Rightarrow> World" where
  "registered_world env symid payload a w =
     (case alloc_slot (env_mgr env) (shm w) of (slot, seg) \<Rightarrow>
        set_block a (snd (register_symbol symid slot (blocks (shm w) a))) (w\<lparr>shm := write_slot slot payload seg\<rparr>))"

lemma packet_registered:
  assumes ctx: "contexts w sid = Some ctx" and v: "valid_packet ctx bid symid payload a w"
    and dc: "decoded (blocks (shm w) a) \<noteq> DECODE_COMPLETE" and np: "\<not> is_present (blocks (shm w) a) symid"
    and al: "fst (alloc_slot (env_mgr env) (shm w)) \<noteq> kListEnd"
    and new: "fst (register_symbol symid (fst (alloc_slot (env_mgr env) (shm w))) (blocks (shm w) a)) = NewSymbol"
    and w1: "w1 = registered_world env symid payload a w" and e: "e = blocks (shm w1) a"
  shows "handle_data_packet env sid bid symid payload w =
     (if seen e \<ge> ctx_k ctx \<and> decoded e = DECODE_PENDING
      then (case decode_and_write_block env ctx bid a (set_block a (e\<lparr>decoded := DECODE_CLAIMED\<rparr>) w1) of
              (True, w) \<Rightarrow> ((BlockDecoded, Some bid), w) | (False, w) \<Rightarrow> ((RegisteredOnly, None), w))
      else ((RegisteredOnly, None), w1))"
proof -
  obtain x seg where x: "alloc_slot (env_mgr env) (shm w) = (x, seg)" by fastforce
  obtain e' where reg: "register_symbol symid x (blocks (shm w) a) = (NewSymbol, e')"
    using new by (metis fst_conv prod.collapse x)
  have xe: "x \<noteq> SLOT_IDX_FREE" using al x by simp
  have w1': "w1 = set_block a e' (w\<lparr>shm := write_slot x payload seg\<rparr>)" by (simp add: w1 registered_world_def x reg)
  have e': "e' = e" by (simp add: e w1')
  have same: "set_block a e w1 = w1" by (simp add: e set_block_def)
  have bs: "blocks seg = blocks (shm w)" using arg_cong [OF x, of "\<lambda>p. blocks (snd p)"] by simp
  have w1'': "set_block a e (w\<lparr>shm := write_slot x payload seg\<rparr>) = w1" using w1' e' by simp
  have "handle_data_packet env sid bid symid payload w =
     (if seen e \<ge> ctx_k ctx then
        (case try_claim_decode e of
           (False, e) \<Rightarrow> ((RegisteredOnly, None), set_block a e w1)
         | (True, e) \<Rightarrow> (case decode_and_write_block env ctx bid a (set_block a e w1) of
              (True, w) \<Rightarrow> ((BlockDecoded, Some bid), w) | (False, w) \<Rightarrow> ((RegisteredOnly, None), w)))
      else ((RegisteredOnly, None), w1))"
    using ctx v dc np xe unfolding handle_data_packet_eq valid_packet_def
    by (simp add: x bs reg [unfolded e'] not_le [symmetric] Let_def del: fun_upd_apply) (unfold w1'', simp)
  then show ?thesis by (simp add: try_claim_decode_def same)
qed

text \<open>What a context needs of the segment: its entry admits every symbol id and its symbols fit a slot.\<close>

definition ctx_fits :: "Segment \<Rightarrow> SessionContext \<Rightarrow> bool" where
  "ctx_fits seg ctx \<longleftrightarrow>
     ctx_n ctx \<le> MAX_N \<and> ctx_symbol_bytes ctx \<le> SLOT_SIZE \<and> ctx_n ctx \<le> se_n (session_table seg ! unat (ctx_session_idx ctx))"

lemma registered_world_hand:
  assumes inv: "shm_inv (env_mgr env) (shm w) fl" and fit: "ctx_fits (shm w) ctx"
    and v: "valid_packet ctx bid symid payload a w"
    and dc: "decoded (blocks (shm w) a) \<noteq> DECODE_COMPLETE" and np: "\<not> is_present (blocks (shm w) a) symid"
    and al: "alloc_slot (env_mgr env) (shm w) = (x, seg)" "x \<noteq> kListEnd"
    and w1: "w1 = registered_world env symid payload a w"
  shows "fst (register_symbol symid x (blocks (shm w) a)) = NewSymbol"
    and "\<exists>fl'. fl = x # fl' \<and> shm_hand (env_mgr env) (shm w1) fl' []"
    and "session_table (shm w1) = session_table (shm w)" "contexts w1 = contexts w" "files w1 = files w"
    and "links (blocks (shm w1) a) = (links (blocks (shm w) a))(symid \<mapsto> x)"
    and "decoded (blocks (shm w1) a) = decoded (blocks (shm w) a)"
    and "arena (shm w1) = mem_write (slot_addr x) payload (arena (shm w))"
proof -
  let ?mgr = "env_mgr env" and ?e = "blocks (shm w) a"
  define seg2 where "seg2 = write_slot x payload seg"
  have xe: "fst (alloc_slot ?mgr (shm w)) \<noteq> kListEnd" using al by simp
  obtain fl' where fl': "fl = x # fl'" "shm_hand ?mgr seg fl' [x]"
    by (rule hand_alloc [OF inv xe]) (simp add: al(1))
  have sb: "length payload \<le> 1536" and sN: "symid < MAX_N"
    and sn: "symid < se_n (session_table (shm w) ! unat (ctx_session_idx ctx))"
    using v fit by (auto simp: valid_packet_def ctx_fits_def SLOT_SIZE_def word_le_nat_alt word_less_nat_alt)
  have h2: "shm_hand ?mgr seg2 fl' [x]" unfolding seg2_def by (rule hand_write [OF fl'(2) sb])
  have frame: "blocks seg2 = blocks (shm w)" "session_table seg2 = session_table (shm w)"
    using arg_cong [OF al(1), of "\<lambda>p. blocks (snd p)"] arg_cong [OF al(1), of "\<lambda>p. session_table (snd p)"]
    by (simp_all add: seg2_def)
  have be2: "block_entry (ctx_session_idx ctx) bid seg2 = Some a"
    using v block_entry_frame [OF frame(2)] by (simp add: valid_packet_def)
  have wf: "block_wf ?e" using block_entry_Some(6) [OF h2 be2] frame by (simp add: block_ok_def)
  have none: "links ?e symid = None" using np by (simp add: links_def)
  show new: "fst (register_symbol symid x ?e) = NewSymbol" by (rule register_symbol_new(1) [OF wf sN none])
  then obtain e' where reg: "register_symbol symid x ?e = (NewSymbol, e')" by (metis prod.collapse)
  have w1': "w1 = set_block a e' (w\<lparr>shm := seg2\<rparr>)" by (simp add: w1 registered_world_def al(1) reg seg2_def)
  note hr = hand_register [OF h2 be2, of symid e', unfolded frame, OF reg sn dc]
  show "\<exists>fl'. fl = x # fl' \<and> shm_hand (env_mgr env) (shm w1) fl' []"
    using fl'(1) hr(1) by (simp add: w1' frame)
  show "session_table (shm w1) = session_table (shm w)" "contexts w1 = contexts w" "files w1 = files w"
    by (simp_all add: w1' frame)
  show "links (blocks (shm w1) a) = (links ?e)(symid \<mapsto> x)" "decoded (blocks (shm w1) a) = decoded ?e"
    using hr(2,3) by (simp_all add: w1')
  have "arena seg = arena (shm w)"
    using arg_cong [OF al(1), of "\<lambda>p. arena (snd p)"] by (simp add: alloc_slot_def note_alloc_def Let_def split: if_splits)
  then show "arena (shm w1) = mem_write (slot_addr x) payload (arena (shm w))"
    by (simp add: w1' seg2_def write_slot_def)
qed

lemma valid_packet_inv:
  assumes inv: "shm_inv (env_mgr env) (shm w) fl" and ctx: "contexts w sid = Some ctx" and fit: "ctx_fits (shm w) ctx"
    and v: "valid_packet ctx bid symid payload a w"
    and hp: "handle_data_packet env sid bid symid payload w = (r, w')"
  shows "(\<exists>fl'. shm_hand (env_mgr env) (shm w') fl' []) \<and> session_table (shm w') = session_table (shm w) \<and>
         contexts w' = contexts w"
proof -
  let ?mgr = "env_mgr env" and ?e = "blocks (shm w) a"
  obtain x seg where al: "alloc_slot ?mgr (shm w) = (x, seg)" by fastforce
  consider "decoded ?e = DECODE_COMPLETE \<or> is_present ?e symid"
    | "decoded ?e \<noteq> DECODE_COMPLETE" "\<not> is_present ?e symid" "x = kListEnd"
    | "decoded ?e \<noteq> DECODE_COMPLETE" "\<not> is_present ?e symid" "x \<noteq> kListEnd" by blast
  then show ?thesis
  proof cases
    case 1
    then show ?thesis using packet_duplicate [OF ctx v 1] hp inv by (auto simp: shm_inv_def)
  next
    case 2
    then have "fl = []" using hand_alloc_fail [OF inv] al by simp
    then have "seg = shm w" using alloc_slot_empty [of "shm w" ?mgr] shm_invD(2) [OF inv] al by simp
    then show ?thesis using packet_exhausted [OF ctx v 2(1,2), of env seg] 2(3) al hp inv by (auto simp: shm_inv_def)
  next
    case 3
    define w1 where "w1 = registered_world env symid payload a w"
    note rw = registered_world_hand [OF inv fit v 3(1,2) al 3(3) w1_def]
    obtain fl' where h1: "shm_hand ?mgr (shm w1) fl' []" using rw(2) by blast
    have be1: "block_entry (ctx_session_idx ctx) bid (shm w1) = Some a"
      using v block_entry_frame [OF rw(3)] by (simp add: valid_packet_def)
    have step: "handle_data_packet env sid bid symid payload w =
     (if seen (blocks (shm w1) a) \<ge> ctx_k ctx \<and> decoded (blocks (shm w1) a) = DECODE_PENDING
      then (case decode_and_write_block env ctx bid a (set_block a ((blocks (shm w1) a)\<lparr>decoded := DECODE_CLAIMED\<rparr>) w1) of
              (True, w) \<Rightarrow> ((BlockDecoded, Some bid), w) | (False, w) \<Rightarrow> ((RegisteredOnly, None), w))
      else ((RegisteredOnly, None), w1))"
      by (rule packet_registered [OF ctx v 3(1,2) _ _ w1_def refl]) (use 3(3) rw(1) al in simp_all)
    show ?thesis
    proof (cases "seen (blocks (shm w1) a) \<ge> ctx_k ctx \<and> decoded (blocks (shm w1) a) = DECODE_PENDING")
      case True
      define w3 where "w3 = set_block a ((blocks (shm w1) a)\<lparr>decoded := DECODE_CLAIMED\<rparr>) w1"
      have w3: "shm_hand ?mgr (shm w3) fl' []" "session_table (shm w3) = session_table (shm w)" "contexts w3 = contexts w"
        "decoded (blocks (shm w3) a) = DECODE_CLAIMED"
        using hand_decoded [OF h1 be1, of DECODE_CLAIMED] rw(3,4) True by (simp_all add: w3_def decode_states)
      have be3: "block_entry (ctx_session_idx ctx) bid (shm w3) = Some a"
        using v block_entry_frame [OF w3(2)] by (simp add: valid_packet_def)
      obtain b w4 where dw: "decode_and_write_block env ctx bid a w3 = (b, w4)" by fastforce
      have "w' = w4" using hp step True dw by (auto simp: w3_def [symmetric] split: bool.splits)
      with decode_and_write_inv [OF w3(1) be3 w3(4) _ dw] fit w3 show ?thesis by (auto simp: ctx_fits_def)
    next
      case False
      then have "w' = w1" using hp step by auto
      then show ?thesis using h1 rw(3,4) by auto
    qed
  qed
qed

lemma handle_data_packet_inv:
  assumes inv: "shm_inv (env_mgr env) (shm w) fl"
    and fits: "\<And>ctx. contexts w sid = Some ctx \<Longrightarrow> ctx_fits (shm w) ctx"
    and hp: "handle_data_packet env sid bid symid payload w = (r, w')"
  shows "\<exists>fl'. shm_inv (env_mgr env) (shm w') fl'" and "session_table (shm w') = session_table (shm w)"
    and "contexts w' = contexts w"
proof -
  let ?mgr = "env_mgr env"
  have "(\<exists>fl'. shm_hand ?mgr (shm w') fl' []) \<and> session_table (shm w') = session_table (shm w) \<and> contexts w' = contexts w"
  proof (cases "contexts w sid")
    case None
    then show ?thesis using hp inv packet_rejected(1) [OF None] by (auto simp: shm_inv_def)
  next
    case (Some ctx)
    show ?thesis
    proof (cases "\<exists>a. valid_packet ctx bid symid payload a w")
      case False
      then have "symid \<ge> ctx_n ctx \<or> length payload \<noteq> unat (ctx_symbol_bytes ctx) \<or>
          block_entry (ctx_session_idx ctx) bid (shm w) = None"
        by (auto simp: valid_packet_def not_le)
      then have "w' = w" using hp packet_rejected(2) [OF Some, of symid payload env bid]
        packet_rejected(3) [OF Some, of bid env symid payload] by auto
      then show ?thesis using inv by (auto simp: shm_inv_def)
    next
      case True
      then obtain a where v: "valid_packet ctx bid symid payload a w" by blast
      show ?thesis by (rule valid_packet_inv [OF inv Some fits [OF Some] v hp])
    qed
  qed
  then show "\<exists>fl'. shm_inv ?mgr (shm w') fl'" "session_table (shm w') = session_table (shm w)" "contexts w' = contexts w"
    by (simp_all add: shm_inv_def)
qed

section \<open>What is written is what was sent\<close>

text \<open>Every symbol the block links holds its transmitted bytes.\<close>

definition block_holds :: "nat \<Rightarrow> u8 list list \<Rightarrow> nat \<Rightarrow> Segment \<Rightarrow> bool" where
  "block_holds symbol_bytes enc a seg \<longleftrightarrow>
     (\<forall>s. is_present (blocks seg a) s \<longrightarrow> read_slot (slot_of (blocks seg a) s) symbol_bytes seg = enc ! unat s)"

lemma held_link:
  assumes "shm_hand mgr seg fl hand" and "block_entry sidx bid seg = Some a"
    and "is_present (blocks seg a) s" and "slot_of (blocks seg a) s \<noteq> kListEnd"
  shows "slot_of (blocks seg a) s \<in> set (held_slots seg)"
proof -
  note be = block_entry_Some [OF assms(1,2)]
  have "unat s < 255" using assms(3) by (simp add: is_present_def MAX_N_less [symmetric] not_le)
  then have "slot_of (blocks seg a) s \<in> set (block_slots (block_at seg (unat sidx) (unat bid)))"
    using assms(3,4) by (auto simp: block_slots_def be(5) [symmetric] intro!: image_eqI [of _ _ "unat s"])
  then have "slot_of (blocks seg a) s \<in> set (session_slots seg (unat sidx))"
    using be(2,3) by (auto simp: session_slots_def)
  then show ?thesis using be(1) by (auto simp: held_slots_def)
qed

lemma read_slot_other:
  assumes "x \<noteq> y" and "length bs \<le> 1536" and "m \<le> 1536"
  shows "mem_read (slot_addr y) m (mem_write (slot_addr x) bs mem) = mem_read (slot_addr y) m mem"
  using slot_addr_apart [OF assms(1)] assms(2,3) by (intro mem_read_write_other) auto

lemma registered_world_holds:
  assumes inv: "shm_inv (env_mgr env) (shm w) fl" and fit: "ctx_fits (shm w) ctx"
    and v: "valid_packet ctx bid symid payload a w"
    and dc: "decoded (blocks (shm w) a) \<noteq> DECODE_COMPLETE" and np: "\<not> is_present (blocks (shm w) a) symid"
    and al: "alloc_slot (env_mgr env) (shm w) = (x, seg)" "x \<noteq> kListEnd"
    and w1: "w1 = registered_world env symid payload a w"
    and holds: "block_holds (unat (ctx_symbol_bytes ctx)) enc a (shm w)" and pl: "payload = enc ! unat symid"
  shows "block_holds (unat (ctx_symbol_bytes ctx)) enc a (shm w1)"
  unfolding block_holds_def
proof (intro allI impI)
  fix s assume p: "is_present (blocks (shm w1) a) s"
  let ?e = "blocks (shm w) a" and ?sb = "unat (ctx_symbol_bytes ctx)"
  note rw = registered_world_hand [OF inv fit v dc np al w1]
  have links: "links (blocks (shm w1) a) s = Some (slot_of (blocks (shm w1) a) s)" using p by (simp add: links_def)
  have sb: "?sb \<le> 1536" "length payload = ?sb"
    using fit v by (auto simp: ctx_fits_def valid_packet_def SLOT_SIZE_def word_le_nat_alt)
  show "read_slot (slot_of (blocks (shm w1) a) s) ?sb (shm w1) = enc ! unat s"
  proof (cases "s = symid")
    case True
    then have "slot_of (blocks (shm w1) a) s = x" using links rw(6) by simp
    then show ?thesis using sb by (simp add: read_slot_def rw(8) True pl)
  next
    case False
    then have old: "links ?e s = Some (slot_of (blocks (shm w1) a) s)" using links rw(6) by simp
    then have ps: "is_present ?e s" and so: "slot_of ?e s = slot_of (blocks (shm w1) a) s"
      by (auto simp: links_def split: if_splits)
    have hand: "shm_hand (env_mgr env) (shm w) fl []" using inv by (simp add: shm_inv_def)
    have be: "block_entry (ctx_session_idx ctx) bid (shm w) = Some a" using v by (simp add: valid_packet_def)
    have ne: "slot_of ?e s \<noteq> kListEnd"
      using block_entry_Some(6) [OF hand be] dc old so unfolding block_ok_def by auto
    have "x \<noteq> slot_of ?e s"
      using held_link [OF hand be ps ne] held_owned(2) [OF inv] rw(2) by auto
    then have "read_slot (slot_of ?e s) ?sb (shm w1) = read_slot (slot_of ?e s) ?sb (shm w)"
      using sb by (simp add: read_slot_def rw(8) read_slot_other)
    then show ?thesis using holds ps unfolding block_holds_def so [symmetric] by simp
  qed
qed

lemma gather_symbols_nth:
  assumes "s < unat n" and "s < 255" and "gather_present n e ! s"
  shows "gather_symbols n m e seg ! s = read_slot (slot_of e (of_nat s)) m seg"
  using assms by (simp add: gather_symbols_def gather_present_nth MAX_N_def)

lemma present_count:
  assumes "block_ok n e" and "n \<le> MAX_N"
  shows "length (filter (\<lambda>s. gather_present n e ! s) [0..<unat n]) = card (dom (links e))"
proof -
  let ?S = "{s. s < unat n \<and> gather_present n e ! s}"
  have n: "unat n \<le> 255" using assms(2) by (simp add: MAX_N_def word_le_nat_alt)
  have "dom (links e) = of_nat ` ?S"
  proof (intro set_eqI iffI)
    fix s assume "s \<in> dom (links e)"
    then have s: "is_present e s" "unat s < unat n" using assms(1) by (auto simp: dom_links block_ok_def word_less_nat_alt)
    then show "s \<in> of_nat ` ?S" using n by (intro image_eqI [of _ _ "unat s"]) (simp_all add: gather_present_nth)
  qed (use n in \<open>auto simp: gather_present_nth dom_links\<close>)
  moreover have "inj_on (of_nat :: nat \<Rightarrow> u32) ?S"
    by (rule inj_onI, rule u32_of_nat_255) (use n in auto)
  ultimately have "card (dom (links e)) = card ?S" by (simp add: card_image)
  also have "\<dots> = length (filter (\<lambda>s. gather_present n e ! s) [0..<unat n])"
    by (subst distinct_card [symmetric]) (auto intro: arg_cong [where f = card])
  finally show ?thesis by simp
qed

text \<open>The sender's view of a session: k data symbols of a block, and the n symbols it transmits.\<close>

definition sent_symbols :: "isal \<Rightarrow> SessionContext \<Rightarrow> u8 list list \<Rightarrow> u8 list list" where
  "sent_symbols lib ctx d = d @ encode_for_testing lib (ctx_codec ctx) d"

definition ctx_coded :: "Env \<Rightarrow> SessionContext \<Rightarrow> u8 list list \<Rightarrow> bool" where
  "ctx_coded env ctx d \<longleftrightarrow>
     isal_documented (env_lib env) \<and> cauchy_documented (env_lib env) (unat (ctx_n ctx)) (unat (ctx_k ctx)) \<and>
     ctx_codec ctx = new_codec (env_lib env) (ctx_k ctx) (ctx_n ctx) (ctx_symbol_bytes ctx) \<and> ctx_k ctx \<le> ctx_n ctx \<and>
     unat (bw_block_bytes (ctx_writer ctx)) = unat (ctx_k ctx) * unat (ctx_symbol_bytes ctx) \<and>
     length d = unat (ctx_k ctx) \<and> (\<forall>s\<in>set d. length s = unat (ctx_symbol_bytes ctx))"

definition ctx_coding :: "Env \<Rightarrow> SessionContext \<Rightarrow> Coding" where
  "ctx_coding env ctx = \<lparr>cd_lib = env_lib env, cd_k = ctx_k ctx, cd_n = ctx_n ctx, cd_symbol_bytes = ctx_symbol_bytes ctx\<rparr>"

lemma ctx_coding_suits:
  assumes "ctx_coded env ctx d"
  shows "coding_suits (ctx_coding env ctx) d" and "coding_codec (ctx_coding env ctx) = ctx_codec ctx"
  using assms by (simp_all add: ctx_coded_def coding_suits_def coding_codec_def ctx_coding_def)

text \<open>What the gather loop collects from an intact block is part of the codeword.\<close>

lemma gathered_intact:
  assumes cod: "ctx_coded env ctx d" and n: "ctx_n ctx \<le> MAX_N"
    and holds: "block_holds (unat (ctx_symbol_bytes ctx)) (sent_symbols (env_lib env) ctx d) a seg"
  shows "\<forall>i<unat (cd_n (ctx_coding env ctx)). gather_present (ctx_n ctx) (blocks seg a) ! i \<longrightarrow>
     gather_symbols (ctx_n ctx) (unat (ctx_symbol_bytes ctx)) (blocks seg a) seg ! i =
     (d @ encode_for_testing (cd_lib (ctx_coding env ctx)) (coding_codec (ctx_coding env ctx)) d) ! i"
proof (intro allI impI)
  fix i assume that: "i < unat (cd_n (ctx_coding env ctx))" "gather_present (ctx_n ctx) (blocks seg a) ! i"
  have i: "i < unat (ctx_n ctx)" "i < 255" using that(1) n by (simp_all add: ctx_coding_def MAX_N_def word_le_nat_alt)
  have "is_present (blocks seg a) (of_nat i)" using that(2) i(2) by (simp add: gather_present_nth)
  moreover have "unat (of_nat i :: u32) = i" using i(2) by (simp add: unat_of_nat_small)
  ultimately show "gather_symbols (ctx_n ctx) (unat (ctx_symbol_bytes ctx)) (blocks seg a) seg ! i =
     (d @ encode_for_testing (cd_lib (ctx_coding env ctx)) (coding_codec (ctx_coding env ctx)) d) ! i"
    using holds ctx_coding_suits(2) [OF cod]
    by (simp add: gather_symbols_nth [OF i that(2)] block_holds_def sent_symbols_def ctx_coding_def)
qed

lemma gathered_decodes:
  assumes "ctx_coded env ctx d" and "ctx_n ctx \<le> MAX_N"
    and "block_holds (unat (ctx_symbol_bytes ctx)) (sent_symbols (env_lib env) ctx d) a seg"
    and "unat (ctx_k ctx) \<le> length (filter (\<lambda>s. gather_present (ctx_n ctx) (blocks seg a) ! s) [0..<unat (ctx_n ctx)])"
  shows "rs_decode (env_lib env) (ctx_codec ctx)
       (gather_symbols (ctx_n ctx) (unat (ctx_symbol_bytes ctx)) (blocks seg a) seg) (gather_present (ctx_n ctx) (blocks seg a)) =
     Some (concat d)"
  using rs_code.enough_decodes [OF ctx_coding_suits(1) [OF assms(1)] gathered_intact [OF assms(1-3)]] assms(4)
  unfolding ctx_coding_suits(2) [OF assms(1)] by (simp add: ctx_coding_def)

lemma gathered_is_data:
  assumes "ctx_coded env ctx d" and "ctx_n ctx \<le> MAX_N"
    and "block_holds (unat (ctx_symbol_bytes ctx)) (sent_symbols (env_lib env) ctx d) a seg"
    and "rs_decode (env_lib env) (ctx_codec ctx)
       (gather_symbols (ctx_n ctx) (unat (ctx_symbol_bytes ctx)) (blocks seg a) seg) (gather_present (ctx_n ctx) (blocks seg a)) =
     Some out"
  shows "out = concat d"
  using rs_code.decoded_is_data [OF ctx_coding_suits(1) [OF assms(1)] gathered_intact [OF assms(1-3)]] assms(4)
  unfolding ctx_coding_suits(2) [OF assms(1)] by (simp add: ctx_coding_def)

section \<open>Properties\<close>

lemma decode_result:
  assumes cod: "ctx_coded env ctx d" and n: "ctx_n ctx \<le> MAX_N"
    and holds: "block_holds (unat (ctx_symbol_bytes ctx)) (sent_symbols (env_lib env) ctx d) a (shm w)"
    and dw: "decode_and_write_block env ctx bid a w = (True, w')"
  shows "i < block_len (ctx_writer ctx) bid \<Longrightarrow>
     block_off (ctx_writer ctx) bid + i < unat (bw_file_size (ctx_writer ctx)) \<and>
     durable (files w' (bw_path (ctx_writer ctx))) (block_off (ctx_writer ctx) bid + i) = concat d ! i"
proof -
  let ?wr = "ctx_writer ctx" and ?path = "bw_path (ctx_writer ctx)"
  assume i: "i < block_len ?wr bid"
  obtain out where out: "rs_decode (env_lib env) (ctx_codec ctx)
       (gather_symbols (ctx_n ctx) (unat (ctx_symbol_bytes ctx)) (blocks (shm w) a) (shm w))
       (gather_present (ctx_n ctx) (blocks (shm w) a)) = Some out"
    using dw by (auto simp: decode_and_write_block_def Let_def split: option.splits)
  note rs = out [unfolded gathered_is_data [OF cod n holds out]]
  obtain f1 f2 where wb: "write_block ?wr bid (concat d) (files w ?path) = (True, f1)"
    and fb: "flush_block (env_os env) ?wr bid f1 = (True, f2)" and fw: "files w' ?path = f2"
    using dw by (auto simp: decode_and_write_block_def Let_def rs split: prod.splits bool.splits)
  have "length (concat d) = unat (ctx_k ctx) * unat (ctx_symbol_bytes ctx)"
    using cod length_concat_rows [of d "unat (ctx_symbol_bytes ctx)"] by (simp add: ctx_coded_def)
  then have len: "unat (bw_block_bytes ?wr) \<le> length (concat d)" using cod by (simp add: ctx_coded_def)
  from write_flush_durable_lemma [OF wb fb len i] fw show ?thesis by simp
qed

lemma seen_count:
  assumes "block_ok n e"
  shows "unat (seen e) = card (dom (links e))"
proof -
  have "unat ` dom (links e) \<subseteq> {..<255}" by (auto simp: dom_links is_present_def MAX_N_less not_le)
  then have "card (unat ` dom (links e)) \<le> 255" by (metis card_lessThan card_mono finite_lessThan)
  then have "card (dom (links e)) \<le> 255" by (simp add: card_image inj_on_def unsigned_word_eqI)
  then show ?thesis using assms by (simp add: block_ok_def block_wf_def unat_of_nat_small)
qed

lemma release_loop_decoded:
  "decoded (blocks (fold (\<lambda>s seg. if present ! s then release_symbol mgr a (of_nat s) seg else seg) ss seg) a) =
   decoded (blocks seg a)"
  by (induction ss arbitrary: seg) (simp_all add: release_symbol_eq Let_def)

text \<open>A symbol that leaves the block below k is only registered.\<close>

lemma packet_below_threshold:
  assumes inv: "shm_inv (env_mgr env) (shm w) fl" and "fl \<noteq> []" and ctx: "contexts w sid = Some ctx" and fit: "ctx_fits (shm w) ctx"
    and v: "valid_packet ctx bid symid payload a w"
    and dc: "decoded (blocks (shm w) a) \<noteq> DECODE_COMPLETE" and np: "\<not> is_present (blocks (shm w) a) symid"
    and few: "card (dom (links (blocks (shm w) a))) + 1 < unat (ctx_k ctx)"
  shows "handle_data_packet env sid bid symid payload w =
    ((RegisteredOnly, None), registered_world env symid payload a w)"
proof -
  obtain x seg where al: "alloc_slot (env_mgr env) (shm w) = (x, seg)" by fastforce
  have xe: "x \<noteq> kListEnd" using hand_alloc_fail [OF inv] assms(2) al by simp
  define w1 where "w1 = registered_world env symid payload a w"
  note rw = registered_world_hand [OF inv fit v dc np al xe w1_def]
  obtain fl' where h1: "shm_hand (env_mgr env) (shm w1) fl' []" using rw(2) by blast
  have "block_entry (ctx_session_idx ctx) bid (shm w1) = Some a"
    using v block_entry_frame [OF rw(3)] by (simp add: valid_packet_def)
  note ok = block_entry_Some(6) [OF h1 this]
  have "card (dom (links (blocks (shm w1) a))) = card (dom (links (blocks (shm w) a))) + 1"
    using np by (simp add: rw(6) dom_links)
  then have "\<not> seen (blocks (shm w1) a) \<ge> ctx_k ctx" using few seen_count [OF ok] by (simp add: word_le_nat_alt)
  moreover have "handle_data_packet env sid bid symid payload w =
     (if seen (blocks (shm w1) a) \<ge> ctx_k ctx \<and> decoded (blocks (shm w1) a) = DECODE_PENDING
      then (case decode_and_write_block env ctx bid a (set_block a ((blocks (shm w1) a)\<lparr>decoded := DECODE_CLAIMED\<rparr>) w1) of
              (True, w) \<Rightarrow> ((BlockDecoded, Some bid), w) | (False, w) \<Rightarrow> ((RegisteredOnly, None), w))
      else ((RegisteredOnly, None), w1))"
    by (rule packet_registered [OF ctx v dc np _ _ w1_def refl]) (use xe rw(1) al in simp_all)
  ultimately show ?thesis by (simp add: w1_def)
qed

lemma kth_symbol_lemma:
  assumes "shm_inv (env_mgr env) (shm w) fl" and "fl \<noteq> []" and "contexts w sid = Some ctx" and "ctx_fits (shm w) ctx"
    and "se_n (session_table (shm w) ! unat (ctx_session_idx ctx)) = ctx_n ctx"
    and "ctx_coded env ctx d" and "valid_packet ctx bid symid payload a w"
    and "block_holds (unat (ctx_symbol_bytes ctx)) (sent_symbols (env_lib env) ctx d) a (shm w)"
    and "payload = sent_symbols (env_lib env) ctx d ! unat symid"
    and "decoded (blocks (shm w) a) = DECODE_PENDING" and "\<not> is_present (blocks (shm w) a) symid"
    and "unat (ctx_k ctx) \<le> card (dom (links (blocks (shm w) a))) + 1"
    and "bw_mapped (ctx_writer ctx)" and "block_off (ctx_writer ctx) bid < unat (bw_file_size (ctx_writer ctx))"
    and "\<forall>off len. os_msync (env_os env) off len"
  shows "\<exists>w'. handle_data_packet env sid bid symid payload w = ((BlockDecoded, Some bid), w') \<and>
     decoded (blocks (shm w') a) = DECODE_COMPLETE \<and>
     store_block (env_os env) (ctx_writer ctx) (bid, concat d) (files w (bw_path (ctx_writer ctx))) =
       Some (files w' (bw_path (ctx_writer ctx))) \<and>
     (\<exists>fl'. shm_inv (env_mgr env) (shm w') fl' \<and> length fl' = length fl + card (dom (links (blocks (shm w) a))))"
proof -
  note inv = assms(1) and ctx = assms(3) and fit = assms(4) and v = assms(7) and np = assms(11)
  have dc: "decoded (blocks (shm w) a) \<noteq> DECODE_COMPLETE" using assms(10) by (simp add: decode_states)
  obtain x seg where al: "alloc_slot (env_mgr env) (shm w) = (x, seg)" by fastforce
  have xe: "x \<noteq> kListEnd" using hand_alloc_fail [OF inv] assms(2) al by simp
  define w1 where "w1 = registered_world env symid payload a w"
  note rw = registered_world_hand [OF inv fit v dc np al xe w1_def]
  note holds = registered_world_holds [OF inv fit v dc np al xe w1_def assms(8,9)]
  obtain fl' where fl': "fl = x # fl'" and h1: "shm_hand (env_mgr env) (shm w1) fl' []" using rw(2) by blast
  have be1: "block_entry (ctx_session_idx ctx) bid (shm w1) = Some a"
    using v block_entry_frame [OF rw(3)] by (simp add: valid_packet_def)
  let ?e = "blocks (shm w1) a" and ?wr = "ctx_writer ctx"
  define w3 where "w3 = set_block a (?e\<lparr>decoded := DECODE_CLAIMED\<rparr>) w1"
  have ok: "block_ok (ctx_n ctx) ?e" using block_entry_Some(6) [OF h1 be1] rw(3) assms(5) by simp
  have count: "card (dom (links ?e)) = card (dom (links (blocks (shm w) a))) + 1"
    using np by (simp add: rw(6) dom_links)
  have "unat (seen ?e) = card (dom (links ?e))" by (rule seen_count [OF ok])
  then have seen: "seen ?e \<ge> ctx_k ctx" using assms(12) count by (simp add: word_le_nat_alt)
  have new: "fst (alloc_slot (env_mgr env) (shm w)) \<noteq> kListEnd"
    "fst (register_symbol symid (fst (alloc_slot (env_mgr env) (shm w))) (blocks (shm w) a)) = NewSymbol"
    using xe rw(1) by (simp_all add: al)
  have hp: "handle_data_packet env sid bid symid payload w =
     (case decode_and_write_block env ctx bid a w3 of
        (True, w) \<Rightarrow> ((BlockDecoded, Some bid), w) | (False, w) \<Rightarrow> ((RegisteredOnly, None), w))"
    using packet_registered [OF ctx v dc np new w1_def refl] seen rw(7) assms(10) by (simp add: w3_def)
  have e3: "blocks (shm w3) a = ?e\<lparr>decoded := DECODE_CLAIMED\<rparr>" by (simp add: w3_def)
  have ok3: "block_ok (ctx_n ctx) (blocks (shm w3) a)"
    unfolding e3 by (rule block_ok_same_links(1) [OF ok]) (use ok rw(7) assms(10) in \<open>simp_all add: block_ok_def decode_states\<close>)
  have "block_holds (unat (ctx_symbol_bytes ctx)) (sent_symbols (env_lib env) ctx d) a (shm w3)"
    using holds by (simp add: block_holds_def w3_def read_slot_def)
  from gathered_decodes [OF assms(6) _ this] fit present_count [OF ok3] assms(12) count
  have rs: "rs_decode (env_lib env) (ctx_codec ctx)
       (gather_symbols (ctx_n ctx) (unat (ctx_symbol_bytes ctx)) (blocks (shm w3) a) (shm w3))
       (gather_present (ctx_n ctx) (blocks (shm w3) a)) = Some (concat d)"
    by (simp add: ctx_fits_def e3)
  obtain f where wb: "write_block ?wr bid (concat d) (files w3 (bw_path ?wr)) = (True, f)"
    using assms(13,14) by (simp add: write_block_cases)
  obtain f' where fb: "flush_block (env_os env) ?wr bid f = (True, f')"
    using assms(13-15) by (auto simp: flush_block_def Let_def msync_def block_off_def word_le_nat_alt)
  have mk: "mark_decode_complete (blocks (shm w3) a) = (True, ?e\<lparr>decoded := DECODE_COMPLETE\<rparr>)"
    by (simp add: e3 mark_decode_complete_def)
  obtain w4 where dw: "decode_and_write_block env ctx bid a w3 = (True, w4)"
    unfolding decode_and_write_block_def Let_def rs by (simp add: wb fb mk)
  moreover have "decoded (blocks (shm w4) a) = DECODE_COMPLETE" "files w4 (bw_path ?wr) = f'"
    using dw unfolding decode_and_write_block_def Let_def rs
    by (auto simp: wb fb mk release_loop_decoded)
  moreover have "store_block (env_os env) ?wr (bid, concat d) (files w (bw_path ?wr)) = Some f'"
    using wb fb rw(5) by (simp add: store_block_def w3_def)
  moreover have "\<exists>fl'. shm_inv (env_mgr env) (shm w4) fl' \<and> length fl' = length fl + card (dom (links (blocks (shm w) a)))"
  proof -
    have h3: "shm_hand (env_mgr env) (shm w3) fl' []"
      using hand_decoded [OF h1 be1, of DECODE_CLAIMED] rw(7) assms(10) by (simp add: w3_def decode_states)
    have be3: "block_entry (ctx_session_idx ctx) bid (shm w3) = Some a"
      using be1 block_entry_frame [of "shm w3" "shm w1"] by (simp add: w3_def)
    have n: "decoded (blocks (shm w3) a) = DECODE_CLAIMED" "ctx_n ctx \<le> MAX_N" using fit by (simp_all add: e3 ctx_fits_def)
    from decode_and_write_inv(4) [OF h3 be3 n dw]
    obtain fl2 where "shm_hand (env_mgr env) (shm w4) fl2 []"
      "length fl2 = length fl' + length (filter (\<lambda>s. gather_present (ctx_n ctx) (blocks (shm w3) a) ! s) [0..<unat (ctx_n ctx)])"
      by blast
    moreover have "card (dom (links (blocks (shm w3) a))) = card (dom (links (blocks (shm w) a))) + 1" by (simp add: e3 count)
    ultimately show ?thesis unfolding present_count [OF ok3 n(2)] shm_inv_def fl' by (intro exI [of _ fl2]) simp
  qed
  ultimately show ?thesis using hp by auto
qed

section \<open>A concrete session\<close>

text \<open>
  One session, k = 2, n = 3, symbols of 3 bytes, two blocks, a file of 11 bytes: before its first packet, and
  after symbol 0 of block 0.
\<close>

definition demo_seg :: Segment where
  "demo_seg = snd (open_session attached_mgr ''s1'' 2 3 3 2 11 ''/d'' fresh3)"

definition demo_env :: Env where
  "demo_env = \<lparr>env_mgr = attached_mgr, env_lib = isal_small, env_os = os_ok\<rparr>"

definition demo_writer :: BlockWriter where
  "demo_writer = \<lparr>bw_fd = 4, bw_mapped = True, bw_file_size = 11, bw_block_bytes = 6, bw_path = ''/d''\<rparr>"

definition demo_ctx :: SessionContext where
  "demo_ctx = \<lparr>ctx_session_idx = 0, ctx_k = 2, ctx_n = 3, ctx_symbol_bytes = 3,
     ctx_codec = new_codec isal_small 2 3 3, ctx_writer = demo_writer\<rparr>"

definition demo :: World where
  "demo = \<lparr>shm = demo_seg, contexts = [''s1'' \<mapsto> demo_ctx],
     files = (\<lambda>_. \<lparr>cached = (\<lambda>_. 0), durable = (\<lambda>_. 0)\<rparr>)\<rparr>"

definition demo_block0 :: "u8 list list" where "demo_block0 = [[1, 2, 3], [4, 5, 6]]"
definition demo_block1 :: "u8 list list" where "demo_block1 = [[7, 8, 9], [10, 11, 0]]"

lemma demo_sel [simp]:
  "env_mgr demo_env = attached_mgr" "env_lib demo_env = isal_small" "env_os demo_env = os_ok"
  "bw_mapped demo_writer" "bw_file_size demo_writer = 11" "bw_block_bytes demo_writer = 6" "bw_path demo_writer = ''/d''"
  "ctx_session_idx demo_ctx = 0" "ctx_k demo_ctx = 2" "ctx_n demo_ctx = 3" "ctx_symbol_bytes demo_ctx = 3"
  "ctx_codec demo_ctx = new_codec isal_small 2 3 3" "ctx_writer demo_ctx = demo_writer"
  "shm demo = demo_seg" "contexts demo = [''s1'' \<mapsto> demo_ctx]"
  by (simp_all add: demo_env_def demo_writer_def demo_ctx_def demo_def)

lemma demo_ranges:
  "block_off demo_writer 0 = 0" "block_len demo_writer 0 = 6" "block_off demo_writer 1 = 6" "block_len demo_writer 1 = 5"
  by (simp_all add: block_off_def block_len_def)

lemma demo_inv: "shm_inv attached_mgr demo_seg [0, 1, 2]"
  unfolding demo_seg_def by (rule open_session_inv [OF fresh3_inv])

lemma demo_claimed: "demo_seg = claim_session 0 ''s1'' 2 3 3 2 11 ''/d'' fresh3"
  using attached_mgr by (simp add: demo_seg_def open_session_def attached_def fresh3_find MAX_BLOCKS_PER_SESSION_def)

lemma demo_session:
  "se_state (session_table demo_seg ! 0) = SESSION_STATE_OPEN" "se_n (session_table demo_seg ! 0) = 3"
  "se_total_blocks (session_table demo_seg ! 0) = 2" "se_block_table_offset (session_table demo_seg ! 0) = 0"
  using shm_invD(3) [OF fresh3_inv]
  by (simp_all add: demo_claimed claim_session_def Let_def)
    (simp add: fresh3_def init_free_list_def slots3_def Let_def zero_header_def)

lemma demo_seg_found: "find_session ''s1'' demo_seg = Some 0"
  using demo_session(1) shm_invD(3) [OF fresh3_inv]
  by (auto simp: find_session_def find_Some_iff MAX_SESSIONS_def demo_claimed claim_session_def Let_def strncmp_eq_def
      intro!: exI [of _ 0])

lemma demo_entry: "block_entry 0 0 demo_seg = Some 0"
  using demo_session by (simp add: block_entry_def Let_def MAX_SESSIONS_def table_entry_def)

lemma demo_blocks: "a < 2128 \<Longrightarrow> blocks demo_seg a = zero_block"
proof -
  have "block_table_region_offset (hdr fresh3) = 0"
    by (simp add: fresh3_def init_free_list_def slots3_def Let_def zero_header_def)
  then show "a < 2128 \<Longrightarrow> blocks demo_seg a = zero_block" by (simp add: demo_claimed claim_session_def Let_def zero_blocks_def)
qed

lemma demo_block: "blocks demo_seg 0 = zero_block"
  by (rule demo_blocks) simp

lemma demo_coded: "ctx_coded demo_env demo_ctx demo_block0" "ctx_coded demo_env demo_ctx demo_block1"
  using isal_small_documented isal_small_cauchy by (simp_all add: ctx_coded_def demo_block0_def demo_block1_def)

lemma demo_fits: "ctx_fits demo_seg demo_ctx"
  using demo_session by (simp add: ctx_fits_def MAX_N_def SLOT_SIZE_def)

lemma demo_sent:
  "sent_symbols isal_small demo_ctx demo_block0 = [[1, 2, 3], [4, 5, 6], [121, 2, 141]]"
  "sent_symbols isal_small demo_ctx demo_block1 = [[7, 8, 9], [10, 11, 0], [139, 246, 138]]"
  by (simp_all add: sent_symbols_def demo_block0_def demo_block1_def encode_for_testing_def new_codec_def Let_def cauchy_3_2)
    (simp_all add: isal_small_def mat_apply_def upto_small gsum_2 gf_eval)

lemma demo_holds: "block_holds 3 enc 0 demo_seg"
  by (simp add: block_holds_def demo_block)

lemma demo_packet: "valid_packet demo_ctx 0 0 [1, 2, 3] 0 demo"
  using demo_entry by (simp add: valid_packet_def)

definition demo1 :: World where
  "demo1 = registered_world demo_env 0 [1, 2, 3] 0 demo"

lemma present_links: "is_present e s \<longleftrightarrow> links e s \<noteq> None"
  by (simp add: links_def)

lemma demo1_alloc: "\<exists>seg. alloc_slot attached_mgr demo_seg = (0, seg)"
  using alloc_slot_pop(1) [OF attached_mgr shm_invD(2) [OF demo_inv]] by (metis prod.collapse)

lemma demo1_state:
  "shm_inv attached_mgr (shm demo1) [1, 2]" "session_table (shm demo1) = session_table demo_seg"
  "contexts demo1 = [''s1'' \<mapsto> demo_ctx]" "links (blocks (shm demo1) 0) = [0 \<mapsto> 0]"
  "decoded (blocks (shm demo1) 0) = DECODE_PENDING" "block_holds 3 (sent_symbols isal_small demo_ctx demo_block0) 0 (shm demo1)"
proof -
  obtain seg where al: "alloc_slot attached_mgr demo_seg = (0, seg)" using demo1_alloc by blast
  have pend: "decoded (blocks demo_seg 0) = DECODE_PENDING" by (simp add: demo_block zero_block_def decode_states)
  have args: "shm_inv (env_mgr demo_env) (shm demo) [0, 1, 2]" "ctx_fits (shm demo) demo_ctx"
    "decoded (blocks (shm demo) 0) \<noteq> DECODE_COMPLETE" "\<not> is_present (blocks (shm demo) 0) 0"
    "alloc_slot (env_mgr demo_env) (shm demo) = (0, seg)" "0 \<noteq> kListEnd"
    using demo_inv demo_fits demo_block pend al by (simp_all add: decode_states kListEnd_eq)
  note rw = registered_world_hand [OF args(1,2) demo_packet args(3-6) demo1_def]
  show "shm_inv attached_mgr (shm demo1) [1, 2]" using rw(2) by (simp add: shm_inv_def)
  show "session_table (shm demo1) = session_table demo_seg" "contexts demo1 = [''s1'' \<mapsto> demo_ctx]"
    "links (blocks (shm demo1) 0) = [0 \<mapsto> 0]" "decoded (blocks (shm demo1) 0) = DECODE_PENDING"
    using rw(3,4,6,7) pend by (simp_all add: demo_block)
  let ?enc = "sent_symbols isal_small demo_ctx demo_block0"
  have "block_holds (unat (ctx_symbol_bytes demo_ctx)) ?enc 0 (shm demo)" by (simp add: demo_holds)
  moreover have "[1, 2, 3] = ?enc ! unat (0 :: u32)" by (simp add: demo_sent)
  ultimately have "block_holds (unat (ctx_symbol_bytes demo_ctx)) ?enc 0 (shm demo1)"
    by (rule registered_world_holds [OF args(1,2) demo_packet args(3-6) demo1_def])
  then show "block_holds 3 ?enc 0 (shm demo1)" by simp
qed

lemma demo1_first: "handle_data_packet demo_env ''s1'' 0 0 [1, 2, 3] demo = ((RegisteredOnly, None), demo1)"
  unfolding demo1_def
  by (rule packet_below_threshold [of demo_env demo "[0, 1, 2]" "''s1''" demo_ctx 0 0 "[1, 2, 3]" 0])
    (use demo_inv demo_fits demo_packet in \<open>simp_all add: demo_block zero_block_def decode_states\<close>, simp_all flip: zero_block_def)

lemma demo1_entry: "block_entry 0 0 (shm demo1) = Some 0"
  using demo_entry block_entry_frame [OF demo1_state(2)] by simp

lemma demo1_fits: "ctx_fits (shm demo1) demo_ctx"
  using demo_fits by (simp add: ctx_fits_def demo1_state(2))

lemma demo_decodes: "\<exists>w'. handle_data_packet demo_env ''s1'' 0 2 [121, 2, 141] demo1 = ((BlockDecoded, Some 0), w')"
proof -
  have "valid_packet demo_ctx 0 2 [121, 2, 141] 0 demo1" using demo1_entry by (simp add: valid_packet_def)
  moreover have "\<not> is_present (blocks (shm demo1) 0) 2" by (simp add: present_links demo1_state(4))
  moreover have "[121, 2, 141] = sent_symbols (env_lib demo_env) demo_ctx demo_block0 ! unat (2 :: u32)"
    by (simp add: demo_sent)
  ultimately have "\<exists>w'. handle_data_packet demo_env ''s1'' 0 2 [121, 2, 141] demo1 = ((BlockDecoded, Some 0), w') \<and>
     decoded (blocks (shm w') 0) = DECODE_COMPLETE \<and>
     store_block (env_os demo_env) (ctx_writer demo_ctx) (0, concat demo_block0) (files demo1 (bw_path (ctx_writer demo_ctx))) =
       Some (files w' (bw_path (ctx_writer demo_ctx))) \<and>
     (\<exists>fl'. shm_inv (env_mgr demo_env) (shm w') fl' \<and> length fl' = length [1, 2 :: u32] + card (dom (links (blocks (shm demo1) 0))))"
    using demo1_state demo1_fits demo_coded(1) demo_session(2) demo_ranges
    by (intro kth_symbol_lemma [where fl = "[1, 2]" and sid = "''s1''"]) (simp_all add: os_ok_def)
  then show ?thesis by blast
qed

text \<open>
  C4: a reported block is the sender's block, durably.  Suppose the block's linked slots hold the symbols
  the sender transmitted for it and the packet carries its symbol.  If \<open>handle_data_packet\<close> returns
  \<open>BlockDecoded\<close>, it reports this packet's block id, and every byte of the block's range in the durable image
  of the destination file, all inside \<open>file_size\<close>, is the sender's byte, whichever symbols had arrived.
\<close>

theorem decoded_block_is_original:
  assumes "shm_inv (env_mgr env) (shm w) fl" and "contexts w sid = Some ctx" and "ctx_fits (shm w) ctx"
    and "ctx_coded env ctx d" and "block_entry (ctx_session_idx ctx) bid (shm w) = Some a"
    and "block_holds (unat (ctx_symbol_bytes ctx)) (sent_symbols (env_lib env) ctx d) a (shm w)"
    and "payload = sent_symbols (env_lib env) ctx d ! unat symid"
    and "handle_data_packet env sid bid symid payload w = ((BlockDecoded, out), w')"
  shows "out = Some bid \<and> (\<forall>i<block_len (ctx_writer ctx) bid.
     block_off (ctx_writer ctx) bid + i < unat (bw_file_size (ctx_writer ctx)) \<and>
     durable (files w' (bw_path (ctx_writer ctx))) (block_off (ctx_writer ctx) bid + i) = concat d ! i)"
proof -
  note inv = assms(1) and ctx = assms(2) and fit = assms(3) and hp = assms(8)
  have v: "valid_packet ctx bid symid payload a w"
    using hp packet_rejected(2) [OF ctx, of symid payload env bid] assms(5) by (auto simp: valid_packet_def not_le [symmetric])
  have dc: "decoded (blocks (shm w) a) \<noteq> DECODE_COMPLETE" and np: "\<not> is_present (blocks (shm w) a) symid"
    using hp packet_duplicate [OF ctx v] by auto
  obtain x seg where al: "alloc_slot (env_mgr env) (shm w) = (x, seg)" by fastforce
  have xe: "x \<noteq> kListEnd" using hp packet_exhausted [OF ctx v dc np, of env seg] al by auto
  define w1 where "w1 = registered_world env symid payload a w"
  note rw = registered_world_hand [OF inv fit v dc np al xe w1_def]
  note holds = registered_world_holds [OF inv fit v dc np al xe w1_def assms(6,7)]
  define w3 where "w3 = set_block a ((blocks (shm w1) a)\<lparr>decoded := DECODE_CLAIMED\<rparr>) w1"
  have new: "fst (alloc_slot (env_mgr env) (shm w)) \<noteq> kListEnd"
    "fst (register_symbol symid (fst (alloc_slot (env_mgr env) (shm w))) (blocks (shm w) a)) = NewSymbol"
    using xe rw(1) by (simp_all add: al)
  have dw: "decode_and_write_block env ctx bid a w3 = (True, w')" and out: "out = Some bid"
    using hp packet_registered [OF ctx v dc np new w1_def refl]
    by (auto simp: w3_def [symmetric] split: if_splits prod.splits bool.splits)
  have "block_holds (unat (ctx_symbol_bytes ctx)) (sent_symbols (env_lib env) ctx d) a (shm w3)"
    using holds by (simp add: block_holds_def w3_def read_slot_def)
  from decode_result [OF assms(4) _ this dw] fit out show ?thesis by (simp add: ctx_fits_def)
qed

theorem decoded_block_is_original_witness:
  "\<exists>w'. handle_data_packet demo_env ''s1'' 0 2 [121, 2, 141] demo1 = ((BlockDecoded, Some 0), w') \<and>
        (\<forall>i<6. durable (files w' ''/d'') i = [1, 2, 3, 4, 5, 6] ! i)"
proof -
  obtain w' where w': "handle_data_packet demo_env ''s1'' 0 2 [121, 2, 141] demo1 = ((BlockDecoded, Some 0), w')"
    using demo_decodes by blast
  have "\<forall>i<block_len (ctx_writer demo_ctx) 0.
     block_off (ctx_writer demo_ctx) 0 + i < unat (bw_file_size (ctx_writer demo_ctx)) \<and>
     durable (files w' (bw_path (ctx_writer demo_ctx))) (block_off (ctx_writer demo_ctx) 0 + i) = concat demo_block0 ! i"
    using w' demo1_state(1,3,6) demo1_fits demo_coded(1) demo1_entry
    by (intro conjunct2 [OF decoded_block_is_original [of demo_env demo1 "[1, 2]" "''s1''" demo_ctx demo_block0 0 0 _ 2 "Some 0" w']])
      (simp_all add: demo_sent)
  then show ?thesis using w' by (auto simp: demo_ranges demo_block0_def)
qed

section \<open>Runs of a receiver\<close>

datatype event = EvOpen SessionOpen u64 | EvPurge string | EvData string u32 u32 "u8 list"

fun apply_event :: "Env \<Rightarrow> event \<Rightarrow> World \<Rightarrow> World" where
  "apply_event env (EvOpen msg file_size) w = snd (handle_session_open env msg file_size w)"
| "apply_event env (EvPurge nid) w = purge_session env nid w"
| "apply_event env (EvData nid bid symid payload) w = snd (handle_data_packet env nid bid symid payload w)"

definition apart :: "string \<Rightarrow> World \<Rightarrow> bool" where
  "apart nid w \<longleftrightarrow> (\<forall>nid'\<in>dom (contexts w). nid' \<noteq> nid \<longrightarrow> \<not> strncmp_eq (c_str nid') (c_str nid) 63)"

definition pipe_inv :: "Env \<Rightarrow> World \<Rightarrow> bool" where
  "pipe_inv env w \<longleftrightarrow>
     (\<exists>fl. shm_inv (env_mgr env) (shm w) fl) \<and> (\<forall>nid\<in>dom (contexts w). apart nid w) \<and>
     (\<forall>nid ctx. contexts w nid = Some ctx \<longrightarrow>
        ctx_fits (shm w) ctx \<and> find_session (c_str nid) (shm w) = Some (unat (ctx_session_idx ctx)))"

text \<open>
  What the code leaves to its peers: at most 255 symbols, symbols that fit a slot, ids that differ in
  their first 63 characters, and agreement on n with an entry another process has opened.
\<close>

fun event_ok :: "World \<Rightarrow> event \<Rightarrow> bool" where
  "event_ok w (EvOpen msg file_size) \<longleftrightarrow>
     so_n msg \<le> MAX_N \<and> so_block_bytes msg \<le> SLOT_SIZE \<and> apart (so_session_id msg) w \<and>
     (case find_session (c_str (so_session_id msg)) (shm w) of
        None \<Rightarrow> True | Some i \<Rightarrow> so_n msg \<le> se_n (session_table (shm w) ! i))"
| "event_ok w (EvPurge nid) \<longleftrightarrow> apart nid w"
| "event_ok w (EvData nid bid symid payload) \<longleftrightarrow> True"

fun run_ok :: "Env \<Rightarrow> event list \<Rightarrow> World \<Rightarrow> bool" where
  "run_ok env [] w \<longleftrightarrow> True"
| "run_ok env (ev # evs) w \<longleftrightarrow> event_ok w ev \<and> run_ok env evs (apply_event env ev w)"

lemma strncmp_eq_sym: "strncmp_eq a b m = strncmp_eq b a m"
  by (auto simp: strncmp_eq_def)

lemma find_session_cong:
  assumes "\<And>j. j < 8 \<Longrightarrow>
     (se_state (session_table seg' ! j) = SESSION_STATE_OPEN \<and> strncmp_eq (se_session_id (session_table seg' ! j)) sid 63) =
     (se_state (session_table seg ! j) = SESSION_STATE_OPEN \<and> strncmp_eq (se_session_id (session_table seg ! j)) sid 63)"
  shows "find_session sid seg' = find_session sid seg"
  unfolding find_session_def by (rule find_cong) (use assms in \<open>auto simp: MAX_SESSIONS_def\<close>)

text \<open>Opening or closing one id leaves the entries of ids apart from it where they are.\<close>

lemma open_session_others:
  assumes inv: "shm_inv mgr seg fl" and os: "open_session mgr sid k n sb tb fs dest seg = (r, seg')"
    and other: "\<not> strncmp_eq sid' sid 63" and j: "find_session sid' seg = Some j"
  shows "find_session sid' seg' = Some j" "session_table seg' ! j = session_table seg ! j"
proof -
  have "find_session sid' seg' = find_session sid' seg \<and> session_table seg' ! j = session_table seg ! j"
  proof (cases "seg' = seg")
    case False
    then obtain i where e: "find_empty seg = Some i" and seg': "seg' = claim_session i sid k n sb tb fs dest seg"
      using os by (auto simp: open_session_def split: if_splits option.splits)
    have i: "i < 8" "se_state (session_table seg ! i) = SESSION_STATE_EMPTY" using find_empty_Some [OF e] by auto
    have same: "session_table seg' ! m = session_table seg ! m" if "m \<noteq> i" for m
      using that i(1) shm_invD(3) [OF inv] by (simp add: seg' claim_session_def Let_def)
    have "se_session_id (session_table seg' ! i) = take 63 sid"
      using i(1) shm_invD(3) [OF inv] by (simp add: seg' claim_session_def Let_def)
    then have "\<not> strncmp_eq (se_session_id (session_table seg' ! i)) sid' 63"
      using other by (auto simp: strncmp_eq_def)
    note neq = this
    have "find_session sid' seg' = find_session sid' seg"
    proof (rule find_session_cong)
      fix m :: nat
      show "(se_state (session_table seg' ! m) = SESSION_STATE_OPEN \<and> strncmp_eq (se_session_id (session_table seg' ! m)) sid' 63) =
        (se_state (session_table seg ! m) = SESSION_STATE_OPEN \<and> strncmp_eq (se_session_id (session_table seg ! m)) sid' 63)"
        using neq i(2) same [of m] by (cases "m = i") (simp_all add: session_states)
    qed
    moreover have "j \<noteq> i" using find_session_Some [OF j] i(2) by (auto simp: session_states)
    ultimately show ?thesis using same by simp
  qed simp
  then show "find_session sid' seg' = Some j" "session_table seg' ! j = session_table seg ! j" using j by auto
qed

lemma close_session_others:
  assumes inv: "shm_inv mgr seg fl" and other: "\<not> strncmp_eq sid' sid 63" and j: "find_session sid' seg = Some j"
  shows "find_session sid' (snd (close_session mgr (Some sid) seg)) = Some j"
    "session_table (snd (close_session mgr (Some sid) seg)) ! j = session_table seg ! j"
proof -
  let ?seg = "snd (close_session mgr (Some sid) seg)"
  have "find_session sid' ?seg = find_session sid' seg \<and> session_table ?seg ! j = session_table seg ! j"
  proof (cases "find_session sid seg")
    case None
    then have "?seg = seg" by (simp add: close_session_def)
    then show ?thesis by simp
  next
    case (Some i)
    obtain bl where cl: "close_session mgr (Some sid) seg =
       (True, set_state i SESSION_STATE_EMPTY
          ((fold (free_slot mgr) (session_slots seg i) (set_state i SESSION_STATE_CLOSING seg))\<lparr>blocks := bl\<rparr>))"
      by (rule close_session_found [OF inv Some]) blast
    have same: "session_table ?seg ! m = session_table seg ! m" if "m \<noteq> i" for m
      using that find_session_Some [OF Some] shm_invD(3) [OF inv] by (simp add: cl)
    have fi: "strncmp_eq (se_session_id (session_table seg ! i)) sid 63" using find_session_Some [OF Some] by simp
    then have ni: "\<not> strncmp_eq (se_session_id (session_table seg ! i)) sid' 63"
      using other by (auto simp: strncmp_eq_def)
    then have "find_session sid' ?seg = find_session sid' seg"
      using close_session_inv(3) [OF inv Some] same
      by (intro find_session_cong) (metis SESSION_STATE_EMPTY_def SESSION_STATE_OPEN_def zero_neq_one)
    moreover have "j \<noteq> i" using find_session_Some [OF j] ni by auto
    ultimately show ?thesis using same by simp
  qed
  then show "find_session sid' ?seg = Some j" "session_table ?seg ! j = session_table seg ! j" using j by auto
qed

lemma ctx_fits_frame:
  "session_table seg' ! unat (ctx_session_idx ctx) = session_table seg ! unat (ctx_session_idx ctx) \<Longrightarrow>
   ctx_fits seg' ctx = ctx_fits seg ctx"
  by (simp add: ctx_fits_def)

lemma data_event_inv:
  assumes "pipe_inv env w"
  shows "pipe_inv env (snd (handle_data_packet env nid bid symid payload w))"
proof -
  obtain fl where inv: "shm_inv (env_mgr env) (shm w) fl" using assms by (auto simp: pipe_inv_def)
  obtain r w' where hp: "handle_data_packet env nid bid symid payload w = (r, w')" by fastforce
  have "ctx_fits (shm w) ctx" if "contexts w nid = Some ctx" for ctx using assms that by (auto simp: pipe_inv_def)
  note d = handle_data_packet_inv [OF inv this hp]
  have "find_session sid (shm w') = find_session sid (shm w)" for sid by (simp add: find_session_def d(2))
  then show ?thesis using assms d by (simp add: hp pipe_inv_def apart_def ctx_fits_def)
qed

lemma purge_event_inv:
  assumes p: "pipe_inv env w" and ap: "apart nid w"
  shows "pipe_inv env (purge_session env nid w)"
proof -
  obtain fl where inv: "shm_inv (env_mgr env) (shm w) fl" using p by (auto simp: pipe_inv_def)
  let ?seg = "snd (close_session (env_mgr env) (Some (c_str nid)) (shm w))"
  have "\<exists>fl'. shm_inv (env_mgr env) ?seg fl'"
  proof (cases "find_session (c_str nid) (shm w)")
    case None
    then have "?seg = shm w" by (simp add: close_session_def)
    then show ?thesis using inv by metis
  next
    case (Some i)
    show ?thesis using close_session_inv(2) [OF inv Some] by (rule exI)
  qed
  then have 1: "\<exists>fl'. shm_inv (env_mgr env) (shm (purge_session env nid w)) fl'" by (simp add: purge_session_def)
  have 2: "apart nid' (purge_session env nid w)" if "nid' \<in> dom (contexts (purge_session env nid w))" for nid'
  proof -
    have "nid' \<in> dom (contexts w)" using that by (auto simp: purge_session_def split: if_splits)
    then have "apart nid' w" using p by (simp add: pipe_inv_def)
    then show ?thesis by (simp add: apart_def purge_session_def)
  qed
  have 3: "ctx_fits (shm (purge_session env nid w)) ctx \<and>
      find_session (c_str nid') (shm (purge_session env nid w)) = Some (unat (ctx_session_idx ctx))"
    if "contexts (purge_session env nid w) nid' = Some ctx" for nid' ctx
  proof -
    have ne: "nid' \<noteq> nid" and ctx: "contexts w nid' = Some ctx"
      using that by (auto simp: purge_session_def split: if_splits)
    have "\<not> strncmp_eq (c_str nid') (c_str nid) 63" using ap ne ctx by (auto simp: apart_def)
    moreover have old: "find_session (c_str nid') (shm w) = Some (unat (ctx_session_idx ctx))" "ctx_fits (shm w) ctx"
      using p ctx by (simp_all add: pipe_inv_def)
    ultimately have "find_session (c_str nid') ?seg = Some (unat (ctx_session_idx ctx))"
      "session_table ?seg ! unat (ctx_session_idx ctx) = session_table (shm w) ! unat (ctx_session_idx ctx)"
      using close_session_others [OF inv, of "c_str nid'" "c_str nid"] by blast+
    then show ?thesis using old(2) ctx_fits_frame [of ?seg ctx "shm w"] by (simp add: purge_session_def)
  qed
  show ?thesis unfolding pipe_inv_def by (intro conjI [OF 1] conjI ballI allI impI 2 3)
qed

lemma open_event_inv:
  assumes p: "pipe_inv env w" and ok: "event_ok w (EvOpen msg file_size)"
  shows "pipe_inv env (snd (handle_session_open env msg file_size w))"
proof (cases "contexts w (so_session_id msg) = None \<and>
    fst (open_session (env_mgr env) (c_str (so_session_id msg)) (so_k msg) (so_n msg) (so_block_bytes msg)
               (so_total_blocks msg) file_size (c_str (so_dest_path msg)) (shm w)) \<noteq> None")
  case False
  have "snd (handle_session_open env msg file_size w) = w"
    using False by (auto simp: handle_session_open_def open_session_def split: option.splits)
  with p show ?thesis by simp
next
  case True
  let ?sid = "so_session_id msg"
  obtain fl where inv: "shm_inv (env_mgr env) (shm w) fl" using p by (auto simp: pipe_inv_def)
  obtain idx seg where os: "open_session (env_mgr env) (c_str ?sid) (so_k msg) (so_n msg) (so_block_bytes msg)
               (so_total_blocks msg) file_size (c_str (so_dest_path msg)) (shm w) = (Some idx, seg)"
    using True by (metis option.collapse prod.collapse)
  obtain r writer where wr: "open_writer (env_os env) (c_str (so_dest_path msg)) file_size (so_k msg) (so_block_bytes msg) new_writer
      = (r, writer)" by fastforce
  define ctx where "ctx = \<lparr>ctx_session_idx = idx, ctx_k = so_k msg, ctx_n = so_n msg, ctx_symbol_bytes = so_block_bytes msg,
     ctx_codec = new_codec (env_lib env) (so_k msg) (so_n msg) (so_block_bytes msg), ctx_writer = writer\<rparr>"
  define w' where "w' = snd (handle_session_open env msg file_size w)"
  have shm': "shm w' = seg" and ctxs: "contexts w' = contexts w \<or> contexts w' = (contexts w)(?sid \<mapsto> ctx)"
    using True by (auto simp: w'_def handle_session_open_def os wr ctx_def Let_def split: bool.splits)
  have 1: "\<exists>fl. shm_inv (env_mgr env) (shm w') fl"
    using open_session_inv [OF inv, of "c_str ?sid" "so_k msg" "so_n msg" "so_block_bytes msg" "so_total_blocks msg"
        file_size "c_str (so_dest_path msg)"] by (auto simp: os shm')
  have ap: "apart ?sid w" using ok by simp
  have dom: "nid \<in> dom (contexts w) \<or> nid = ?sid" if "nid \<in> dom (contexts w')" for nid using that ctxs by auto
  have 2: "apart nid w'" if nd: "nid \<in> dom (contexts w')" for nid
    unfolding apart_def
  proof (intro ballI impI)
    fix nid' assume n: "nid' \<in> dom (contexts w')" "nid' \<noteq> nid"
    consider "nid \<in> dom (contexts w)" "nid' \<in> dom (contexts w)" | "nid = ?sid" "nid' \<in> dom (contexts w)"
      | "nid \<in> dom (contexts w)" "nid' = ?sid" using dom [OF nd] dom [OF n(1)] n(2) by blast
    then show "\<not> strncmp_eq (c_str nid') (c_str nid) 63"
    proof cases
      case 1
      then show ?thesis using p n(2) by (auto simp: pipe_inv_def apart_def)
    next
      case 2
      then show ?thesis using ap n(2) by (auto simp: apart_def)
    next
      case 3
      then have "\<not> strncmp_eq (c_str nid) (c_str nid') 63" using ap n(2) by (auto simp: apart_def)
      then show ?thesis using strncmp_eq_sym by blast
    qed
  qed
  have tb: "\<not> so_total_blocks msg > MAX_BLOCKS_PER_SESSION" using os by (auto simp: open_session_def split: if_splits)
  have found: "find_session (c_str ?sid) seg = Some (unat idx)" "unat idx < 8"
    using open_session_idempotent_lemma [OF inv os, of "c_str ?sid"] tb by (auto simp: strncmp_eq_def)
  have new_fit: "ctx_fits seg ctx"
  proof (cases "find_session (c_str ?sid) (shm w)")
    case (Some i)
    then have "seg = shm w" "idx = of_nat i" using os by (auto simp: open_session_def split: if_splits)
    then have "unat idx = i" using find_session_Some [OF Some] by (simp add: unat_of_nat_small)
    then show ?thesis using ok Some \<open>seg = shm w\<close> by (simp add: ctx_fits_def ctx_def)
  next
    case None
    then obtain i where "find_empty (shm w) = Some i" "idx = of_nat i" and seg: "seg = claim_session i (c_str ?sid) (so_k msg)
        (so_n msg) (so_block_bytes msg) (so_total_blocks msg) file_size (c_str (so_dest_path msg)) (shm w)"
      using os by (auto simp: open_session_def split: if_splits option.splits)
    then have i: "i < 8" "unat idx = i" using find_empty_Some [of "shm w" i] by (auto simp: unat_of_nat_small)
    then have "se_n (session_table seg ! unat idx) = so_n msg"
      using shm_invD(3) [OF inv] by (simp add: seg claim_session_def Let_def)
    then show ?thesis using ok by (simp add: ctx_fits_def ctx_def)
  qed
  have 3: "ctx_fits (shm w') c \<and> find_session (c_str nid) (shm w') = Some (unat (ctx_session_idx c))"
    if "contexts w' nid = Some c" for nid c
  proof (cases "contexts w nid")
    case None
    then have "nid = ?sid" "c = ctx" using that ctxs by (auto split: if_splits)
    then show ?thesis using found new_fit by (simp add: shm' ctx_def)
  next
    case (Some c')
    then have ne: "nid \<noteq> ?sid" using True by auto
    then have c: "contexts w nid = Some c" using that ctxs by auto
    have "\<not> strncmp_eq (c_str nid) (c_str ?sid) 63" using ap c ne by (auto simp: apart_def)
    moreover have old: "find_session (c_str nid) (shm w) = Some (unat (ctx_session_idx c))" "ctx_fits (shm w) c"
      using p c by (simp_all add: pipe_inv_def)
    ultimately have "find_session (c_str nid) seg = Some (unat (ctx_session_idx c))"
      "session_table seg ! unat (ctx_session_idx c) = session_table (shm w) ! unat (ctx_session_idx c)"
      using open_session_others [OF inv os, of "c_str nid"] by blast+
    then show ?thesis using old(2) ctx_fits_frame [of seg c "shm w"] by (simp add: shm')
  qed
  show ?thesis unfolding pipe_inv_def w'_def [symmetric] by (intro conjI [OF 1] conjI ballI allI impI 2 3)
qed

lemma apply_event_inv: "pipe_inv env w \<Longrightarrow> event_ok w ev \<Longrightarrow> pipe_inv env (apply_event env ev w)"
  by (cases ev) (simp_all add: data_event_inv purge_event_inv open_event_inv)

text \<open>
  No run of the receiver leaks or double-frees a slot.  From the empty state over a fresh arena, any
  sequence of session opens, purges and data packets, valid or not, that respects the peers' obligations
  (\<open>event_ok\<close>) keeps every slot of the arena either on the free list or linked by exactly one symbol of
  one open session, and keeps every decode context attached to its own open session entry.
\<close>

theorem pipeline_run_conserves_slots:
  assumes "pipe_inv env w" and "run_ok env evs w"
  shows "pipe_inv env (fold (apply_event env) evs w)"
  using assms by (induction evs arbitrary: w) (simp_all add: apply_event_inv)

definition start_world :: World where
  "start_world = \<lparr>shm = fresh3, contexts = Map.empty, files = (\<lambda>_. \<lparr>cached = (\<lambda>_. 0), durable = (\<lambda>_. 0)\<rparr>)\<rparr>"

lemma start_world_inv: "pipe_inv demo_env start_world"
  using fresh3_inv by (auto simp: pipe_inv_def start_world_def demo_env_def)

definition demo_open :: SessionOpen where
  "demo_open = \<lparr>so_session_id = ''s1'', so_k = 2, so_n = 3, so_block_bytes = 3, so_total_blocks = 2,
     so_dest_path = ''/d'', so_file_size = 11\<rparr>"

lemma demo_opens: "handle_session_open demo_env demo_open 11 start_world = (True, demo)"
proof -
  have "open_session attached_mgr ''s1'' 2 3 3 2 11 ''/d'' fresh3 = (Some 0, demo_seg)"
    using attached_mgr by (simp add: demo_seg_def open_session_def attached_def fresh3_find MAX_BLOCKS_PER_SESSION_def)
  moreover have "open_writer os_ok ''/d'' 11 2 3 new_writer = (True, demo_writer)"
    by (simp add: open_writer_def os_ok_def new_writer_def close_writer_def demo_writer_def Let_def)
  ultimately show ?thesis
    by (simp add: handle_session_open_def demo_open_def start_world_def c_str_def demo_def demo_ctx_def Let_def)
qed

theorem pipeline_run_conserves_slots_witness:
  "pipe_inv demo_env (fold (apply_event demo_env)
     [EvData ''s1'' 0 1 [4, 5, 6], EvOpen demo_open 11, EvData ''s1'' 0 0 [1, 2, 3], EvData ''s1'' 0 2 [121, 2, 141]] start_world)"
proof (rule pipeline_run_conserves_slots [OF start_world_inv])
  have "apply_event demo_env (EvData ''s1'' 0 1 [4, 5, 6]) start_world = start_world"
    by (simp add: packet_rejected(1) start_world_def)
  then show "run_ok demo_env [EvData ''s1'' 0 1 [4, 5, 6], EvOpen demo_open 11, EvData ''s1'' 0 0 [1, 2, 3],
      EvData ''s1'' 0 2 [121, 2, 141]] start_world"
    by (simp add: demo_open_def MAX_N_def SLOT_SIZE_def apart_def start_world_def fresh3_find del: apply_event.simps)
qed

text \<open>The eight bytes after slot x are the link of slot x + 1.\<close>

lemma write_slot_spills:
  assumes "1544 \<le> length payload" and "x + 1 \<noteq> 0"
  shows "node_next (mem_write (slot_addr x) payload m) (x + 1) = ucast (load_le (take 8 (drop 1536 payload)) :: u64)"
proof -
  have "unat (x + 1) = unat x + 1" using unatSuc [of x] assms(2) by (simp add: add.commute)
  then have addr: "slot_addr (x + 1) = slot_addr x + 1536" by (simp add: slot_addr_def SLOT_SIZE_def)
  have "mem_read (slot_addr x + 1536) 8 (mem_write (slot_addr x) payload m) = take 8 (drop 1536 payload)"
    by (rule nth_equalityI) (use assms(1) in \<open>simp_all add: mem_read_def mem_write_def\<close>)
  then show ?thesis by (simp add: node_next_def load64_def addr)
qed

text \<open>A new session, and the first packet of one of its blocks.\<close>

lemma new_session_opens:
  assumes "shm_inv (env_mgr env) (shm w) fl" and "contexts w (so_session_id msg) = None"
    and "find_session (c_str (so_session_id msg)) (shm w) = None" and "find_empty (shm w) = Some i"
    and "so_total_blocks msg \<le> MAX_BLOCKS_PER_SESSION" and "bid < so_total_blocks msg"
    and "open_writer (env_os env) (c_str (so_dest_path msg)) file_size (so_k msg) (so_block_bytes msg) new_writer = (True, writer)"
  obtains w1 ctx a where "handle_session_open env msg file_size w = (True, w1)" and "contexts w1 (so_session_id msg) = Some ctx"
    and "ctx_k ctx = so_k msg" "ctx_n ctx = so_n msg" "ctx_symbol_bytes ctx = so_block_bytes msg"
    and "block_entry (ctx_session_idx ctx) bid (shm w1) = Some a" and "blocks (shm w1) a = zero_block"
    and "shm_inv (env_mgr env) (shm w1) fl"
proof -
  note d = shm_invD [OF assms(1)]
  have i: "i < 8" using find_empty_Some [OF assms(4)] by simp
  have tb: "\<not> so_total_blocks msg > MAX_BLOCKS_PER_SESSION" using assms(5) by simp
  define seg where "seg = claim_session i (c_str (so_session_id msg)) (so_k msg) (so_n msg) (so_block_bytes msg)
     (so_total_blocks msg) file_size (c_str (so_dest_path msg)) (shm w)"
  have os: "open_session (env_mgr env) (c_str (so_session_id msg)) (so_k msg) (so_n msg) (so_block_bytes msg)
     (so_total_blocks msg) file_size (c_str (so_dest_path msg)) (shm w) = (Some (of_nat i), seg)"
    using d(1) assms(3,4) tb by (simp add: open_session_def attached_def seg_def)
  have inv: "shm_inv (env_mgr env) seg fl" unfolding seg_def by (rule claim_session_inv [OF assms(1,4,3) tb])
  define ctx where "ctx = \<lparr>ctx_session_idx = of_nat i, ctx_k = so_k msg, ctx_n = so_n msg, ctx_symbol_bytes = so_block_bytes msg,
     ctx_codec = new_codec (env_lib env) (so_k msg) (so_n msg) (so_block_bytes msg), ctx_writer = writer\<rparr>"
  have se: "se_state (session_table seg ! i) = SESSION_STATE_OPEN" "se_total_blocks (session_table seg ! i) = so_total_blocks msg"
    "se_block_table_offset (session_table seg ! i) = block_table_region_offset (hdr (shm w)) + of_nat i * per_session_stride"
    using i d(3) by (simp_all add: seg_def claim_session_def Let_def)
  let ?a = "table_entry (unat (se_block_table_offset (session_table seg ! i))) (unat bid)"
  have "unat (of_nat i :: u32) = i" using i by (simp add: unat_of_nat_small)
  then have be: "block_entry (of_nat i) bid seg = Some ?a"
    using i se(1,2) assms(6) by (simp add: block_entry_def Let_def MAX_SESSIONS_def word_le_nat_alt word_less_nat_alt not_le)
  have zero: "blocks seg ?a = zero_block"
    unfolding se(3) using assms(6) zero_blocks_same [of "unat bid" "unat (so_total_blocks msg)"]
    by (simp add: seg_def claim_session_def Let_def word_less_nat_alt)
  show ?thesis
    by (rule that [of "w\<lparr>shm := seg, contexts := (contexts w)(so_session_id msg \<mapsto> ctx)\<rparr>" ctx ?a])
      (use assms(2,7) os be zero inv in \<open>simp_all add: handle_session_open_def Let_def ctx_def\<close>)
qed

text \<open>
  C30: a symbol longer than a slot forges a free-list link.  No check on the way bounds \<open>block_bytes\<close> by
  \<open>SLOT_SIZE\<close>: with a free entry, at most \<open>MAX_BLOCKS_PER_SESSION\<close> blocks and a destination file that opens, a
  new session whose symbols have 1544 bytes or more is opened, k being 2 or more, and the first packet of one
  of its blocks with a symbol id below n and \<open>MAX_N\<close> is registered.  If the free list starts with two neighbouring slots x and x + 1, as in a new
  arena, the packet has then overwritten the link of x + 1 by bytes 1536 to 1543 of its own payload: the
  next allocation returns x + 1, and the one after it the index the sender chose.
\<close>

theorem oversized_symbol_forges_link:
  assumes "shm_inv (env_mgr env) (shm w) (x # (x + 1) # fl)" and "contexts w (so_session_id msg) = None"
    and "find_session (c_str (so_session_id msg)) (shm w) = None" and "find_empty (shm w) = Some i"
    and "so_total_blocks msg \<le> MAX_BLOCKS_PER_SESSION" and "bid < so_total_blocks msg"
    and "open_writer (env_os env) (c_str (so_dest_path msg)) file_size (so_k msg) (so_block_bytes msg) new_writer = (True, writer)"
    and "1 < so_k msg" and "symid < so_n msg" and "symid < MAX_N"
    and "length payload = unat (so_block_bytes msg)" and "1544 \<le> length payload"
    and "forged = ucast (load_le (take 8 (drop 1536 payload)) :: u64)"
  shows "\<exists>w1 w2. handle_session_open env msg file_size w = (True, w1) \<and>
     handle_data_packet env (so_session_id msg) bid symid payload w1 = ((RegisteredOnly, None), w2) \<and>
     node_next (arena (shm w2)) (x + 1) = forged \<and>
     fst (alloc_slot (env_mgr env) (shm w2)) = x + 1 \<and>
     fst (alloc_slot (env_mgr env) (snd (alloc_slot (env_mgr env) (shm w2)))) = forged"
proof -
  let ?mgr = "env_mgr env"
  obtain w1 ctx a where op: "handle_session_open env msg file_size w = (True, w1)"
    and ctx: "contexts w1 (so_session_id msg) = Some ctx"
    and c: "ctx_k ctx = so_k msg" "ctx_n ctx = so_n msg" "ctx_symbol_bytes ctx = so_block_bytes msg"
    and be: "block_entry (ctx_session_idx ctx) bid (shm w1) = Some a" and zero: "blocks (shm w1) a = zero_block"
    and inv: "shm_inv ?mgr (shm w1) (x # (x + 1) # fl)"
    by (rule new_session_opens [OF assms(1-7)])
  have at: "attached ?mgr" and pool: "pool (shm w1) (x # (x + 1) # fl)" using shm_invD [OF inv] by auto
  have v: "valid_packet ctx bid symid payload a w1" using assms(9,11) c be by (simp add: valid_packet_def)
  obtain seg where al: "alloc_slot ?mgr (shm w1) = (x, seg)" using alloc_slot_pop(1) [OF at pool] by (metis prod.collapse)
  have pool': "pool seg ((x + 1) # fl)" using alloc_slot_pop(2) [OF at pool] by (simp add: al)
  have fr: "blocks seg = blocks (shm w1)" "arena seg = arena (shm w1)"
    using arg_cong [OF al, of "\<lambda>p. blocks (snd p)"] arg_cong [OF al, of "\<lambda>p. arena (snd p)"]
    by (simp_all add: alloc_slot_def note_alloc_def Let_def split: if_splits)
  have x: "x \<noteq> kListEnd" "x + 1 \<noteq> kListEnd" using pool by (auto simp: pool_def)
  moreover have "kListEnd = - 1" by (simp add: kListEnd_eq)
  ultimately have x1: "x + 1 \<noteq> 0" by (metis eq_neg_iff_add_eq_0)
  define w2 where "w2 = registered_world env symid payload a w1"
  have new: "fst (register_symbol symid x (blocks (shm w1) a)) = NewSymbol"
    unfolding zero by (rule register_symbol_new(1) [OF block_wf_zero assms(10)]) (simp add: links_zero_block)
  have w2: "shm w2 = (write_slot x payload seg)\<lparr>blocks := (blocks (shm w1))(a := snd (register_symbol symid x zero_block))\<rparr>"
    by (simp add: w2_def registered_world_def al zero fr)
  have "seen (blocks (shm w2) a) = 1"
    using new unfolding zero by (simp add: w2 register_symbol_def Let_def zero_block_def split: if_splits)
  then have "\<not> seen (blocks (shm w2) a) \<ge> ctx_k ctx" using assms(8) c(1) by simp
  moreover have "decoded zero_block \<noteq> DECODE_COMPLETE" by (simp add: zero_block_def decode_states)
  then have "decoded (blocks (shm w1) a) \<noteq> DECODE_COMPLETE" "\<not> is_present (blocks (shm w1) a) symid" by (simp_all add: zero)
  ultimately have "handle_data_packet env (so_session_id msg) bid symid payload w1 = ((RegisteredOnly, None), w2)"
    using packet_registered [OF ctx v _ _ _ _ w2_def refl] al x(1) new by simp
  moreover have node: "node_next (arena (shm w2)) (x + 1) = forged"
    using write_slot_spills [OF assms(12) x1] by (simp add: w2 write_slot_def assms(13))
  moreover have h: "head_idx (free_list_head (hdr (shm w2))) = x + 1" using pool' by (simp add: w2 pool_def)
  then have a1: "fst (alloc_slot ?mgr (shm w2)) = x + 1"
    "head_idx (free_list_head (hdr (snd (alloc_slot ?mgr (shm w2))))) = forged"
    using at x(2) node by (simp_all add: alloc_slot_def attached_def Let_def note_alloc_def node_next_def)
  moreover have "fst (alloc_slot ?mgr (snd (alloc_slot ?mgr (shm w2)))) = forged"
    using at a1(2) by (simp add: alloc_slot_def [of _ "snd (alloc_slot ?mgr (shm w2))"] attached_def Let_def)
  ultimately show ?thesis using op by blast
qed

definition long_symbol :: "u8 list" where
  "long_symbol = replicate 1536 0 @ [7, 0, 0, 0, 0, 0, 0, 0]"

theorem oversized_symbol_forges_link_witness:
  "\<exists>w1 w2. handle_session_open demo_env (demo_open\<lparr>so_block_bytes := 1544\<rparr>) 11 start_world = (True, w1) \<and>
     handle_data_packet demo_env ''s1'' 0 1 long_symbol w1 = ((RegisteredOnly, None), w2) \<and>
     fst (alloc_slot attached_mgr (snd (alloc_slot attached_mgr (shm w2)))) = 7"
proof -
  let ?msg = "demo_open\<lparr>so_block_bytes := 1544\<rparr>"
  have inv: "shm_inv (env_mgr demo_env) (shm start_world) (0 # (0 + 1) # [2])" using fresh3_inv by (simp add: start_world_def)
  have new: "contexts start_world (so_session_id ?msg) = None" "find_session (c_str (so_session_id ?msg)) (shm start_world) = None"
    "find_empty (shm start_world) = Some 0" by (simp_all add: start_world_def fresh3_find)
  have msg: "so_total_blocks ?msg \<le> MAX_BLOCKS_PER_SESSION" "0 < so_total_blocks ?msg" "1 < so_k ?msg" "1 < so_n ?msg"
    "(1 :: u32) < MAX_N" "so_session_id ?msg = ''s1''"
    by (simp_all add: demo_open_def MAX_BLOCKS_PER_SESSION_def MAX_N_def)
  obtain writer where wr: "open_writer (env_os demo_env) (c_str (so_dest_path ?msg)) 11 (so_k ?msg) (so_block_bytes ?msg) new_writer = (True, writer)"
    by (simp add: open_writer_def os_ok_def new_writer_def close_writer_def Let_def)
  have len: "length long_symbol = unat (so_block_bytes ?msg)" "1544 \<le> length long_symbol" by (simp_all add: long_symbol_def)
  have "7 = (ucast (load_le (take 8 (drop 1536 long_symbol)) :: u64) :: u32)" by (simp add: long_symbol_def)
  from oversized_symbol_forges_link [OF inv new msg(1,2) wr msg(3-5) len this] show ?thesis by (auto simp: msg(6))
qed

end
