(* ===== verification/PurgeRace.thy ===== *)
theory PurgeRace
  imports Pipeline
begin

text \<open>
  Two receiver processes on one session: the release loop of \<open>decode_and_write_block\<close>
  or the registration of \<open>handle_data_packet\<close> (\<^verbatim>\<open>src/receiver/session_pipeline.cpp\<close>) in one, \<open>close_session\<close>
  (\<^verbatim>\<open>src/receiver/shm_manager.cpp\<close>) in the other.
\<close>

section \<open>The release loop as a sequence of calls\<close>

definition release_loop :: "ShmManager \<Rightarrow> nat \<Rightarrow> u32 \<Rightarrow> bool list \<Rightarrow> (Segment \<Rightarrow> Segment) list" where
  "release_loop mgr a n present =
     concat (map (\<lambda>s. release_accesses mgr a (of_nat s)) (filter (\<lambda>s. present ! s) [0..<unat n]))"

lemma release_loop_fold:
  "fold (\<lambda>access. access) (concat (map (\<lambda>s. release_accesses mgr a (of_nat s)) (filter P ss))) seg =
   fold (\<lambda>s seg. if P s then release_symbol mgr a (of_nat s) seg else seg) ss seg"
  by (induction ss arbitrary: seg) (simp_all add: release_symbol_def)

lemma release_rounds_fold:
  "fold (\<lambda>access. access) (concat (map (\<lambda>s. release_accesses mgr a (of_nat s)) ss)) seg =
   fold (\<lambda>s. release_symbol mgr a (of_nat s)) ss seg"
  by (induction ss arbitrary: seg) (simp_all add: release_symbol_def)

text \<open>The first \<open>2 * j + 1\<close> calls: j whole rounds and the first call of the next.\<close>

lemma take_rounds:
  assumes "\<And>s. length (f s) = 2" and "j < length ss"
  shows "take (2 * j + 1) (concat (map f ss)) = concat (map f (take j ss)) @ [f (ss ! j) ! 0]"
    and "concat (map f ss) ! (2 * j + 1) = f (ss ! j) ! 1"
    and "concat (map f ss) ! (2 * j) = f (ss ! j) ! 0"
  using assms(2)
proof (induction ss arbitrary: j)
  case (Cons s ss)
  have len: "length (f s) = Suc (Suc 0)" using assms(1) [of s] by simp
  then obtain p q where pq: "f s = [p, q]" by (auto simp: length_Suc_conv)
  {
    case 1
    then show ?case using Cons.IH(1) [of "j - 1"] pq by (cases j) auto
  next
    case 2
    then show ?case using Cons.IH(2) [of "j - 1"] pq by (cases j) auto
  next
    case 3
    then show ?case using Cons.IH(3) [of "j - 1"] pq by (cases j) auto
  }
qed simp_all

lemma length_rounds: "(\<And>s. length (f s) = 2) \<Longrightarrow> length (concat (map f ss)) = 2 * length ss"
  by (induction ss) simp_all

lemma release_accesses_two: "length (release_accesses mgr a s) = 2"
  by (simp add: release_accesses_def)

text \<open>After j rounds the segment is sound and the other links are as they were.\<close>

lemma release_rounds:
  assumes hand: "shm_hand mgr seg fl []" and be: "block_entry sidx bid seg = Some a" and ss: "distinct ss" "\<forall>s\<in>set ss. s < 255"
    and linked: "\<forall>s\<in>set ss. \<exists>x. links (blocks seg a) (of_nat s) = Some x \<and> x \<noteq> kListEnd"
    and dc: "decoded (blocks seg a) = DECODE_COMPLETE" and j: "j \<le> length ss"
  shows "\<exists>fl'. shm_hand mgr (fold (\<lambda>s. release_symbol mgr a (of_nat s)) (take j ss) seg) fl' [] \<and>
     session_table (fold (\<lambda>s. release_symbol mgr a (of_nat s)) (take j ss) seg) = session_table seg \<and>
     decoded (blocks (fold (\<lambda>s. release_symbol mgr a (of_nat s)) (take j ss) seg) a) = DECODE_COMPLETE \<and>
     (\<forall>t\<in>set (drop j ss). links (blocks (fold (\<lambda>s. release_symbol mgr a (of_nat s)) (take j ss) seg) a) (of_nat t) =
        links (blocks seg a) (of_nat t))"
  using j
proof (induction j)
  case 0
  then show ?case using hand dc by auto
next
  case (Suc j)
  let ?S = "fold (\<lambda>s. release_symbol mgr a (of_nat s)) (take j ss) seg"
  have lt: "j < length ss" using Suc.prems by simp
  obtain fl' where h: "shm_hand mgr ?S fl' []" and tab: "session_table ?S = session_table seg"
    and d: "decoded (blocks ?S a) = DECODE_COMPLETE"
    and keep: "\<forall>t\<in>set (drop j ss). links (blocks ?S a) (of_nat t) = links (blocks seg a) (of_nat t)"
    using Suc.IH lt by auto
  have at: "ss ! j \<in> set ss" "ss ! j \<in> set (drop j ss)"
    using lt Cons_nth_drop_Suc [OF lt, symmetric] by simp_all
  then have sN: "(of_nat (ss ! j) :: u32) < MAX_N"
    using ss(2) unat_of_nat_small [of "ss ! j", where 'a = 32] by (auto simp: MAX_N_less)
  obtain x where x: "links (blocks ?S a) (of_nat (ss ! j)) = Some x" "x \<noteq> kListEnd" using linked keep at by fastforce
  have be': "block_entry sidx bid ?S = Some a" using be block_entry_frame [OF tab] by simp
  note rel = release_symbol_hand [OF h be' sN x d]
  have len: "length (slot_idx (blocks ?S a)) = 255" using block_entry_Some(6) [OF h be'] by (simp add: block_ok_def block_wf_def)
  have "links (clear_slot (of_nat (ss ! j)) (blocks ?S a)) (of_nat t) = links (blocks seg a) (of_nat t)"
    if t: "t \<in> set (drop (Suc j) ss)" for t
  proof -
    have "t \<in> set ss" "t \<in> set (drop j ss)" using t set_drop_subset [of "Suc j" ss] set_drop_subset_set_drop [of j "Suc j" ss] by auto
    moreover have "t \<noteq> ss ! j"
    proof -
      have "distinct (ss ! j # drop (Suc j) ss)" using ss(1) lt by (metis Cons_nth_drop_Suc distinct_drop)
      then show ?thesis using t by auto
    qed
    ultimately show ?thesis using keep ss(2) at(1) u32_of_nat_255 [of t "ss ! j"] by (auto simp: links_clear [OF len sN])
  qed
  then show ?case using rel d tab lt by (auto simp: take_Suc_conv_app_nth)
qed

section \<open>A free list that runs in a circle\<close>

text \<open>Freeing the slots \<open>ys\<close> of a set that holds the head keeps every followed link inside the set.\<close>

lemma free_into_set:
  assumes "attached mgr" and "head_idx (free_list_head (hdr seg)) \<in> S" and "set ys \<subseteq> S" and "\<forall>y\<in>P. node_next (arena seg) y \<in> S"
  shows "head_idx (free_list_head (hdr (fold (free_slot mgr) ys seg))) \<in> S \<and>
     (\<forall>y\<in>P \<union> set ys. node_next (arena (fold (free_slot mgr) ys seg)) y \<in> S)"
  using assms(2-4)
proof (induction ys arbitrary: seg P)
  case (Cons y ys)
  let ?seg = "free_slot mgr y seg"
  have h: "head_idx (free_list_head (hdr ?seg)) \<in> S" using assms(1) Cons.prems by (simp add: free_slot_def attached_def Let_def)
  have "node_next (arena ?seg) z \<in> S" if "z \<in> insert y P" for z
  proof (cases "z = y")
    case True
    then show ?thesis using assms(1) Cons.prems by (simp add: free_slot_def attached_def Let_def)
  next
    case False
    then show ?thesis using that assms(1) Cons.prems by (simp add: free_slot_def attached_def Let_def)
  qed
  then have "\<forall>z\<in>insert y P. node_next (arena ?seg) z \<in> S" by blast
  from Cons.IH [OF h _ this] Cons.prems show ?case by auto
qed simp

text \<open>From then on every allocation succeeds with a slot of the set.\<close>

lemma alloc_in_set:
  assumes "attached mgr" and "head_idx (free_list_head (hdr seg)) \<in> S" and "\<forall>y\<in>S. node_next (arena seg) y \<in> S" and "kListEnd \<notin> S"
  shows "set (fst (alloc_many mgr m seg)) \<subseteq> S \<and> length (fst (alloc_many mgr m seg)) = m"
  using assms(2,3)
proof (induction m arbitrary: seg)
  case (Suc m)
  let ?x = "head_idx (free_list_head (hdr seg))" and ?seg = "snd (alloc_slot mgr seg)"
  have x: "?x \<noteq> kListEnd" using Suc.prems(1) assms(4) by auto
  have al: "fst (alloc_slot mgr seg) = ?x" "arena ?seg = arena seg"
    "head_idx (free_list_head (hdr ?seg)) = node_next (arena seg) ?x"
    using assms(1) x by (simp_all add: alloc_slot_def attached_def note_alloc_def Let_def node_next_def)
  have "set (fst (alloc_many mgr m ?seg)) \<subseteq> S \<and> length (fst (alloc_many mgr m ?seg)) = m"
    using Suc.prems by (intro Suc.IH) (simp_all add: al)
  then show ?case using Suc.prems(1) al(1) by (auto split: prod.splits)
qed simp

lemma session_ok_free: "session_ok (free_slot mgr x seg) i = session_ok seg i"
  "session_slots (free_slot mgr x seg) i = session_slots seg i" "find_session sid (free_slot mgr x seg) = find_session sid seg"
  by (simp_all add: session_ok_def session_slots_def block_at_def find_session_def)

text \<open>A purge after a slot of the session was freed and before its link was cleared.\<close>

lemma close_after_free:
  assumes hand: "shm_hand mgr seg fl []" and found: "find_session sid seg = Some i" and x: "x \<in> set (session_slots seg i)"
    and seg': "seg' = snd (close_session mgr (Some sid) (free_slot mgr x seg))"
  shows "head_idx (free_list_head (hdr seg')) \<in> set (session_slots seg i)"
    and "\<forall>y\<in>set (session_slots seg i). node_next (arena seg') y \<in> set (session_slots seg i)"
    and "blocks seg' = closed_blocks (free_slot mgr x seg) i"
proof -
  note d = shm_handD [OF hand]
  have i: "i < 8" using find_session_Some [OF found] by simp
  let ?seg = "free_slot mgr x seg" and ?S = "set (session_slots seg i)"
  let ?swept = "fold (free_slot mgr) (session_slots seg i) (set_state i SESSION_STATE_CLOSING ?seg)"
  have cl: "seg' = set_state i SESSION_STATE_EMPTY (?swept\<lparr>blocks := closed_blocks ?seg i\<rparr>)"
    using close_session_sweeps [of mgr ?seg i sid] d(1,3) d(6) [OF i] found by (simp add: session_ok_free seg')
  have "head_idx (free_list_head (hdr (set_state i SESSION_STATE_CLOSING ?seg))) \<in> ?S"
    using d(1) x by (simp add: free_slot_def attached_def Let_def)
  from free_into_set [OF d(1) this, of "session_slots seg i" "{}"]
  show "head_idx (free_list_head (hdr seg')) \<in> ?S" "\<forall>y\<in>?S. node_next (arena seg') y \<in> ?S"
    by (simp_all add: cl)
  show "blocks seg' = closed_blocks ?seg i" by (simp add: cl)
qed

lemma session_slots_end: "kListEnd \<notin> set (session_slots seg i)"
  by (auto simp: session_slots_def block_slots_def)

section \<open>The entries of a closed session\<close>

lemma free_links_nth:
  assumes "length (slot_idx e) = 255" and "n \<le> MAX_N" and "k < 255"
  shows "length (slot_idx (free_links n e)) = 255"
    and "slot_idx (free_links n e) ! k = (if k < unat n then SLOT_IDX_FREE else slot_idx e ! k)"
proof -
  have n: "unat n \<le> 255" using assms(2) by (simp add: MAX_N_def word_le_nat_alt)
  have "slot_idx (free_links n e) = map (\<lambda>_. SLOT_IDX_FREE) [0..<unat n] @ drop (unat n) (slot_idx e)"
    using fold_array_write [of "unat n" "slot_idx e" "\<lambda>_. SLOT_IDX_FREE"] n assms(1) by (simp add: free_links_def)
  then show "length (slot_idx (free_links n e)) = 255"
    "slot_idx (free_links n e) ! k = (if k < unat n then SLOT_IDX_FREE else slot_idx e ! k)"
    using n assms(1,3) by (simp_all add: nth_append)
qed

lemma fold_links_frame:
  "present_mask (fold (\<lambda>b bl. bl(t b := free_links n (bl (t b)))) bs bl a) = present_mask (bl a)"
  "seen (fold (\<lambda>b bl. bl(t b := free_links n (bl (t b)))) bs bl a) = seen (bl a)"
  by (induction bs arbitrary: bl) (simp_all add: free_links_def)

lemma fold_links_free:
  assumes "n \<le> MAX_N" and "k < unat n" and "length (slot_idx (bl a)) = 255"
    and "(\<exists>b\<in>set bs. a = t b) \<or> slot_idx (bl a) ! k = SLOT_IDX_FREE"
  shows "length (slot_idx (fold (\<lambda>b bl. bl(t b := free_links n (bl (t b)))) bs bl a)) = 255 \<and>
     slot_idx (fold (\<lambda>b bl. bl(t b := free_links n (bl (t b)))) bs bl a) ! k = SLOT_IDX_FREE"
  using assms(3,4)
proof (induction bs arbitrary: bl)
  case (Cons b bs)
  have k: "k < 255" using assms(1,2) by (simp add: MAX_N_def word_le_nat_alt)
  have "length (slot_idx ((bl(t b := free_links n (bl (t b)))) a)) = 255 \<and>
     ((\<exists>b\<in>set bs. a = t b) \<or> slot_idx ((bl(t b := free_links n (bl (t b)))) a) ! k = SLOT_IDX_FREE)"
    using Cons.prems free_links_nth [OF _ assms(1) k, of "bl a"] assms(2) by auto
  then show ?case using Cons.IH [of "bl(t b := free_links n (bl (t b)))"] by simp
qed simp

lemma fold_links_length:
  assumes "n \<le> MAX_N" and "length (slot_idx (bl a)) = 255"
  shows "length (slot_idx (fold (\<lambda>b bl. bl(t b := free_links n (bl (t b)))) bs bl a)) = 255"
  using assms(2)
proof (induction bs arbitrary: bl)
  case (Cons b bs)
  have "length (slot_idx ((bl(t b := free_links n (bl (t b)))) a)) = 255"
    using Cons.prems free_links_nth(1) [OF _ assms(1), of _ 0] by auto
  then show ?case using Cons.IH [of "bl(t b := free_links n (bl (t b)))"] by simp
qed simp

lemma closed_entry:
  assumes "b < unat (se_total_blocks (session_table seg ! i))" and "a = table_entry (unat (se_block_table_offset (session_table seg ! i))) b"
  shows "\<not> is_present (closed_blocks seg i a) s" and "seen (closed_blocks seg i a) = 0"
    and "length (present_mask (closed_blocks seg i a)) = 4" and "length (slot_idx (closed_blocks seg i a)) = 255"
    and "s < se_n (session_table seg ! i) \<Longrightarrow> slot_of (closed_blocks seg i a) s = SLOT_IDX_FREE"
proof -
  note zero = zero_blocks_same [OF assms(1)]
  have pm: "present_mask (closed_blocks seg i a) = present_mask zero_block" and "seen (closed_blocks seg i a) = seen zero_block"
    using zero by (simp_all add: closed_blocks_def Let_def fold_links_frame assms(2))
  then show "seen (closed_blocks seg i a) = 0" "length (present_mask (closed_blocks seg i a)) = 4" by (simp_all add: zero_block_def)
  have "zero_blocks (unat (se_block_table_offset (session_table seg ! i)))
       (unat (se_total_blocks (session_table seg ! i)) * 1064) (blocks seg) a = zero_block" using zero by (simp add: assms(2))
  then show "length (slot_idx (closed_blocks seg i a)) = 255"
    unfolding closed_blocks_def Let_def by (intro fold_links_length) (simp_all add: zero_block_def)
  from pm have "is_present (closed_blocks seg i a) s = is_present zero_block s" by (simp add: is_present_def)
  then show "\<not> is_present (closed_blocks seg i a) s" by simp
  show "slot_of (closed_blocks seg i a) s = SLOT_IDX_FREE" if sn: "s < se_n (session_table seg ! i)"
  proof (cases "s < MAX_N")
    case True
    define n where "n = (if se_n (session_table seg ! i) \<le> MAX_N then se_n (session_table seg ! i) else MAX_N)"
    define t where "t = table_entry (unat (se_block_table_offset (session_table seg ! i)))"
    define bl where "bl = zero_blocks (unat (se_block_table_offset (session_table seg ! i)))
       (unat (se_total_blocks (session_table seg ! i)) * 1064) (blocks seg)"
    have "n \<le> MAX_N" "unat s < unat n" using True sn by (auto simp: n_def word_less_nat_alt)
    moreover have "bl a = zero_block" using zero by (simp add: bl_def assms(2))
    then have "length (slot_idx (bl a)) = 255" by (simp add: zero_block_def)
    moreover have "\<exists>b\<in>set [0..<unat (se_total_blocks (session_table seg ! i))]. a = t b"
      using assms by (auto simp: t_def)
    ultimately have "slot_idx (fold (\<lambda>b bl. bl(t b := free_links n (bl (t b))))
        [0..<unat (se_total_blocks (session_table seg ! i))] bl a) ! unat s = SLOT_IDX_FREE"
      using fold_links_free [of n "unat s" bl a "[0..<unat (se_total_blocks (session_table seg ! i))]" t] by blast
    then show ?thesis using True
      by (simp add: slot_of_def closed_blocks_def Let_def n_def [symmetric] t_def [symmetric] bl_def [symmetric])
  qed (simp add: slot_of_def)
qed

section \<open>A slot freed twice\<close>

lemma decode_runs_release_loop:
  assumes "decoded (blocks (shm w) a) = DECODE_CLAIMED" and "decode_and_write_block env ctx bid a w = (True, w')"
    and "start = (shm w)\<lparr>blocks := (blocks (shm w))(a := (blocks (shm w) a)\<lparr>decoded := DECODE_COMPLETE\<rparr>)\<rparr>"
  shows "shm w' = fold (\<lambda>access. access)
     (release_loop (env_mgr env) a (ctx_n ctx) (gather_present (ctx_n ctx) (blocks (shm w) a))) start"
proof -
  have mark: "mark_decode_complete (blocks (shm w) a) = (True, (blocks (shm w) a)\<lparr>decoded := DECODE_COMPLETE\<rparr>)"
    using assms(1) by (simp add: mark_decode_complete_def)
  show ?thesis
    using assms(2) mark unfolding release_loop_def release_loop_fold assms(3)
    by (auto simp: decode_and_write_block_def Let_def split: option.splits prod.splits bool.splits)
qed

text \<open>The segment as a purge between the two calls of round j finds it, and what the purge leaves.\<close>

lemma purge_inside_round:
  assumes inv: "shm_inv (env_mgr env) (shm w) fl" and be: "block_entry (ctx_session_idx ctx) bid (shm w) = Some a"
    and cl: "decoded (blocks (shm w) a) = DECODE_CLAIMED" and n: "ctx_n ctx \<le> MAX_N"
    and found: "find_session sid (shm w) = Some (unat (ctx_session_idx ctx))"
    and start: "start = (shm w)\<lparr>blocks := (blocks (shm w))(a := (blocks (shm w) a)\<lparr>decoded := DECODE_COMPLETE\<rparr>)\<rparr>"
    and ss: "ss = filter (\<lambda>s. gather_present (ctx_n ctx) (blocks (shm w) a) ! s) [0..<unat (ctx_n ctx)]" and j: "j < length ss"
    and S: "S = fold (\<lambda>s. release_symbol (env_mgr env) a (of_nat s)) (take j ss) start"
  shows "\<exists>fl'. shm_hand (env_mgr env) S fl' []" and "find_session sid S = Some (unat (ctx_session_idx ctx))"
    and "block_entry (ctx_session_idx ctx) bid S = Some a" and "session_table S = session_table (shm w)"
    and "slot_of (blocks S a) (of_nat (ss ! j)) \<in> set (session_slots S (unat (ctx_session_idx ctx)))"
proof -
  let ?mgr = "env_mgr env" and ?i = "unat (ctx_session_idx ctx)"
  have h: "shm_hand ?mgr start fl []"
    using hand_decoded [OF inv [unfolded shm_inv_def] be, of DECODE_COMPLETE] by (simp add: start)
  have tab: "session_table start = session_table (shm w)" by (simp add: start)
  have be0: "block_entry (ctx_session_idx ctx) bid start = Some a" using be block_entry_frame [OF tab] by simp
  have n255: "unat (ctx_n ctx) \<le> 255" using n by (simp add: MAX_N_def word_le_nat_alt)
  have old: "links (blocks (shm w) a) t \<noteq> Some kListEnd" for t
    using block_entry_Some(6) [OF inv [unfolded shm_inv_def] be] cl by (auto simp: block_ok_def decode_states)
  have linked: "\<exists>x. links (blocks start a) (of_nat s) = Some x \<and> x \<noteq> kListEnd" if "s \<in> set ss" for s
  proof -
    have "is_present (blocks (shm w) a) (of_nat s)" using that n255 by (auto simp: ss gather_present_nth)
    then show ?thesis using old [of "of_nat s"] by (simp add: start links_def)
  qed
  have d: "distinct ss" "\<forall>s\<in>set ss. s < 255" using n255 by (auto simp: ss)
  have r: "(\<exists>fl'. shm_hand ?mgr S fl' []) \<and> session_table S = session_table start \<and>
     (\<forall>t\<in>set (drop j ss). links (blocks S a) (of_nat t) = links (blocks start a) (of_nat t))"
    using release_rounds [OF h be0 d _ _ less_imp_le [OF j]] linked by (simp add: S start)
  then show "\<exists>fl'. shm_hand ?mgr S fl' []" and tabS: "session_table S = session_table (shm w)" using tab by simp_all
  show beS: "block_entry (ctx_session_idx ctx) bid S = Some a" using be block_entry_frame [OF tabS] by simp
  show "find_session sid S = Some ?i" using found by (simp add: find_session_def tabS)
  have "ss ! j \<in> set (drop j ss)" using Cons_nth_drop_Suc [OF j, symmetric] by simp
  then obtain x where x: "links (blocks S a) (of_nat (ss ! j)) = Some x" "x \<noteq> kListEnd"
    using r linked [of "ss ! j"] j by auto
  then have p: "is_present (blocks S a) (of_nat (ss ! j))" "slot_of (blocks S a) (of_nat (ss ! j)) = x"
    by (auto simp: links_def split: if_splits)
  obtain fl' where hS: "shm_hand ?mgr S fl' []" using r by blast
  note beS = block_entry_Some [OF hS beS]
  have "ss ! j < 255" using d(2) j by auto
  then have "x \<in> set (block_slots (block_at S ?i (unat bid)))"
    using p x(2) by (auto simp: block_slots_def beS(5) [symmetric] intro!: image_eqI [of _ _ "ss ! j"])
  then show "slot_of (blocks S a) (of_nat (ss ! j)) \<in> set (session_slots S ?i)"
    using beS(2,3) p(2) by (auto simp: session_slots_def)
qed

text \<open>
  C29: a purge by another process during the release of a decoded block frees a slot twice.  The release
  loop at the end of \<open>decode_and_write_block\<close> is a sequence of calls, \<open>free_slot\<close> and \<open>clear_slot\<close> by turns.
  Whichever round another process's \<open>close_session\<close> of the session falls into, between its two calls: after
  the round the free list runs in a circle.  Every later allocation, however many, returns one of the slots
  the session held, so more allocations than there are such slots repeat one, and the slots that were free
  are never handed out again.  If a round remains, its \<open>free_slot\<close> is of \<open>SLOT_IDX_FREE\<close>, a store beyond the
  arena.
\<close>

theorem purge_during_release_double_frees:
  assumes "shm_inv (env_mgr env) (shm w) fl" and "block_entry (ctx_session_idx ctx) bid (shm w) = Some a"
    and "decoded (blocks (shm w) a) = DECODE_CLAIMED" and "ctx_n ctx \<le> MAX_N"
    and "find_session sid (shm w) = Some (unat (ctx_session_idx ctx))"
    and "decode_and_write_block env ctx bid a w = (True, w')"
    and "start = (shm w)\<lparr>blocks := (blocks (shm w))(a := (blocks (shm w) a)\<lparr>decoded := DECODE_COMPLETE\<rparr>)\<rparr>"
    and "calls = release_loop (env_mgr env) a (ctx_n ctx) (gather_present (ctx_n ctx) (blocks (shm w) a))"
    and "2 * j < length calls"
    and "mid = fold (\<lambda>access. access) (take (2 * j + 1) calls) start"
    and "purged = snd (close_session (env_mgr env) (Some sid) mid)"
    and "after = (calls ! (2 * j + 1)) purged"
    and "held = session_slots mid (unat (ctx_session_idx ctx))"
  shows "shm w' = fold (\<lambda>access. access) calls start \<and>
     (\<forall>m. length (fst (alloc_many (env_mgr env) m after)) = m \<and> set (fst (alloc_many (env_mgr env) m after)) \<subseteq> set held) \<and>
     \<not> distinct (fst (alloc_many (env_mgr env) (Suc (length held)) after)) \<and>
     (2 * j + 2 < length calls \<longrightarrow> (calls ! (2 * j + 2)) after = free_slot (env_mgr env) SLOT_IDX_FREE after)"
proof -
  let ?mgr = "env_mgr env" and ?i = "unat (ctx_session_idx ctx)"
  define ss where "ss = filter (\<lambda>s. gather_present (ctx_n ctx) (blocks (shm w) a) ! s) [0..<unat (ctx_n ctx)]"
  have calls: "calls = concat (map (\<lambda>s. release_accesses ?mgr a (of_nat s)) ss)" by (simp add: assms(8) release_loop_def ss_def)
  note two = release_accesses_two [of ?mgr a]
  have j: "j < length ss" using assms(9) length_rounds [of "\<lambda>s. release_accesses ?mgr a (of_nat s)", OF two] by (simp add: calls)
  note rounds = take_rounds [where f = "\<lambda>s. release_accesses ?mgr a (of_nat s)" and ss = ss, OF two, folded calls]
  define S where "S = fold (\<lambda>s. release_symbol ?mgr a (of_nat s)) (take j ss) start"
  note pr = purge_inside_round [OF assms(1-5,7) ss_def j S_def]
  obtain fl' where hS: "shm_hand ?mgr S fl' []" using pr(1) by blast
  define x where "x = slot_of (blocks S a) (of_nat (ss ! j))"
  have mid: "mid = free_slot ?mgr x S"
    unfolding assms(10) rounds(1) [OF j]
    by (simp only: fold_append o_apply release_rounds_fold S_def x_def) (simp add: release_accesses_def)
  have held: "held = session_slots S ?i" by (simp add: assms(13) mid session_ok_free)
  note circle = close_after_free [OF hS pr(2) pr(5) [folded x_def] assms(11) [unfolded mid], folded held mid]
  have after: "after = purged\<lparr>blocks := (blocks purged)(a := clear_slot (of_nat (ss ! j)) (blocks purged a))\<rparr>"
    using rounds(2) [OF j] by (simp add: assms(12) release_accesses_def)
  have all: "set (fst (alloc_many ?mgr m after)) \<subseteq> set held \<and> length (fst (alloc_many ?mgr m after)) = m" for m
    using circle shm_handD(1) [OF hS] session_slots_end by (intro alloc_in_set) (auto simp: after held)
  have "\<not> distinct (fst (alloc_many ?mgr (Suc (length held)) after))"
  proof
    assume "distinct (fst (alloc_many ?mgr (Suc (length held)) after))"
    then have "card (set (fst (alloc_many ?mgr (Suc (length held)) after))) = Suc (length held)"
      by (simp only: distinct_card conjunct2 [OF all])
    moreover have "card (set (fst (alloc_many ?mgr (Suc (length held)) after))) \<le> card (set held)"
      by (intro card_mono conjunct1 [OF all] finite_set)
    ultimately show False using card_length [of held] by simp
  qed
  moreover have "(calls ! (2 * j + 2)) after = free_slot ?mgr SLOT_IDX_FREE after" if more: "2 * j + 2 < length calls"
  proof -
    have j': "Suc j < length ss" using more length_rounds [of "\<lambda>s. release_accesses ?mgr a (of_nat s)", OF two] by (simp add: calls)
    let ?s = "of_nat (ss ! Suc j) :: u32"
    have in_ss: "ss ! Suc j \<in> set ss" "ss ! j \<in> set ss" using j j' by simp_all
    have n: "unat (ctx_n ctx) \<le> 255" using assms(4) by (simp add: MAX_N_def word_le_nat_alt)
    have small: "ss ! Suc j < 255" "ss ! j < 255" using in_ss n by (auto simp: ss_def)
    have "ss ! Suc j \<noteq> ss ! j" using j j' by (simp add: ss_def nth_eq_iff_index_eq)
    then have ne: "?s \<noteq> of_nat (ss ! j)" using u32_of_nat_255 [OF small] by blast
    have be: "block_entry (ctx_session_idx ctx) bid mid = Some a"
      using pr(3) block_entry_frame [of mid S] by (simp add: mid)
    have "is_present (blocks (shm w) a) ?s" using in_ss(1) n by (auto simp: ss_def gather_present_nth)
    then have sn: "?s < se_n (session_table mid ! ?i)"
      using block_entry_Some(6) [OF assms(1) [unfolded shm_inv_def] assms(2)] by (simp add: block_ok_def mid pr(4))
    note e = block_entry_Some [OF hS pr(3)]
    have len: "length (slot_idx (blocks purged a)) = 255"
      using closed_entry(4) [of "unat bid" mid ?i a] e(3,4) by (simp add: circle(3) mid)
    have jN: "(of_nat (ss ! j) :: u32) < MAX_N" using small unat_of_nat_small [of "ss ! j", where 'a = 32] by (simp add: MAX_N_less)
    have "slot_of (blocks purged a) ?s = SLOT_IDX_FREE"
      using closed_entry(5) [of "unat bid" mid ?i a ?s] e(3,4) sn by (simp add: circle(3) mid)
    moreover have "slot_of (clear_slot (of_nat (ss ! j)) (blocks purged a)) ?s = slot_of (blocks purged a) ?s"
      using ne by (simp add: slot_of_clear [OF len jN])
    ultimately show ?thesis using rounds(3) [OF j'] by (simp add: release_accesses_def after)
  qed
  ultimately show ?thesis
    using decode_runs_release_loop [OF assms(3,6,7)] all by (simp add: assms(8))
qed

text \<open>Block 0 of the concrete session with symbols 0 and 2 registered, claimed for decoding.\<close>

definition demo_ready :: World where
  "demo_ready = (let w = registered_world demo_env 2 [121, 2, 141] 0 demo1
     in set_block 0 ((blocks (shm w) 0)\<lparr>decoded := DECODE_CLAIMED\<rparr>) w)"

lemma demo_ready_state:
  "shm_inv attached_mgr (shm demo_ready) [2]" "session_table (shm demo_ready) = session_table demo_seg"
  "decoded (blocks (shm demo_ready) 0) = DECODE_CLAIMED" "links (blocks (shm demo_ready) 0) = [0 \<mapsto> 0, 2 \<mapsto> 1]"
  "\<exists>w'. decode_and_write_block demo_env demo_ctx 0 0 demo_ready = (True, w')"
proof -
  let ?w = "registered_world demo_env 2 [121, 2, 141] 0 demo1"
  have v: "valid_packet demo_ctx 0 2 [121, 2, 141] 0 demo1" using demo1_entry by (simp add: valid_packet_def)
  obtain seg where al: "alloc_slot (env_mgr demo_env) (shm demo1) = (1, seg)"
    using alloc_slot_pop(1) [OF attached_mgr shm_invD(2) [OF demo1_state(1)]] by (metis demo_sel(1) prod.collapse)
  have pre: "shm_inv (env_mgr demo_env) (shm demo1) [1, 2]" "decoded (blocks (shm demo1) 0) \<noteq> DECODE_COMPLETE"
    "\<not> is_present (blocks (shm demo1) 0) 2" "(1 :: u32) \<noteq> kListEnd"
    using demo1_state(1,4,5) by (simp_all add: decode_states kListEnd_eq present_links)
  note rw = registered_world_hand [OF pre(1) demo1_fits v pre(2,3) al pre(4) refl]
  have hand: "shm_hand attached_mgr (shm ?w) [2] []" using rw(2) by simp
  have be: "block_entry 0 0 (shm ?w) = Some 0"
    using demo1_entry block_entry_frame [OF rw(3)] by simp
  show "shm_inv attached_mgr (shm demo_ready) [2]"
    using hand_decoded [OF hand be, of DECODE_CLAIMED] rw(7) demo1_state(5)
    by (simp add: demo_ready_def Let_def shm_inv_def decode_states)
  show "session_table (shm demo_ready) = session_table demo_seg" "decoded (blocks (shm demo_ready) 0) = DECODE_CLAIMED"
    "links (blocks (shm demo_ready) 0) = [0 \<mapsto> 0, 2 \<mapsto> 1]"
    using rw(3,6) demo1_state(2,4) by (simp_all add: demo_ready_def Let_def)
  obtain w' where hp: "handle_data_packet demo_env ''s1'' 0 2 [121, 2, 141] demo1 = ((BlockDecoded, Some 0), w')"
    using demo_decodes by blast
  have "contexts demo1 ''s1'' = Some demo_ctx" by (simp add: demo1_state(3))
  from packet_registered [OF this v pre(2,3) _ _ refl refl] hp al pre(4) rw(1)
  show "\<exists>w'. decode_and_write_block demo_env demo_ctx 0 0 demo_ready = (True, w')"
    by (auto simp: demo_ready_def Let_def split: if_splits prod.splits bool.splits)
qed

theorem purge_during_release_double_frees_witness:
  "\<exists>start calls after. calls = release_loop attached_mgr 0 3 (gather_present 3 (blocks (shm demo_ready) 0)) \<and> length calls = 4 \<and>
     after = (calls ! 1) (snd (close_session attached_mgr (Some ''s1'') ((calls ! 0) start))) \<and>
     \<not> distinct (fst (alloc_many attached_mgr (Suc (length (session_slots ((calls ! 0) start) 0))) after)) \<and>
     (calls ! 2) after = free_slot attached_mgr SLOT_IDX_FREE after"
proof -
  define calls where "calls = release_loop attached_mgr 0 3 (gather_present 3 (blocks (shm demo_ready) 0))"
  define start where "start = (shm demo_ready)\<lparr>blocks := (blocks (shm demo_ready))(0 := (blocks (shm demo_ready) 0)\<lparr>decoded := DECODE_COMPLETE\<rparr>)\<rparr>"
  obtain w' where dw: "decode_and_write_block demo_env demo_ctx 0 0 demo_ready = (True, w')" using demo_ready_state(5) by blast
  have be: "block_entry 0 0 (shm demo_ready) = Some 0" using demo_entry block_entry_frame [OF demo_ready_state(2)] by simp
  have found: "find_session ''s1'' (shm demo_ready) = Some 0" using demo_seg_found by (simp add: find_session_def demo_ready_state(2))
  have present: "is_present (blocks (shm demo_ready) 0) s \<longleftrightarrow> s = 0 \<or> s = 2" for s
    by (simp add: present_links demo_ready_state(4))
  have "filter (\<lambda>s. gather_present 3 (blocks (shm demo_ready) 0) ! s) [0..<3] = [0, 2]"
    by (simp add: upt_0_3 gather_present_nth present)
  then have len: "length calls = 4" by (simp add: calls_def release_loop_def release_accesses_def)
  then have take1: "take (2 * 0 + 1) calls = [calls ! 0]" by (cases calls) auto
  define mid where "mid = (calls ! 0) start"
  define after where "after = (calls ! (2 * 0 + 1)) (snd (close_session attached_mgr (Some ''s1'') mid))"
  have "mid = fold (\<lambda>access. access) (take (2 * 0 + 1) calls) start" by (simp only: take1) (simp add: mid_def)
  from purge_during_release_double_frees [of demo_env demo_ready "[2]" demo_ctx 0 0 "''s1''" w' start calls 0, OF _ _ _ _ _ _ _ _ _ this refl refl refl]
  have r: "\<not> distinct (fst (alloc_many attached_mgr (Suc (length (session_slots mid 0))) after))"
    "(calls ! (2 * 0 + 2)) after = free_slot attached_mgr SLOT_IDX_FREE after"
    using demo_ready_state(1,3) be found dw len
    by (simp_all add: calls_def [symmetric] start_def [symmetric] after_def MAX_N_def del: alloc_many.simps)
  have "after = (calls ! 1) (snd (close_session attached_mgr (Some ''s1'') ((calls ! 0) start)))"
    by (simp add: after_def mid_def)
  moreover have "\<not> distinct (fst (alloc_many attached_mgr (Suc (length (session_slots ((calls ! 0) start) 0))) after))"
    using r(1) by (simp only: mid_def not_False_eq_True)
  moreover have "(calls ! 2) after = free_slot attached_mgr SLOT_IDX_FREE after" using r(2) by (simp add: numeral_2_eq_2)
  ultimately show ?thesis using len calls_def by blast
qed

section \<open>A symbol registered after the purge\<close>

lemma hand_idle_entry:
  assumes inv: "shm_hand mgr seg fl hand"
    and apart: "\<And>j b. j < 8 \<Longrightarrow> se_state (session_table seg ! j) = SESSION_STATE_OPEN \<Longrightarrow>
       b < unat (se_total_blocks (session_table seg ! j)) \<Longrightarrow>
       table_entry (unat (se_block_table_offset (session_table seg ! j))) b \<noteq> a"
  shows "shm_hand mgr (seg\<lparr>blocks := (blocks seg)(a := e)\<rparr>) fl hand"
proof -
  note d = shm_handD [OF inv]
  let ?seg = "seg\<lparr>blocks := (blocks seg)(a := e)\<rparr>"
  have at: "block_at ?seg j b = block_at seg j b"
    if "j < 8" "se_state (session_table seg ! j) = SESSION_STATE_OPEN" "b < unat (se_total_blocks (session_table seg ! j))" for j b
    using apart [OF that] by (simp add: block_at_def)
  have "session_slots ?seg j = session_slots seg j" if "j < 8" for j
  proof (cases "se_state (session_table seg ! j) = SESSION_STATE_OPEN")
    case True
    then show ?thesis using that at by (intro session_slots_cong) auto
  qed (simp add: session_slots_def)
  then have "held_slots ?seg = held_slots seg" by (auto simp: held_slots_def intro!: arg_cong [of _ _ concat])
  moreover have "session_ok ?seg j" if "j < 8" for j
    using d(6) [OF that] at [OF that] by (auto simp: session_ok_def Let_def session_states)
  ultimately show ?thesis using d by (intro shm_handI) (simp_all add: pool_def region_ok_def ids_unique_def)
qed

text \<open>An entry of the closed session belongs to no open one.\<close>

lemma closed_entry_apart:
  assumes inv: "shm_inv mgr seg fl" and found: "find_session sid seg = Some i"
    and be: "block_entry sidx bid seg = Some a" and "i = unat sidx"
    and j: "j < 8" "se_state (session_table (snd (close_session mgr (Some sid) seg)) ! j) = SESSION_STATE_OPEN"
       "b < unat (se_total_blocks (session_table (snd (close_session mgr (Some sid) seg)) ! j))"
  shows "table_entry (unat (se_block_table_offset (session_table (snd (close_session mgr (Some sid) seg)) ! j))) b \<noteq> a"
proof -
  note d = shm_invD [OF inv]
  note be = block_entry_Some [OF inv [unfolded shm_inv_def] be]
  obtain bl where cl: "close_session mgr (Some sid) seg = (True, set_state i SESSION_STATE_EMPTY
          ((fold (free_slot mgr) (session_slots seg i) (set_state i SESSION_STATE_CLOSING seg))\<lparr>blocks := bl\<rparr>))"
    by (rule close_session_found [OF inv found]) blast
  have "j \<noteq> i" using j(2) close_session_inv(3) [OF inv found] by (auto simp: session_states)
  then have tab: "session_table (snd (close_session mgr (Some sid) seg)) ! j = session_table seg ! j"
    using find_session_Some [OF found] d(3) by (simp add: cl)
  have op: "se_state (session_table seg ! j) = SESSION_STATE_OPEN" and b: "b < unat (se_total_blocks (session_table seg ! j))"
    using j(2,3) by (simp_all add: tab)
  have "b < 8192" "unat bid < 8192"
    using open_total [OF d(5) [OF j(1)] op] b open_total [OF d(5) [OF be(1)] be(2)] be(3) by auto
  then have "entry_addr seg j b \<noteq> entry_addr seg (unat sidx) (unat bid)"
    using entry_addr_inj [of b "unat bid" seg j "unat sidx"] \<open>j \<noteq> i\<close> assms(4) by auto
  then show ?thesis
    unfolding tab be(4) block_at_addr(1) [OF d(5) [OF j(1)] d(4) j(1) op] block_at_addr(1) [OF d(5) [OF be(1)] d(4) be(1,2)] .
qed

text \<open>
  C40: a registration after a purge by another process leaks a slot.  The first half of
  \<open>handle_data_packet\<close> accepts a packet and keeps the context and the block view it found; another process then
  closes the session, after which the same lookup would reject the packet.  The second half does not look
  again: if k is 2 or more and a slot was free, it reports \<open>RegisteredOnly\<close>, and a slot of the arena is now on
  no free list and linked by no open session, although no process is still working on it.
\<close>

theorem late_registration_leaks_slot:
  assumes "shm_inv (env_mgr env) (shm w) fl" and "fl \<noteq> []"
    and "packet_lookup nid bid symid payload w = Inr (ctx, a)" and "ctx_fits (shm w) ctx" and "1 < ctx_k ctx"
    and "find_session sid (shm w) = Some (unat (ctx_session_idx ctx))"
    and "w1 = w\<lparr>shm := snd (close_session (env_mgr env) (Some sid) (shm w))\<rparr>"
    and "packet_register env ctx bid symid payload a w1 = (r, w2)"
  shows "packet_lookup nid bid symid payload w1 = Inl InvalidBlockOrSymbol \<and> r = (RegisteredOnly, None) \<and>
     (\<exists>x fl'. x < slot_count (hdr (shm w2)) \<and> pool (shm w2) fl' \<and> x \<notin> set fl' \<and> x \<notin> set (held_slots (shm w2)))"
proof -
  let ?mgr = "env_mgr env" and ?i = "unat (ctx_session_idx ctx)"
  note d = shm_invD [OF assms(1)]
  have ctx: "contexts w nid = Some ctx" and v: "block_entry (ctx_session_idx ctx) bid (shm w) = Some a"
    "symid < ctx_n ctx" "length payload = unat (ctx_symbol_bytes ctx)"
    using assms(3) by (auto simp: packet_lookup_def not_le split: option.splits if_splits)
  note be = block_entry_Some [OF assms(1) [unfolded shm_inv_def] v(1)]
  define seg where "seg = shm w1"
  have seg: "seg = snd (close_session ?mgr (Some sid) (shm w))" by (simp add: seg_def assms(7))
  have inv: "shm_inv ?mgr seg (rev (session_slots (shm w) ?i) @ fl)"
    unfolding seg by (rule close_session_inv(2) [OF assms(1,6)])
  have "se_state (session_table seg ! ?i) = SESSION_STATE_EMPTY"
    unfolding seg by (rule close_session_inv(3) [OF assms(1,6)])
  then have "block_entry (ctx_session_idx ctx) bid (shm w1) = None"
    by (simp add: block_entry_def Let_def session_states flip: seg_def)
  then have gone: "packet_lookup nid bid symid payload w1 = Inl InvalidBlockOrSymbol"
    using ctx by (simp add: packet_lookup_def assms(7))
  have "blocks seg a = closed_blocks (shm w) ?i a"
    using close_session_sweeps [OF d(1,3) d(5) [OF be(1)] assms(6)] by (simp add: seg)
  note e = closed_entry [OF be(3,4), folded this]
  have sN: "symid < MAX_N" and len: "length payload \<le> 1536"
    using v(2,3) assms(4) by (auto simp: ctx_fits_def SLOT_SIZE_def word_le_nat_alt word_less_nat_alt)
  obtain x seg' where al: "alloc_slot ?mgr seg = (x, seg')" by fastforce
  have x: "x \<noteq> kListEnd" using hand_alloc_fail [OF inv] assms(2) by (simp add: al)
  define w' where "w' = set_block a (snd (register_symbol symid x (blocks seg a))) (w1\<lparr>shm := write_slot x payload seg'\<rparr>)"
  have fr: "blocks seg' = blocks seg" using arg_cong [OF al, of "\<lambda>p. blocks (snd p)"] by simp
  have new: "fst (register_symbol symid x (blocks seg a)) = NewSymbol" "seen (snd (register_symbol symid x (blocks seg a))) = 1"
    using sN e(1) [of symid] e(2) by (auto simp: register_symbol_def is_present_def Let_def)
  then have "packet_register env ctx bid symid payload a w1 = ((RegisteredOnly, None), w')"
    using al x assms(5) by (simp add: packet_register_def fr w'_def prod.case_eq_if Let_def not_le [symmetric] flip: seg_def)
  then have w2: "r = (RegisteredOnly, None)" "w2 = w'" using assms(8) by simp_all
  obtain fl' where "shm_hand ?mgr seg' fl' [x]"
    by (rule hand_alloc [OF inv]) (use al x in auto)
  then have h: "shm_hand ?mgr (write_slot x payload seg') fl' [x]" using len by (rule hand_write)
  have tab: "session_table seg' = session_table seg" using arg_cong [OF al, of "\<lambda>p. session_table (snd p)"] by simp
  have "shm_hand ?mgr (shm w2) fl' [x]"
    unfolding w2(2) w'_def using hand_idle_entry [OF h, of a] closed_entry_apart [OF assms(1,6) v(1) refl]
    by (auto simp: tab seg)
  from hand_distinct [OF this] shm_handD(2) [OF this] have "x < slot_count (hdr (shm w2)) \<and> pool (shm w2) fl' \<and>
     x \<notin> set fl' \<and> x \<notin> set (held_slots (shm w2))" by auto
  with gone w2(1) show ?thesis by blast
qed

theorem late_registration_leaks_slot_witness:
  "\<exists>w2 x fl'. packet_lookup ''s1'' 0 0 [1, 2, 3] demo = Inr (demo_ctx, 0) \<and>
     packet_register demo_env demo_ctx 0 0 [1, 2, 3] 0 (demo\<lparr>shm := snd (close_session attached_mgr (Some ''s1'') demo_seg)\<rparr>) =
       ((RegisteredOnly, None), w2) \<and>
     x < slot_count (hdr (shm w2)) \<and> pool (shm w2) fl' \<and> x \<notin> set fl' \<and> x \<notin> set (held_slots (shm w2))"
proof -
  have "decoded zero_block \<noteq> DECODE_COMPLETE" by (simp add: zero_block_def decode_states)
  then have look: "packet_lookup ''s1'' 0 0 [1, 2, 3] demo = Inr (demo_ctx, 0)"
    using demo_packet by (simp add: packet_lookup_def valid_packet_def demo_block not_le)
  obtain r w2 where reg: "packet_register demo_env demo_ctx 0 0 [1, 2, 3] 0
      (demo\<lparr>shm := snd (close_session attached_mgr (Some ''s1'') demo_seg)\<rparr>) = (r, w2)" by fastforce
  have pre: "shm_inv (env_mgr demo_env) (shm demo) [0, 1, 2]" "ctx_fits (shm demo) demo_ctx" "1 < ctx_k demo_ctx"
    "find_session ''s1'' (shm demo) = Some (unat (ctx_session_idx demo_ctx))"
    using demo_inv demo_fits demo_seg_found by simp_all
  from late_registration_leaks_slot [OF pre(1) _ look pre(2-4) refl, of r w2] reg look show ?thesis by auto
qed

end
