(* ===== verification/SegmentTypes.thy ===== *)
theory SegmentTypes
  imports Pipeline
begin

text \<open>
  The C types of the mapped structures (\<^verbatim>\<open>src/receiver/shm_manager.hpp\<close>, \<open>BlockEntry\<close> and \<open>SessionEntry\<close>) as an
  invariant of the model, in which arrays are lists and enumerations are words.  A store beyond an array
  (\<open>array_write\<close>) destroys it, so keeping the lengths means that every store stays inside its array.  It needs no
  other invariant: it holds under any ids, any packets and any free list.
\<close>

section \<open>Types\<close>

definition entry_typed :: "BlockEntry \<Rightarrow> bool" where
  "entry_typed e \<longleftrightarrow> length (present_mask e) = 4 \<and> length (slot_idx e) = 255 \<and>
     decoded e \<in> {DECODE_PENDING, DECODE_CLAIMED, DECODE_COMPLETE}"

definition session_typed :: "SessionEntry \<Rightarrow> bool" where
  "session_typed se \<longleftrightarrow> length (se_session_id se) < 64 \<and> length (se_dest_path se) < 256 \<and> length (se_hash se) = 32 \<and>
     se_state se \<in> {SESSION_STATE_EMPTY, SESSION_STATE_OPEN, SESSION_STATE_CLOSING}"

definition segment_typed :: "Segment \<Rightarrow> bool" where
  "segment_typed seg \<longleftrightarrow> length (session_table seg) = 8 \<and> (\<forall>se\<in>set (session_table seg). session_typed se) \<and>
     (\<forall>a. entry_typed (blocks seg a))"

lemma segment_typedD [simp]: "segment_typed seg \<Longrightarrow> entry_typed (blocks seg a)"
  by (simp add: segment_typed_def)

section \<open>Operations of one block\<close>

lemma register_symbol_typed: "entry_typed e \<Longrightarrow> entry_typed (snd (register_symbol s x e))"
  by (simp add: register_symbol_def entry_typed_def Let_def not_le)

lemma try_claim_typed: "entry_typed e \<Longrightarrow> entry_typed (snd (try_claim_decode e))"
  by (auto simp: try_claim_decode_def entry_typed_def)

lemma mark_complete_typed: "entry_typed e \<Longrightarrow> entry_typed (snd (mark_decode_complete e))"
  by (auto simp: mark_decode_complete_def entry_typed_def)

lemma clear_slot_typed: "entry_typed e \<Longrightarrow> entry_typed (clear_slot s e)"
  by (simp add: clear_slot_def entry_typed_def)

lemma fold_write_length:
  "\<forall>s\<in>set ss. s < length ys \<Longrightarrow> length (fold (\<lambda>s xs. array_write xs s v) ss ys) = length ys"
  by (induction ss arbitrary: ys) simp_all

lemma free_links_typed: "entry_typed e \<Longrightarrow> n \<le> MAX_N \<Longrightarrow> entry_typed (free_links n e)"
  by (simp add: free_links_def entry_typed_def fold_write_length word_le_nat_alt MAX_N_def)

lemma zero_block_typed: "entry_typed zero_block"
  by (simp add: zero_block_def entry_typed_def decode_states)

lemmas block_typed = register_symbol_typed try_claim_typed mark_complete_typed clear_slot_typed free_links_typed zero_block_typed

section \<open>Operations of the segment\<close>














section \<open>Handlers\<close>






section \<open>Properties\<close>




end
