(* ===== verification/Isolation.thy ===== *)
theory Isolation
  imports Pipeline
begin

text \<open>
  What the handlers of \<^verbatim>\<open>src/receiver/session_pipeline.cpp\<close> leave alone: an event of one session changes no
  block entry, no slot contents, no table entry, no context and no destination file of another.
\<close>

section \<open>Slot contents\<close>

definition same_slots :: "u32 set \<Rightarrow> Segment \<Rightarrow> Segment \<Rightarrow> bool" where
  "same_slots X seg seg' \<longleftrightarrow> (\<forall>x\<in>X. \<forall>m\<le>1536. read_slot x m seg' = read_slot x m seg)"

lemma same_slots_refl [simp]: "same_slots X seg seg"
  by (simp add: same_slots_def)

lemma same_slots_trans: "same_slots X a b \<Longrightarrow> same_slots X b c \<Longrightarrow> same_slots X a c"
  by (simp add: same_slots_def)

lemma same_slots_arena: "arena seg' = arena seg \<Longrightarrow> same_slots X seg seg'"
  by (simp add: same_slots_def read_slot_def)

lemma same_slots_cong [simp]:
  "same_slots X seg (seg'\<lparr>blocks := bl\<rparr>) = same_slots X seg seg'"
  "same_slots X (seg\<lparr>blocks := bl\<rparr>) seg' = same_slots X seg seg'"
  "same_slots X seg (set_state i st seg') = same_slots X seg seg'"
  by (simp_all add: same_slots_def read_slot_def)

lemma same_slots_read: "same_slots X seg seg' \<Longrightarrow> x \<in> X \<Longrightarrow> m \<le> 1536 \<Longrightarrow> read_slot x m seg' = read_slot x m seg"
  by (simp add: same_slots_def)

lemma same_slots_write:
  "x \<notin> X \<Longrightarrow> length payload \<le> 1536 \<Longrightarrow> same_slots X seg (write_slot x payload seg)"
  by (auto simp: same_slots_def read_slot_def write_slot_def intro!: read_slot_other)

lemma same_slots_free: "x \<notin> X \<Longrightarrow> same_slots X seg (free_slot mgr x seg)"
  by (auto simp: same_slots_def read_slot_def free_slot_def Let_def store64_def intro!: read_slot_other)

lemma same_slots_free_all: "set xs \<inter> X = {} \<Longrightarrow> same_slots X seg (fold (free_slot mgr) xs seg)"
proof (induction xs arbitrary: seg)
  case (Cons x xs)
  then show ?case
    using same_slots_trans [OF same_slots_free [of x X seg mgr] Cons.IH [of "free_slot mgr x seg"]] by simp
qed simp

lemma alloc_slot_arena [simp]: "arena (snd (alloc_slot mgr seg)) = arena seg"
  by (simp add: alloc_slot_def note_alloc_def Let_def)

section \<open>Slots of different blocks\<close>

lemma distinct_concat_apart:
  assumes "distinct (concat (map f [0..<n]))" and "i < n" and "j < n" and "i \<noteq> j"
  shows "set (f i) \<inter> set (f j) = {}"
  using assms
proof (induction n)
  case (Suc n)
  then show ?case by (cases "i = n"; cases "j = n") (fastforce simp: less_Suc_eq)+
qed simp

lemma distinct_concat_part: "distinct (concat (map f [0..<n])) \<Longrightarrow> i < n \<Longrightarrow> distinct (f i)"
  by (induction n) (auto simp: less_Suc_eq)

lemma block_slots_session:
  assumes "se_state (session_table seg ! i) = SESSION_STATE_OPEN" and "b < unat (se_total_blocks (session_table seg ! i))"
  shows "set (block_slots (block_at seg i b)) \<subseteq> set (session_slots seg i)"
  using assms by (auto simp: session_slots_def)

lemma session_slots_held: "i < 8 \<Longrightarrow> set (session_slots seg i) \<subseteq> set (held_slots seg)"
  by (auto simp: held_slots_def)

lemma blocks_apart:
  assumes held: "distinct (held_slots seg)" and "i < 8" and "j < 8"
    and i: "se_state (session_table seg ! i) = SESSION_STATE_OPEN" "b < unat (se_total_blocks (session_table seg ! i))"
    and j: "se_state (session_table seg ! j) = SESSION_STATE_OPEN" "b' < unat (se_total_blocks (session_table seg ! j))"
    and ne: "(i, b) \<noteq> (j, b')"
  shows "set (block_slots (block_at seg i b)) \<inter> set (block_slots (block_at seg j b')) = {}"
proof (cases "i = j")
  case True
  have "distinct (session_slots seg i)"
    using held assms(2) unfolding held_slots_def by (rule distinct_concat_part)
  then have "distinct (concat (map (\<lambda>b. block_slots (block_at seg i b)) [0..<unat (se_total_blocks (session_table seg ! i))]))"
    using i(1) by (simp add: session_slots_def)
  from distinct_concat_apart [OF this] show ?thesis using True i(2) j(2) ne by simp
next
  case False
  have "set (session_slots seg i) \<inter> set (session_slots seg j) = {}"
    using held assms(2,3) False unfolding held_slots_def by (rule distinct_concat_apart)
  then show ?thesis using block_slots_session [OF i] block_slots_session [OF j] by blast
qed

section \<open>What a packet can touch\<close>

text \<open>Of the block entries only its own; of the slots only those its block links and free ones.\<close>

lemma release_loop_frame:
  assumes "distinct ss" and "\<forall>s\<in>set ss. s < 255" and "length (slot_idx (blocks seg a)) = 255"
    and "\<forall>s\<in>set ss. present ! s \<longrightarrow> slot_of (blocks seg a) (of_nat s) \<notin> X"
  shows "same_slots X seg (fold (\<lambda>s seg. if present ! s then release_symbol mgr a (of_nat s) seg else seg) ss seg) \<and>
     (\<forall>a'. a' \<noteq> a \<longrightarrow> blocks (fold (\<lambda>s seg. if present ! s then release_symbol mgr a (of_nat s) seg else seg) ss seg) a' = blocks seg a')"
  using assms
proof (induction ss arbitrary: seg)
  case (Cons s ss)
  show ?case
  proof (cases "present ! s")
    case True
    let ?seg = "release_symbol mgr a (of_nat s) seg"
    have sN: "(of_nat s :: u32) < MAX_N"
      using Cons.prems(2) unat_of_nat_small [of s, where 'a = 32] by (simp add: MAX_N_less)
    have same: "same_slots X seg ?seg"
      using same_slots_free [of "slot_of (blocks seg a) (of_nat s)" X seg mgr] Cons.prems(4) True
      by (simp add: release_symbol_eq Let_def)
    have bl: "blocks ?seg = (blocks seg)(a := clear_slot (of_nat s) (blocks seg a))"
      by (simp add: release_symbol_eq Let_def)
    have "slot_of (clear_slot (of_nat s) (blocks seg a)) (of_nat t) = slot_of (blocks seg a) (of_nat t)" if "t \<in> set ss" for t
      using that Cons.prems(1,2) u32_of_nat_255 [of t s] slot_of_clear [OF Cons.prems(3) sN, of "of_nat t"] by auto
    moreover have "length (slot_idx (blocks ?seg a)) = 255" using Cons.prems(3) by (simp add: bl clear_slot_def)
    ultimately show ?thesis
      using Cons.IH [of ?seg] Cons.prems True same bl by (auto intro: same_slots_trans)
  next
    case False
    with Cons show ?thesis by simp
  qed
qed simp

lemma decode_and_write_frame:
  assumes "block_ok n (blocks (shm w) a)" and "ctx_n ctx \<le> MAX_N" and "decoded (blocks (shm w) a) = DECODE_CLAIMED"
    and X: "set (block_slots (blocks (shm w) a)) \<inter> X = {}"
    and dw: "decode_and_write_block env ctx bid a w = (r, w')"
  shows "same_slots X (shm w) (shm w')" and "a' \<noteq> a \<Longrightarrow> blocks (shm w') a' = blocks (shm w) a'"
    and "p \<noteq> bw_path (ctx_writer ctx) \<Longrightarrow> files w' p = files w p"
proof -
  let ?e = "blocks (shm w) a" and ?present = "gather_present (ctx_n ctx) (blocks (shm w) a)"
  let ?seg = "(shm w)\<lparr>blocks := (blocks (shm w))(a := ?e\<lparr>decoded := DECODE_COMPLETE\<rparr>)\<rparr>"
  let ?loop = "fold (\<lambda>s seg. if ?present ! s then release_symbol (env_mgr env) a (of_nat s) seg else seg)
       [0..<unat (ctx_n ctx)] ?seg"
  have mark: "mark_decode_complete ?e = (True, ?e\<lparr>decoded := DECODE_COMPLETE\<rparr>)"
    using assms(3) by (simp add: mark_decode_complete_def)
  have n255: "unat (ctx_n ctx) \<le> 255" using assms(2) by (simp add: MAX_N_def word_le_nat_alt)
  have "slot_of ?e (of_nat s) \<notin> X" if "s < 255" "?present ! s" for s
  proof -
    have p: "is_present ?e (of_nat s)" using that by (simp add: gather_present_nth)
    have "links ?e (of_nat s) \<noteq> Some kListEnd"
      using assms(1,3) by (simp add: block_ok_def decode_states)
    then have "slot_of ?e (of_nat s) \<noteq> kListEnd" using p by (simp add: links_def)
    then have "slot_of ?e (of_nat s) \<in> set (block_slots ?e)"
      using p that(1) by (auto simp: block_slots_def)
    then show ?thesis using X by blast
  qed
  then have loop: "same_slots X ?seg ?loop \<and> (\<forall>a'. a' \<noteq> a \<longrightarrow> blocks ?loop a' = blocks ?seg a')"
    using assms(1) n255 by (intro release_loop_frame) (auto simp: block_ok_def block_wf_def)
  have "shm w' = shm w \<or> shm w' = ?loop"
    using dw mark by (auto simp: decode_and_write_block_def Let_def split: option.splits prod.splits bool.splits)
  with loop show "same_slots X (shm w) (shm w')" "a' \<noteq> a \<Longrightarrow> blocks (shm w') a' = blocks (shm w) a'" by auto
  show "p \<noteq> bw_path (ctx_writer ctx) \<Longrightarrow> files w' p = files w p"
    using dw mark by (auto simp: decode_and_write_block_def Let_def split: option.splits prod.splits bool.splits)
qed

lemma packet_confined:
  assumes inv: "shm_inv (env_mgr env) (shm w) fl" and ctx: "contexts w sid = Some ctx" and fit: "ctx_fits (shm w) ctx"
    and v: "valid_packet ctx bid symid payload a w"
    and hp: "handle_data_packet env sid bid symid payload w = (r, w')"
    and X: "set (block_slots (blocks (shm w) a)) \<inter> X = {}" "set fl \<inter> X = {}"
  shows "same_slots X (shm w) (shm w') \<and> (\<forall>a'. a' \<noteq> a \<longrightarrow> blocks (shm w') a' = blocks (shm w) a') \<and>
     (\<forall>p. p \<noteq> bw_path (ctx_writer ctx) \<longrightarrow> files w' p = files w p)"
proof -
  let ?mgr = "env_mgr env" and ?e = "blocks (shm w) a"
  obtain x seg where al: "alloc_slot ?mgr (shm w) = (x, seg)" by fastforce
  have seg: "arena seg = arena (shm w)" "blocks seg = blocks (shm w)"
    using arg_cong [OF al, of "\<lambda>p. arena (snd p)"] arg_cong [OF al, of "\<lambda>p. blocks (snd p)"] by simp_all
  consider "decoded ?e = DECODE_COMPLETE \<or> is_present ?e symid"
    | "decoded ?e \<noteq> DECODE_COMPLETE" "\<not> is_present ?e symid" "x = kListEnd"
    | "decoded ?e \<noteq> DECODE_COMPLETE" "\<not> is_present ?e symid" "x \<noteq> kListEnd" by blast
  then show ?thesis
  proof cases
    case 1
    then show ?thesis using packet_duplicate [OF ctx v 1] hp by simp
  next
    case 2
    then show ?thesis using packet_exhausted [OF ctx v 2(1,2), of env seg] al hp seg
      by (auto simp: same_slots_arena)
  next
    case 3
    define w1 where "w1 = registered_world env symid payload a w"
    note rw = registered_world_hand [OF inv fit v 3(1,2) al 3(3) w1_def]
    obtain fl' where fl': "fl = x # fl'" "shm_hand ?mgr (shm w1) fl' []" using rw(2) by blast
    have x: "x \<notin> X" using fl'(1) X(2) by simp
    have len: "length payload \<le> 1536"
      using v fit by (auto simp: valid_packet_def ctx_fits_def SLOT_SIZE_def word_le_nat_alt)
    have s1: "same_slots X (shm w) (shm w1)"
      using same_slots_write [OF x len, of "shm w"] unfolding same_slots_def read_slot_def rw(8) write_slot_def by simp
    have b1: "blocks (shm w1) a' = blocks (shm w) a'" if "a' \<noteq> a" for a'
      using that by (simp add: w1_def registered_world_def al seg)
    have step: "handle_data_packet env sid bid symid payload w =
     (if seen (blocks (shm w1) a) \<ge> ctx_k ctx \<and> decoded (blocks (shm w1) a) = DECODE_PENDING
      then (case decode_and_write_block env ctx bid a (set_block a ((blocks (shm w1) a)\<lparr>decoded := DECODE_CLAIMED\<rparr>) w1) of
              (True, w) \<Rightarrow> ((BlockDecoded, Some bid), w) | (False, w) \<Rightarrow> ((RegisteredOnly, None), w))
      else ((RegisteredOnly, None), w1))"
      by (rule packet_registered [OF ctx v 3(1,2) _ _ w1_def refl]) (use 3(3) rw(1) al in simp_all)
    show ?thesis
    proof (cases "seen (blocks (shm w1) a) \<ge> ctx_k ctx \<and> decoded (blocks (shm w1) a) = DECODE_PENDING")
      case True
      define w3 where "w3 = set_block a ((blocks (shm w1) a)\<lparr>decoded := DECODE_CLAIMED\<rparr>) w1"
      obtain b w4 where dw: "decode_and_write_block env ctx bid a w3 = (b, w4)" by fastforce
      have "handle_data_packet env sid bid symid payload w =
          (if b then ((BlockDecoded, Some bid), w4) else ((RegisteredOnly, None), w4))"
        unfolding step if_P [OF True] w3_def [symmetric] dw by (cases b) simp_all
      then have w': "w' = w4" using hp by (simp split: if_splits)
      have be1: "block_entry (ctx_session_idx ctx) bid (shm w1) = Some a"
        using v block_entry_frame [OF rw(3)] by (simp add: valid_packet_def)
      note ok1 = block_entry_Some(6) [OF fl'(2) be1]
      have ok: "block_ok (se_n (session_table (shm w1) ! unat (ctx_session_idx ctx))) (blocks (shm w3) a)"
        using ok1 True by (intro block_ok_same_links(1) [OF ok1]) (simp_all add: w3_def block_ok_def decode_states)
      have sN: "symid < MAX_N" using v fit by (auto simp: valid_packet_def ctx_fits_def)
      have "links ?e symid = None" using 3(2) by (simp add: links_def)
      then have "mset (block_slots (blocks (shm w3) a)) = mset (block_slots ?e) + {#x#}"
        using block_slots_change [OF sN, of "blocks (shm w3) a" ?e] 3(3) by (simp add: w3_def rw(6))
      from arg_cong [OF this, of set_mset]
      have "set (block_slots (blocks (shm w3) a)) = insert x (set (block_slots ?e))" by simp
      then have "set (block_slots (blocks (shm w3) a)) \<inter> X = {}" by (simp only: Int_insert_left X(1) x if_False)
      note fr = decode_and_write_frame [OF ok _ _ this dw]
      have n: "ctx_n ctx \<le> MAX_N" and cl: "decoded (blocks (shm w3) a) = DECODE_CLAIMED"
        using fit by (simp_all add: ctx_fits_def w3_def)
      have "same_slots X (shm w1) (shm w4)" using fr(1) [OF n cl] by (simp add: w3_def)
      moreover have "blocks (shm w4) a' = blocks (shm w) a'" if "a' \<noteq> a" for a'
        using fr(2) [OF n cl that] b1 [OF that] that by (simp add: w3_def)
      moreover have "files w4 p = files w p" if "p \<noteq> bw_path (ctx_writer ctx)" for p
        using fr(3) [OF n cl that] by (simp add: w3_def rw(5))
      ultimately show ?thesis using same_slots_trans [OF s1] by (simp add: w')
    next
      case False
      then have "w' = w1" using hp step by (simp split: if_splits)
      then show ?thesis using s1 b1 rw(5) by simp
    qed
  qed
qed

section \<open>Events of other sessions\<close>

fun ev_session :: "event \<Rightarrow> string" where
  "ev_session (EvOpen msg file_size) = so_session_id msg"
| "ev_session (EvPurge nid) = nid"
| "ev_session (EvData nid bid symid payload) = nid"

text \<open>What the session with context \<open>ctx\<close> relies on, in the segment.\<close>

definition undisturbed :: "SessionContext \<Rightarrow> Segment \<Rightarrow> Segment \<Rightarrow> bool" where
  "undisturbed ctx seg seg' \<longleftrightarrow>
     (let i = unat (ctx_session_idx ctx)
      in session_table seg' ! i = session_table seg ! i \<and>
         (\<forall>b<unat (se_total_blocks (session_table seg ! i)).
            block_at seg' i b = block_at seg i b \<and> same_slots (set (block_slots (block_at seg i b))) seg seg'))"

lemma undisturbed_refl [simp]: "undisturbed ctx seg seg"
  by (simp add: undisturbed_def Let_def)

lemma pipe_inv_ctx:
  assumes "pipe_inv env w" and "contexts w sid = Some ctx"
  shows "unat (ctx_session_idx ctx) < 8" "se_state (session_table (shm w) ! unat (ctx_session_idx ctx)) = SESSION_STATE_OPEN"
    and "strncmp_eq (se_session_id (session_table (shm w) ! unat (ctx_session_idx ctx))) (c_str sid) 63"
    and "ctx_fits (shm w) ctx" and "find_session (c_str sid) (shm w) = Some (unat (ctx_session_idx ctx))"
proof -
  show f: "find_session (c_str sid) (shm w) = Some (unat (ctx_session_idx ctx))" and "ctx_fits (shm w) ctx"
    using assms by (auto simp: pipe_inv_def)
  from find_session_Some [OF f]
  show "unat (ctx_session_idx ctx) < 8" "se_state (session_table (shm w) ! unat (ctx_session_idx ctx)) = SESSION_STATE_OPEN"
    "strncmp_eq (se_session_id (session_table (shm w) ! unat (ctx_session_idx ctx))) (c_str sid) 63" by simp_all
qed

lemma event_apart:
  assumes "pipe_inv env w" and "contexts w sid = Some ctx" and "apart nid w" and "nid \<noteq> sid"
  shows "\<not> strncmp_eq (c_str sid) (c_str nid) 63"
  using assms by (auto simp: apart_def)

lemma found_elsewhere:
  assumes p: "pipe_inv env w" and ctx: "contexts w sid = Some ctx" and ap: "apart nid w" and ne: "nid \<noteq> sid"
    and f: "find_session (c_str nid) (shm w) = Some j"
  shows "j \<noteq> unat (ctx_session_idx ctx)"
  using pipe_inv_ctx(3) [OF p ctx] find_session_Some [OF f] event_apart [OF p ctx ap ne] by (auto simp: strncmp_eq_def)

lemma packet_undisturbed:
  assumes p: "pipe_inv env w" and ctx: "contexts w sid = Some ctx" and ne: "nid \<noteq> sid"
    and hp: "handle_data_packet env nid bid symid payload w = (r, w')"
  shows "undisturbed ctx (shm w) (shm w') \<and>
     (\<forall>p. (\<forall>c. contexts w nid = Some c \<longrightarrow> bw_path (ctx_writer c) \<noteq> p) \<longrightarrow> files w' p = files w p)"
proof (cases "\<exists>c a. contexts w nid = Some c \<and> valid_packet c bid symid payload a w")
  case False
  have "w' = w"
  proof (cases "contexts w nid")
    case None
    then show ?thesis using hp packet_rejected(1) [OF None] by simp
  next
    case (Some c)
    then have "symid \<ge> ctx_n c \<or> length payload \<noteq> unat (ctx_symbol_bytes c) \<or> block_entry (ctx_session_idx c) bid (shm w) = None"
      using False by (auto simp: valid_packet_def not_le)
    then show ?thesis using hp packet_rejected(2) [OF Some, of symid payload env bid]
        packet_rejected(3) [OF Some, of bid env symid payload] by auto
  qed
  then show ?thesis by simp
next
  case True
  then obtain c a where c: "contexts w nid = Some c" and v: "valid_packet c bid symid payload a w" by blast
  obtain fl where inv: "shm_inv (env_mgr env) (shm w) fl" using p by (auto simp: pipe_inv_def)
  have hand: "shm_hand (env_mgr env) (shm w) fl []" using inv by (simp add: shm_inv_def)
  let ?i = "unat (ctx_session_idx ctx)" and ?j = "unat (ctx_session_idx c)" and ?seg = "shm w"
  note pc = pipe_inv_ctx [OF p c] and pi = pipe_inv_ctx [OF p ctx]
  have be: "block_entry (ctx_session_idx c) bid ?seg = Some a" using v by (simp add: valid_packet_def)
  note e = block_entry_Some [OF hand be]
  have "apart nid w" using p c by (auto simp: pipe_inv_def)
  then have ij: "?j \<noteq> ?i" by (rule found_elsewhere [OF p ctx _ ne pc(5)])
  have tab: "session_table (shm w') = session_table ?seg"
    using handle_data_packet_inv(2) [OF inv _ hp] pc(4) c by simp
  have blk: "block_at (shm w') ?i b = block_at ?seg ?i b \<and> same_slots (set (block_slots (block_at ?seg ?i b))) ?seg (shm w')"
    if b: "b < unat (se_total_blocks (session_table ?seg ! ?i))" for b
  proof -
    let ?X = "set (block_slots (block_at ?seg ?i b))"
    have "set (block_slots (blocks ?seg a)) \<inter> ?X = {}"
      unfolding e(5) using held_owned(1) [OF inv] pc(1,2) pi(1,2) e(3) b ij by (intro blocks_apart) simp_all
    moreover have "set fl \<inter> ?X = {}"
      using held_owned(2) [OF inv] block_slots_session [OF pi(2) b] session_slots_held [OF pi(1)] by blast
    ultimately have cf: "same_slots ?X ?seg (shm w') \<and> (\<forall>a'. a' \<noteq> a \<longrightarrow> blocks (shm w') a' = blocks ?seg a')"
      using packet_confined [OF inv c pc(4) v hp] by blast
    have "table_entry (unat (se_block_table_offset (session_table ?seg ! ?i))) b \<noteq> a"
    proof -
      note d = shm_invD [OF inv]
      have "b < 8192" "unat bid < 8192"
        using open_total [OF d(5) [OF pi(1)] pi(2)] open_total [OF d(5) [OF pc(1)] pc(2)] b e(3) by simp_all
      then have "entry_addr ?seg ?i b \<noteq> entry_addr ?seg ?j (unat bid)"
        using entry_addr_inj [of b "unat bid" ?seg ?i ?j] ij by auto
      then show ?thesis
        unfolding e(4) block_at_addr(1) [OF d(5) [OF pi(1)] d(4) pi(1,2)] block_at_addr(1) [OF d(5) [OF pc(1)] d(4) pc(1,2)] .
    qed
    with cf show ?thesis by (simp add: block_at_def tab)
  qed
  have "files w' p = files w p" if "p \<noteq> bw_path (ctx_writer c)" for p
    using packet_confined [OF inv c pc(4) v hp, of "{}"] that by simp
  with blk tab c show ?thesis by (auto simp: undisturbed_def Let_def)
qed

lemma open_session_claims:
  assumes "open_session mgr sid k n sb tb fs dest seg = (r, seg')"
  obtains "seg' = seg"
    | i where "find_empty seg = Some i" "\<not> tb > MAX_BLOCKS_PER_SESSION" "seg' = claim_session i sid k n sb tb fs dest seg"
proof (cases "seg' = seg")
  case False
  then obtain i where "find_empty seg = Some i" "seg' = claim_session i sid k n sb tb fs dest seg" "\<not> tb > MAX_BLOCKS_PER_SESSION"
    using assms by (auto simp: open_session_def split: if_splits option.splits)
  with that(2) show ?thesis by blast
qed (rule that(1))

lemma open_undisturbed:
  assumes p: "pipe_inv env w" and ctx: "contexts w sid = Some ctx"
    and os: "open_session (env_mgr env) nid k n sb tb fs dest (shm w) = (r, seg')"
  shows "undisturbed ctx (shm w) seg'"
  using os
proof (cases rule: open_session_claims)
  case (2 j)
  obtain fl where inv: "shm_inv (env_mgr env) (shm w) fl" using p by (auto simp: pipe_inv_def)
  note pi = pipe_inv_ctx [OF p ctx]
  have j: "j < 8" "unat (ctx_session_idx ctx) \<noteq> j" using find_empty_Some [OF 2(1)] pi(2) by (auto simp: session_states)
  have "arena seg' = arena (shm w)" "session_table seg' ! unat (ctx_session_idx ctx) = session_table (shm w) ! unat (ctx_session_idx ctx)"
    using j shm_invD(3) [OF inv] by (simp_all add: 2(3) claim_session_def Let_def)
  moreover have "block_at seg' (unat (ctx_session_idx ctx)) b = block_at (shm w) (unat (ctx_session_idx ctx)) b"
    if "b < unat (se_total_blocks (session_table (shm w) ! unat (ctx_session_idx ctx)))" for b
    unfolding 2(3) by (rule claim_session_other [OF inv j(1) 2(2) pi(1) j(2) pi(2) that])
  ultimately show ?thesis by (simp add: undisturbed_def Let_def same_slots_arena)
qed simp

lemma close_undisturbed:
  assumes p: "pipe_inv env w" and ctx: "contexts w sid = Some ctx" and ap: "apart nid w" and ne: "nid \<noteq> sid"
  shows "undisturbed ctx (shm w) (snd (close_session (env_mgr env) (Some (c_str nid)) (shm w)))"
proof (cases "find_session (c_str nid) (shm w)")
  case None
  then show ?thesis by (simp add: close_session_def)
next
  case (Some j)
  obtain fl where inv: "shm_inv (env_mgr env) (shm w) fl" using p by (auto simp: pipe_inv_def)
  let ?seg = "shm w" and ?i = "unat (ctx_session_idx ctx)" and ?mgr = "env_mgr env"
  note pi = pipe_inv_ctx [OF p ctx]
  have j: "j < 8" "j \<noteq> ?i" using find_session_Some [OF Some] found_elsewhere [OF p ctx ap ne Some] by simp_all
  obtain bl where cl: "close_session ?mgr (Some (c_str nid)) ?seg = (True, set_state j SESSION_STATE_EMPTY
          ((fold (free_slot ?mgr) (session_slots ?seg j) (set_state j SESSION_STATE_CLOSING ?seg))\<lparr>blocks := bl\<rparr>))"
    and bl: "\<And>i b. i < 8 \<Longrightarrow> i \<noteq> j \<Longrightarrow> se_state (session_table ?seg ! i) = SESSION_STATE_OPEN \<Longrightarrow>
       b < unat (se_total_blocks (session_table ?seg ! i)) \<Longrightarrow>
       bl (table_entry (unat (se_block_table_offset (session_table ?seg ! i))) b) = block_at ?seg i b"
    by (rule close_session_found [OF inv Some]) blast
  have tab: "session_table (snd (close_session ?mgr (Some (c_str nid)) ?seg)) ! ?i = session_table ?seg ! ?i"
    using j shm_invD(3) [OF inv] by (simp add: cl)
  have blk: "block_at (snd (close_session ?mgr (Some (c_str nid)) ?seg)) ?i b = block_at ?seg ?i b"
    if "b < unat (se_total_blocks (session_table ?seg ! ?i))" for b
    using bl [OF pi(1) _ pi(2) that] j(2) by (simp add: block_at_def tab) (simp add: cl set_state_def)
  have "same_slots (set (block_slots (block_at ?seg ?i b))) ?seg (snd (close_session ?mgr (Some (c_str nid)) ?seg))"
    if "b < unat (se_total_blocks (session_table ?seg ! ?i))" for b
  proof -
    have "set (session_slots ?seg j) \<inter> set (session_slots ?seg ?i) = {}"
      using held_owned(1) [OF inv] j pi(1) unfolding held_slots_def by (intro distinct_concat_apart)
    then have "set (session_slots ?seg j) \<inter> set (block_slots (block_at ?seg ?i b)) = {}"
      using block_slots_session [OF pi(2) that] by blast
    from same_slots_free_all [OF this, of "set_state j SESSION_STATE_CLOSING ?seg" ?mgr]
    show ?thesis by (simp add: cl same_slots_def read_slot_def)
  qed
  with tab blk show ?thesis by (simp add: undisturbed_def Let_def)
qed

lemma session_open_cases:
  assumes os: "open_session (env_mgr env) (c_str (so_session_id msg)) (so_k msg) (so_n msg) (so_block_bytes msg)
               (so_total_blocks msg) file_size (c_str (so_dest_path msg)) (shm w) = (r, seg)"
    and w': "w' = snd (handle_session_open env msg file_size w)"
  obtains (known) "w' = w" "contexts w (so_session_id msg) \<noteq> None"
    | (refused) "shm w' = seg" "contexts w' = contexts w" "files w' = files w"
    | (opened) idx ctx where "r = Some idx" "shm w' = seg" "contexts w' = (contexts w)(so_session_id msg \<mapsto> ctx)"
        "files w' = files w" "ctx_session_idx ctx = idx" "ctx_n ctx = so_n msg" "ctx_symbol_bytes ctx = so_block_bytes msg"
        "bw_path (ctx_writer ctx) = c_str (so_dest_path msg)"
proof (cases "contexts w (so_session_id msg)")
  case (Some c)
  then show thesis by (intro known) (simp_all add: w' handle_session_open_def)
next
  case None
  show thesis
  proof (cases r)
    case None
    then show thesis using \<open>contexts w (so_session_id msg) = None\<close>
      by (intro refused) (simp_all add: w' handle_session_open_def os)
  next
    case (Some idx)
    obtain b wr where ow: "open_writer (env_os env) (c_str (so_dest_path msg)) file_size (so_k msg) (so_block_bytes msg) new_writer = (b, wr)"
      by fastforce
    show thesis
    proof (cases b)
      case True
      have "bw_path wr = c_str (so_dest_path msg)"
        using ow True by (auto simp: open_writer_def Let_def split: if_splits option.splits)
      then show thesis using None True Some
        by (intro opened [of idx "\<lparr>ctx_session_idx = idx, ctx_k = so_k msg, ctx_n = so_n msg, ctx_symbol_bytes = so_block_bytes msg,
            ctx_codec = new_codec (env_lib env) (so_k msg) (so_n msg) (so_block_bytes msg), ctx_writer = wr\<rparr>"])
          (simp_all add: w' handle_session_open_def os ow Let_def)
    next
      case False
      then show thesis using None Some by (intro refused) (simp_all add: w' handle_session_open_def os ow Let_def)
    qed
  qed
qed

lemma event_undisturbed:
  assumes p: "pipe_inv env w" and ok: "event_ok w ev" and ctx: "contexts w sid = Some ctx" and ne: "ev_session ev \<noteq> sid"
  shows "contexts (apply_event env ev w) sid = Some ctx \<and> undisturbed ctx (shm w) (shm (apply_event env ev w)) \<and>
     (\<forall>p. (\<forall>c. contexts w (ev_session ev) = Some c \<longrightarrow> bw_path (ctx_writer c) \<noteq> p) \<longrightarrow>
          files (apply_event env ev w) p = files w p)"
proof (cases ev)
  case (EvOpen msg file_size)
  obtain r seg where os: "open_session (env_mgr env) (c_str (so_session_id msg)) (so_k msg) (so_n msg) (so_block_bytes msg)
               (so_total_blocks msg) file_size (c_str (so_dest_path msg)) (shm w) = (r, seg)" by fastforce
  have "undisturbed ctx (shm w) seg" by (rule open_undisturbed [OF p ctx os])
  then show ?thesis using ctx ne EvOpen
    by (cases rule: session_open_cases [OF os refl]) simp_all
next
  case (EvPurge nid)
  then show ?thesis using close_undisturbed [OF p ctx, of nid] ok ne ctx by (simp add: purge_session_def)
next
  case (EvData nid bid symid payload)
  obtain r w' where hp: "handle_data_packet env nid bid symid payload w = (r, w')" by fastforce
  obtain fl where inv: "shm_inv (env_mgr env) (shm w) fl" using p by (auto simp: pipe_inv_def)
  have "contexts w' = contexts w"
    using handle_data_packet_inv(3) [OF inv _ hp] p by (auto simp: pipe_inv_def)
  with packet_undisturbed [OF p ctx _ hp] ne ctx show ?thesis by (simp add: EvData hp)
qed

section \<open>Properties\<close>

text \<open>
  C8: sessions are isolated from admissible events of one another.  A data packet of any content for another
  session, and an open or a purge of another session whose id differs within the first 63 characters from
  every other id this process holds, keep a session's context, its table entry, every block entry, the
  bytes of every slot its blocks link, and every destination file but the one of the addressed session.  An
  open has to announce n at most 255, symbols of at most 1536 bytes, and no larger n than the entry its id
  already has in the segment.  The code checks none of this (event_ok): a purge of an id that shares 63
  characters closes this session, and larger symbols overwrite other slots.
\<close>

theorem session_isolation:
  assumes "pipe_inv env w" and "event_ok w ev" and "contexts w sid = Some ctx" and "ev_session ev \<noteq> sid"
    and "i = unat (ctx_session_idx ctx)" and "b < unat (se_total_blocks (session_table (shm w) ! i))"
    and "x \<in> set (block_slots (block_at (shm w) i b))" and "m \<le> 1536"
    and "\<forall>c. contexts w (ev_session ev) = Some c \<longrightarrow> bw_path (ctx_writer c) \<noteq> p"
  shows "contexts (apply_event env ev w) sid = Some ctx \<and>
         session_table (shm (apply_event env ev w)) ! i = session_table (shm w) ! i \<and>
         block_at (shm (apply_event env ev w)) i b = block_at (shm w) i b \<and>
         read_slot x m (shm (apply_event env ev w)) = read_slot x m (shm w) \<and>
         files (apply_event env ev w) p = files w p"
  using event_undisturbed [OF assms(1-4)] assms(5-9) by (auto simp: undisturbed_def Let_def same_slots_read)

text \<open>The session of \<open>demo1\<close> while another one opens.\<close>

definition other_open :: SessionOpen where
  "other_open = \<lparr>so_session_id = ''s2'', so_k = 2, so_n = 3, so_block_bytes = 3, so_total_blocks = 2,
     so_dest_path = ''/e'', so_file_size = 11\<rparr>"

lemma demo_pipe_inv: "pipe_inv demo_env demo"
proof -
  have "pipe_inv demo_env (apply_event demo_env (EvOpen demo_open 11) start_world)"
    by (rule apply_event_inv [OF start_world_inv])
      (simp add: demo_open_def MAX_N_def SLOT_SIZE_def apart_def start_world_def fresh3_find)
  then show ?thesis by (simp add: demo_opens)
qed

lemma demo1_pipe_inv: "pipe_inv demo_env demo1"
proof -
  have "pipe_inv demo_env (apply_event demo_env (EvData ''s1'' 0 0 [1, 2, 3]) demo)"
    by (rule apply_event_inv [OF demo_pipe_inv]) simp
  then show ?thesis by (simp add: demo1_first)
qed

lemma demo_other_unknown: "find_session ''s2'' demo_seg = None"
  using shm_invD(3) [OF fresh3_inv]
  by (auto simp: find_session_def find_None_iff MAX_SESSIONS_def demo_claimed claim_session_def Let_def strncmp_eq_def
      nth_list_update session_states zero_session_def)

lemma demo_other_ok: "event_ok demo (EvOpen other_open 11)" "event_ok demo1 (EvOpen other_open 11)"
proof -
  have "find_session ''s2'' (shm demo1) = None" using demo_other_unknown by (simp add: find_session_def demo1_state(2))
  then show "event_ok demo (EvOpen other_open 11)" "event_ok demo1 (EvOpen other_open 11)"
    by (simp_all add: other_open_def MAX_N_def SLOT_SIZE_def apart_def demo1_state(3) strncmp_eq_def c_str_def demo_other_unknown)
qed

theorem session_isolation_witness:
  "read_slot 0 3 (shm (apply_event demo_env (EvOpen other_open 11) demo1)) = [1, 2, 3]"
proof -
  have b: "block_at (shm demo1) 0 0 = blocks (shm demo1) 0"
    using demo_session(4) by (simp add: block_at_def demo1_state(2) table_entry_def)
  have l: "links (blocks (shm demo1) 0) 0 = Some 0" by (simp add: demo1_state(4))
  then have s: "is_present (blocks (shm demo1) 0) 0" "slot_of (blocks (shm demo1) 0) 0 = 0"
    by (auto simp: links_def split: if_splits)
  then have x: "0 \<in> set (block_slots (block_at (shm demo1) 0 0))"
    by (auto simp: b block_slots_def kListEnd_eq intro!: image_eqI [of _ _ 0])
  have "read_slot 0 3 (shm (apply_event demo_env (EvOpen other_open 11) demo1)) = read_slot 0 3 (shm demo1)"
    using session_isolation [OF demo1_pipe_inv demo_other_ok(2), of "''s1''" demo_ctx 0 0 0 3 "''/d''"] x
    by (simp add: other_open_def demo1_state(2,3) demo_session(3) del: apply_event.simps)
  then show ?thesis using demo1_state(6) [unfolded block_holds_def, rule_format, OF s(1)] s(2) by (simp add: demo_sent)
qed

end
