(* ===== verification/Delivery.thy ===== *)
theory Delivery
  imports Isolation
begin

text \<open>
  A whole transfer through one receiver (\<^verbatim>\<open>src/receiver/session_pipeline.cpp\<close> over the segment, the codec and
  the block writer): data packets of one session in any order, repeated, malformed, and interleaved with
  any events of other sessions.  The sender's data enters as one list of data symbols per block.
\<close>

section \<open>The transfer\<close>

text \<open>What the sender transmits: a valid data packet of the session carries the symbol it names.\<close>

fun carries :: "isal \<Rightarrow> string \<Rightarrow> SessionContext \<Rightarrow> u32 \<Rightarrow> (u32 \<Rightarrow> u8 list list) \<Rightarrow> event \<Rightarrow> bool" where
  "carries lib sid ctx T D (EvData nid bid symid payload) \<longleftrightarrow>
     (nid = sid \<longrightarrow> bid < T \<longrightarrow> symid < ctx_n ctx \<longrightarrow> length payload = unat (ctx_symbol_bytes ctx) \<longrightarrow>
        payload = sent_symbols lib ctx (D bid) ! unat symid)"
| "carries lib sid ctx T D (EvPurge nid) \<longleftrightarrow> nid \<noteq> sid"
| "carries lib sid ctx T D (EvOpen msg file_size) \<longleftrightarrow>
     (so_session_id msg \<noteq> sid \<longrightarrow> c_str (so_dest_path msg) \<noteq> bw_path (ctx_writer ctx))"

text \<open>The symbols of a block that a list of events delivers.\<close>

definition delivered :: "string \<Rightarrow> SessionContext \<Rightarrow> event list \<Rightarrow> u32 \<Rightarrow> u32 set" where
  "delivered sid ctx evs bid =
     {s. \<exists>payload. EvData sid bid s payload \<in> set evs \<and> s < ctx_n ctx \<and> length payload = unat (ctx_symbol_bytes ctx)}"

text \<open>No packet of the session is dropped for want of a slot.\<close>

fun ample :: "Env \<Rightarrow> string \<Rightarrow> event list \<Rightarrow> World \<Rightarrow> bool" where
  "ample env sid [] w \<longleftrightarrow> True"
| "ample env sid (ev # evs) w \<longleftrightarrow>
     (\<forall>bid symid payload. ev = EvData sid bid symid payload \<longrightarrow>
        fst (fst (handle_data_packet env sid bid symid payload w)) \<noteq> ArenaExhausted) \<and>
     ample env sid evs (apply_event env ev w)"

text \<open>A session under way: T blocks, its own destination file, mapped and flushed without error.\<close>

definition transfer :: "Env \<Rightarrow> string \<Rightarrow> SessionContext \<Rightarrow> u32 \<Rightarrow> (u32 \<Rightarrow> u8 list list) \<Rightarrow> World \<Rightarrow> bool" where
  "transfer env sid ctx T D w \<longleftrightarrow>
     pipe_inv env w \<and> contexts w sid = Some ctx \<and>
     se_n (session_table (shm w) ! unat (ctx_session_idx ctx)) = ctx_n ctx \<and>
     se_total_blocks (session_table (shm w) ! unat (ctx_session_idx ctx)) = T \<and>
     (\<forall>nid c. contexts w nid = Some c \<longrightarrow> nid \<noteq> sid \<longrightarrow> bw_path (ctx_writer c) \<noteq> bw_path (ctx_writer ctx)) \<and>
     0 < ctx_k ctx \<and> bw_mapped (ctx_writer ctx) \<and> (\<forall>off len. os_msync (env_os env) off len) \<and>
     (\<forall>bid<T. ctx_coded env ctx (D bid) \<and> block_off (ctx_writer ctx) bid < unat (bw_file_size (ctx_writer ctx)))"

definition stored :: "BlockWriter \<Rightarrow> u32 \<Rightarrow> u8 list \<Rightarrow> DestFile \<Rightarrow> bool" where
  "stored wr bid d f \<longleftrightarrow>
     (\<forall>i<block_len wr bid. cached f (block_off wr bid + i) = d ! i \<and> durable f (block_off wr bid + i) = d ! i)"

text \<open>Where a block stands when the symbols in G have been delivered.\<close>

definition progress :: "Env \<Rightarrow> SessionContext \<Rightarrow> (u32 \<Rightarrow> u8 list list) \<Rightarrow> World \<Rightarrow> u32 \<Rightarrow> u32 set \<Rightarrow> bool" where
  "progress env ctx D w bid G \<longleftrightarrow>
     (let i = unat (ctx_session_idx ctx);
          a = table_entry (unat (se_block_table_offset (session_table (shm w) ! i))) (unat bid);
          e = blocks (shm w) a
      in if unat (ctx_k ctx) \<le> card G
         then decoded e = DECODE_COMPLETE \<and> stored (ctx_writer ctx) bid (concat (D bid)) (files w (bw_path (ctx_writer ctx)))
         else decoded e = DECODE_PENDING \<and> dom (links e) = G \<and>
              block_holds (unat (ctx_symbol_bytes ctx)) (sent_symbols (env_lib env) ctx (D bid)) a (shm w))"

lemma transferD:
  assumes "transfer env sid ctx T D w"
  shows "pipe_inv env w" "contexts w sid = Some ctx"
    and "se_n (session_table (shm w) ! unat (ctx_session_idx ctx)) = ctx_n ctx"
    and "se_total_blocks (session_table (shm w) ! unat (ctx_session_idx ctx)) = T"
    and "contexts w nid = Some c \<Longrightarrow> nid \<noteq> sid \<Longrightarrow> bw_path (ctx_writer c) \<noteq> bw_path (ctx_writer ctx)"
    and "0 < ctx_k ctx" "bw_mapped (ctx_writer ctx)" "os_msync (env_os env) off len"
    and "bid < T \<Longrightarrow> ctx_coded env ctx (D bid)"
    and "bid < T \<Longrightarrow> block_off (ctx_writer ctx) bid < unat (bw_file_size (ctx_writer ctx))"
  using assms by (simp_all add: transfer_def)

section \<open>Ranges of different blocks\<close>

lemma block_off_mult:
  assumes "ctx_coded env ctx d" and "ctx_fits seg ctx" and "unat bid < 8192"
  shows "block_off (ctx_writer ctx) bid = unat bid * unat (bw_block_bytes (ctx_writer ctx))"
proof -
  have "unat (ctx_k ctx) \<le> 255" "unat (ctx_symbol_bytes ctx) \<le> 1536"
    using assms(1,2) by (simp_all add: ctx_coded_def ctx_fits_def MAX_N_def SLOT_SIZE_def word_le_nat_alt)
  then have "unat (ctx_k ctx) * unat (ctx_symbol_bytes ctx) \<le> 255 * 1536" by (rule mult_le_mono)
  then have "unat (bw_block_bytes (ctx_writer ctx)) \<le> 391680" using assms(1) by (simp add: ctx_coded_def)
  then have "unat bid * unat (bw_block_bytes (ctx_writer ctx)) \<le> 8192 * 391680" using assms(3) by (intro mult_le_mono) simp_all
  moreover have "unat (ucast bid :: u64) = unat bid" using assms(3) by (simp add: unsigned_ucast_eq take_bit_nat_eq_self)
  ultimately show ?thesis by (simp add: block_off_def unat_mult_lem [THEN iffD1])
qed

lemma writes_elsewhere:
  assumes "block_off wr bid = unat bid * unat (bw_block_bytes wr)" and "block_off wr bid' = unat bid' * unat (bw_block_bytes wr)"
    and "bid' \<noteq> bid" and "i < block_len wr bid"
  shows "\<not> writes_byte wr (block_off wr bid + i) (bid', d)"
proof -
  let ?n = "unat (bw_block_bytes wr)"
  have i: "i < ?n" using assms(4) by (simp add: block_len_def)
  consider "unat bid + 1 \<le> unat bid'" | "unat bid' + 1 \<le> unat bid"
    using assms(3) by (metis Suc_eq_plus1 Suc_leI nat_neq_iff unsigned_word_eqI)
  then show ?thesis
  proof cases
    case 1
    then have "(unat bid + 1) * ?n \<le> unat bid' * ?n" by (rule mult_le_mono1)
    then have "block_off wr bid + i < block_off wr bid'" using i assms(1,2) by simp
    then show ?thesis by (simp add: writes_byte_def)
  next
    case 2
    then have "(unat bid' + 1) * ?n \<le> unat bid * ?n" by (rule mult_le_mono1)
    then have "block_off wr bid' + ?n \<le> block_off wr bid" using assms(1,2) by simp
    then show ?thesis by (auto simp: writes_byte_def block_len_def min_def split: if_splits)
  qed
qed

lemma stored_elsewhere:
  assumes "store_block os wr (bid', d) f = Some f'" and "stored wr bid c f"
    and "block_off wr bid = unat bid * unat (bw_block_bytes wr)" and "block_off wr bid' = unat bid' * unat (bw_block_bytes wr)"
    and "bid' \<noteq> bid"
  shows "stored wr bid c f'"
  unfolding stored_def
proof (intro allI impI)
  fix i assume i: "i < block_len wr bid"
  note dest_file.store_keeps [OF assms(1) writes_elsewhere [OF assms(3-5) i]]
  then show "cached f' (block_off wr bid + i) = c ! i \<and> durable f' (block_off wr bid + i) = c ! i"
    using assms(2) i by (auto simp: stored_def)
qed

lemma store_block_stored:
  assumes "store_block os wr (bid, d) f = Some f'" and "unat (bw_block_bytes wr) \<le> length d"
  shows "stored wr bid d f'"
  unfolding stored_def
proof (intro allI impI)
  fix i assume "i < block_len wr bid"
  then have "writes_byte wr (block_off wr bid + i) (bid, d)"
    using assms(2) by (simp add: writes_byte_def block_len_def)
  from dest_file.store_writes [OF assms(1) this]
  show "cached f' (block_off wr bid + i) = d ! i \<and> durable f' (block_off wr bid + i) = d ! i"
    by (simp add: block_byte_def)
qed

section \<open>One event\<close>

text \<open>A block whose entry, slots and stored bytes an event keeps stays where it was.\<close>

lemma progress_kept:
  assumes inv: "pipe_inv env w" and ctx: "contexts w sid = Some ctx" and b: "bid < se_total_blocks (session_table (shm w) ! unat (ctx_session_idx ctx))"
    and pr: "progress env ctx D w bid G"
    and tab: "session_table (shm w') ! unat (ctx_session_idx ctx) = session_table (shm w) ! unat (ctx_session_idx ctx)"
    and blk: "block_at (shm w') (unat (ctx_session_idx ctx)) (unat bid) = block_at (shm w) (unat (ctx_session_idx ctx)) (unat bid)"
    and slots: "same_slots (set (block_slots (block_at (shm w) (unat (ctx_session_idx ctx)) (unat bid)))) (shm w) (shm w')"
    and kept: "stored (ctx_writer ctx) bid (concat (D bid)) (files w (bw_path (ctx_writer ctx))) \<Longrightarrow>
       stored (ctx_writer ctx) bid (concat (D bid)) (files w' (bw_path (ctx_writer ctx)))"
  shows "progress env ctx D w' bid G"
proof -
  let ?i = "unat (ctx_session_idx ctx)" and ?sb = "unat (ctx_symbol_bytes ctx)"
  let ?a = "table_entry (unat (se_block_table_offset (session_table (shm w) ! ?i))) (unat bid)"
  let ?e = "blocks (shm w) ?a" and ?enc = "sent_symbols (env_lib env) ctx (D bid)"
  note pi = pipe_inv_ctx [OF inv ctx]
  have e: "block_at (shm w) ?i (unat bid) = ?e" "blocks (shm w') ?a = ?e"
    using blk tab by (simp_all add: block_at_def)
  obtain fl where fl: "shm_inv (env_mgr env) (shm w) fl" using inv by (auto simp: pipe_inv_def)
  have ok: "block_ok (se_n (session_table (shm w) ! ?i)) ?e"
    using shm_invD(5) [OF fl pi(1)] pi(2) b e(1) by (auto simp: session_ok_def Let_def session_states word_less_nat_alt)
  have "block_holds ?sb ?enc ?a (shm w')" if "block_holds ?sb ?enc ?a (shm w)" "decoded ?e = DECODE_PENDING"
    unfolding block_holds_def e(2)
  proof (intro allI impI)
    fix s assume p: "is_present ?e s"
    have "links ?e s \<noteq> Some kListEnd" using ok that(2) by (simp add: block_ok_def decode_states)
    then have "slot_of ?e s \<noteq> kListEnd" using p by (simp add: links_def)
    moreover have "unat s < 255" using p by (simp add: is_present_def MAX_N_less [symmetric] not_le)
    ultimately have "slot_of ?e s \<in> set (block_slots ?e)"
      using p by (auto simp: block_slots_def intro!: image_eqI [of _ _ "unat s"])
    moreover have "?sb \<le> 1536" using pi(4) by (simp add: ctx_fits_def SLOT_SIZE_def word_le_nat_alt)
    ultimately have "read_slot (slot_of ?e s) ?sb (shm w') = read_slot (slot_of ?e s) ?sb (shm w)"
      using slots e(1) by (intro same_slots_read) simp_all
    then show "read_slot (slot_of ?e s) ?sb (shm w') = ?enc ! unat s" using that(1) p by (simp add: block_holds_def)
  qed
  then show ?thesis using pr kept by (auto simp: progress_def Let_def tab e(2) split: if_splits)
qed

lemma new_context:
  assumes "contexts (apply_event env ev w) nid = Some c" and "\<exists>fl. shm_inv (env_mgr env) (shm w) fl"
    and "\<And>c. contexts w (ev_session ev) = Some c \<Longrightarrow> ctx_fits (shm w) c"
  shows "contexts w nid = Some c \<or>
    (\<exists>msg file_size. ev = EvOpen msg file_size \<and> nid = so_session_id msg \<and> bw_path (ctx_writer c) = c_str (so_dest_path msg))"
proof (cases ev)
  case (EvOpen msg file_size)
  obtain r seg where os: "open_session (env_mgr env) (c_str (so_session_id msg)) (so_k msg) (so_n msg) (so_block_bytes msg)
               (so_total_blocks msg) file_size (c_str (so_dest_path msg)) (shm w) = (r, seg)" by fastforce
  show ?thesis
    using assms(1) EvOpen by (cases rule: session_open_cases [OF os refl]) (auto split: if_splits)
next
  case (EvPurge x)
  then show ?thesis using assms(1) by (auto simp: purge_session_def split: if_splits)
next
  case (EvData x bid symid payload)
  obtain r w' where hp: "handle_data_packet env x bid symid payload w = (r, w')" by fastforce
  obtain fl where "shm_inv (env_mgr env) (shm w) fl" using assms(2) by blast
  from handle_data_packet_inv(3) [OF this _ hp] assms(1,3) show ?thesis by (simp add: EvData hp)
qed

text \<open>The static part of a transfer is kept by every event.\<close>

lemma transfer_step:
  assumes t: "transfer env sid ctx T D w" and ok: "event_ok w ev" and c: "carries (env_lib env) sid ctx T D ev"
  shows "transfer env sid ctx T D (apply_event env ev w)"
proof -
  note d = transferD [OF t]
  let ?w' = "apply_event env ev w" and ?i = "unat (ctx_session_idx ctx)"
  have inv: "pipe_inv env ?w'" by (rule apply_event_inv [OF d(1) ok])
  have keep: "contexts ?w' sid = Some ctx \<and> session_table (shm ?w') ! ?i = session_table (shm w) ! ?i"
  proof (cases "ev_session ev = sid")
    case False
    from event_undisturbed [OF d(1) ok d(2) False] show ?thesis by (simp add: undisturbed_def Let_def)
  next
    case True
    show ?thesis
    proof (cases ev)
      case (EvOpen msg file_size)
      then show ?thesis using True d(2) by (simp add: handle_session_open_def)
    next
      case (EvPurge nid)
      then show ?thesis using True c by simp
    next
      case (EvData nid bid symid payload)
      obtain r w' where hp: "handle_data_packet env nid bid symid payload w = (r, w')" by fastforce
      obtain fl where "shm_inv (env_mgr env) (shm w) fl" using d(1) by (auto simp: pipe_inv_def)
      from handle_data_packet_inv(2,3) [OF this _ hp] d(1,2) show ?thesis by (auto simp: EvData hp pipe_inv_def)
    qed
  qed
  have "bw_path (ctx_writer c) \<noteq> bw_path (ctx_writer ctx)" if new: "contexts ?w' nid = Some c" "nid \<noteq> sid" for nid c
  proof -
    have "contexts w nid = Some c \<or>
      (\<exists>msg file_size. ev = EvOpen msg file_size \<and> nid = so_session_id msg \<and> bw_path (ctx_writer c) = c_str (so_dest_path msg))"
      using new_context [OF new(1)] d(1) by (auto simp: pipe_inv_def)
    then show ?thesis using d(5) new(2) c by auto
  qed
  note paths = this
  show ?thesis
    unfolding transfer_def using inv keep paths d(3,4,6-10) by (intro conjI) (blast | simp)+
qed

text \<open>A valid packet of the session itself, for its own block and for the others.\<close>

lemma own_entry:
  assumes t: "transfer env sid ctx T D w" and b: "bid < T"
  shows "block_entry (ctx_session_idx ctx) bid (shm w) =
      Some (table_entry (unat (se_block_table_offset (session_table (shm w) ! unat (ctx_session_idx ctx)))) (unat bid))"
  using pipe_inv_ctx(1,2) [OF transferD(1) [OF t] transferD(2) [OF t]] transferD(4) [OF t] b
  by (simp add: block_entry_def Let_def MAX_SESSIONS_def word_le_nat_alt word_less_nat_alt)

lemma own_invalid:
  assumes t: "transfer env sid ctx T D w"
    and bad: "\<not> (bid < T \<and> symid < ctx_n ctx \<and> length payload = unat (ctx_symbol_bytes ctx))"
  shows "handle_data_packet env sid bid symid payload w = ((InvalidBlockOrSymbol, None), w)"
proof (cases "symid \<ge> ctx_n ctx \<or> length payload \<noteq> unat (ctx_symbol_bytes ctx)")
  case True
  then show ?thesis by (rule packet_rejected(2) [OF transferD(2) [OF t]])
next
  case False
  then have "\<not> bid < se_total_blocks (session_table (shm w) ! unat (ctx_session_idx ctx))"
    using bad transferD(4) [OF t] by (auto simp: not_le)
  then have "block_entry (ctx_session_idx ctx) bid (shm w) = None"
    by (simp add: block_entry_def Let_def not_less)
  then show ?thesis by (rule packet_rejected(3) [OF transferD(2) [OF t]])
qed

lemma own_packet:
  assumes t: "transfer env sid ctx T D w" and b: "bid < T" and pr: "progress env ctx D w bid G"
    and s: "symid < ctx_n ctx" and len: "length payload = unat (ctx_symbol_bytes ctx)"
    and pl: "payload = sent_symbols (env_lib env) ctx (D bid) ! unat symid"
    and hp: "handle_data_packet env sid bid symid payload w = (r, w')" and am: "fst r \<noteq> ArenaExhausted"
  shows "progress env ctx D w' bid (insert symid G)" (is ?own)
    and "files w' (bw_path (ctx_writer ctx)) = files w (bw_path (ctx_writer ctx)) \<or>
      store_block (env_os env) (ctx_writer ctx) (bid, concat (D bid)) (files w (bw_path (ctx_writer ctx))) =
        Some (files w' (bw_path (ctx_writer ctx)))" (is ?file)
    and "snd r = (if \<not> unat (ctx_k ctx) \<le> card G \<and> unat (ctx_k ctx) \<le> card (insert symid G) then Some bid else None)" (is ?report)
proof -
  note d = transferD [OF t]
  let ?i = "unat (ctx_session_idx ctx)" and ?path = "bw_path (ctx_writer ctx)" and ?enc = "sent_symbols (env_lib env) ctx (D bid)"
  define a where "a = table_entry (unat (se_block_table_offset (session_table (shm w) ! ?i))) (unat bid)"
  let ?e = "blocks (shm w) a"
  obtain fl where inv: "shm_inv (env_mgr env) (shm w) fl" using d(1) by (auto simp: pipe_inv_def)
  note fit = pipe_inv_ctx(4) [OF d(1,2)]
  have v: "valid_packet ctx bid symid payload a w" using own_entry [OF t b] s len by (simp add: valid_packet_def a_def)
  have tab: "session_table (shm w') = session_table (shm w)"
    using handle_data_packet_inv(2) [OF inv _ hp] fit d(2) by simp
  have pr': "progress env ctx D x bid H = (if unat (ctx_k ctx) \<le> card H
         then decoded (blocks (shm x) a) = DECODE_COMPLETE \<and> stored (ctx_writer ctx) bid (concat (D bid)) (files x ?path)
         else decoded (blocks (shm x) a) = DECODE_PENDING \<and> dom (links (blocks (shm x) a)) = H \<and>
              block_holds (unat (ctx_symbol_bytes ctx)) ?enc a (shm x))" if "session_table (shm x) = session_table (shm w)" for x H
    by (simp add: progress_def Let_def a_def that)
  have fin: "finite G" by (rule finite_subset [of _ UNIV]) simp_all
  consider "unat (ctx_k ctx) \<le> card G" | "\<not> unat (ctx_k ctx) \<le> card G" "symid \<in> G" | "\<not> unat (ctx_k ctx) \<le> card G" "symid \<notin> G" by blast
  then have "?own \<and> ?file \<and> ?report"
  proof cases
    case 1
    then have "decoded ?e = DECODE_COMPLETE" using pr by (simp add: pr')
    then have "w' = w" "snd r = None" using packet_duplicate [OF d(2) v] hp by auto
    moreover have "unat (ctx_k ctx) \<le> card (insert symid G)" using 1 card_insert_le [of G symid] by simp
    ultimately show ?thesis using pr 1 by (simp add: pr')
  next
    case 2
    then have "is_present ?e symid" using pr by (auto simp: pr' dom_links)
    then have "w' = w" "snd r = None" using packet_duplicate [OF d(2) v] hp by auto
    then show ?thesis using pr 2 by (simp add: insert_absorb)
  next
    case 3
    have st: "decoded ?e = DECODE_PENDING" "dom (links ?e) = G" "block_holds (unat (ctx_symbol_bytes ctx)) ?enc a (shm w)"
      using pr 3(1) by (simp_all add: pr')
    have np: "\<not> is_present ?e symid" using st(2) 3(2) by (auto simp: dom_links)
    have dc: "decoded ?e \<noteq> DECODE_COMPLETE" using st(1) by (simp add: decode_states)
    have card: "card (insert symid G) = card G + 1" using fin 3(2) by simp
    obtain x seg where al: "alloc_slot (env_mgr env) (shm w) = (x, seg)" by fastforce
    have xe: "x \<noteq> kListEnd" using packet_exhausted [OF d(2) v dc np, of env seg] al hp am by auto
    then have fl: "fl \<noteq> []" using hand_alloc_fail [OF inv] al by simp
    show ?thesis
    proof (cases "card G + 1 < unat (ctx_k ctx)")
      case True
      define w1 where "w1 = registered_world env symid payload a w"
      have "w' = w1" "snd r = None"
        using packet_below_threshold [OF inv fl d(2) fit v dc np] True st(2) hp by (auto simp: w1_def)
      moreover note rw = registered_world_hand [OF inv fit v dc np al xe w1_def]
      moreover note registered_world_holds [OF inv fit v dc np al xe w1_def st(3) pl]
      ultimately show ?thesis using st True card by (simp add: pr')
    next
      case False
      obtain w2 where w2: "handle_data_packet env sid bid symid payload w = ((BlockDecoded, Some bid), w2)"
        "decoded (blocks (shm w2) a) = DECODE_COMPLETE"
        "store_block (env_os env) (ctx_writer ctx) (bid, concat (D bid)) (files w ?path) = Some (files w2 ?path)"
        using kth_symbol_lemma [OF inv fl d(2) fit d(3) d(9) [OF b] v st(3) pl st(1) np _ d(7) d(10) [OF b]] False st(2) d(8)
        by auto
      have "unat (bw_block_bytes (ctx_writer ctx)) \<le> length (concat (D bid))"
        using d(9) [OF b] length_concat_rows [of "D bid" "unat (ctx_symbol_bytes ctx)"] by (simp add: ctx_coded_def)
      from store_block_stored [OF w2(3) this] have "stored (ctx_writer ctx) bid (concat (D bid)) (files w2 ?path)" .
      moreover have w': "w' = w2" using w2(1) hp by simp
      ultimately have "progress env ctx D w' bid (insert symid G)"
        unfolding pr' [OF tab] using w2(2) False card by simp
      moreover have "snd r = Some bid" using w2(1) hp by auto
      ultimately show ?thesis using w2(3) w' False card 3(1) by simp
    qed
  qed
  then show ?own ?file ?report by blast+
qed

lemma own_packet_others:
  assumes t: "transfer env sid ctx T D w" and b: "bid < T" and pr: "progress env ctx D w bid G"
    and ne: "bid' \<noteq> bid" and b': "bid' < T"
    and hp: "handle_data_packet env sid bid' symid payload w = (r, w')"
    and s: "symid < ctx_n ctx" and len: "length payload = unat (ctx_symbol_bytes ctx)"
    and f: "files w' (bw_path (ctx_writer ctx)) = files w (bw_path (ctx_writer ctx)) \<or>
      store_block (env_os env) (ctx_writer ctx) (bid', concat (D bid')) (files w (bw_path (ctx_writer ctx))) =
        Some (files w' (bw_path (ctx_writer ctx)))"
  shows "progress env ctx D w' bid G"
proof -
  note d = transferD [OF t] and pi = pipe_inv_ctx [OF transferD(1) [OF t] transferD(2) [OF t]]
  let ?i = "unat (ctx_session_idx ctx)" and ?seg = "shm w"
  define a where "a = table_entry (unat (se_block_table_offset (session_table ?seg ! ?i))) (unat bid')"
  obtain fl where inv: "shm_inv (env_mgr env) ?seg fl" using d(1) by (auto simp: pipe_inv_def)
  have v: "valid_packet ctx bid' symid payload a w" using own_entry [OF t b'] s len by (simp add: valid_packet_def a_def)
  have tab: "session_table (shm w') = session_table ?seg"
    using handle_data_packet_inv(2) [OF inv _ hp] pi(4) d(2) by simp
  have tot: "unat bid < unat (se_total_blocks (session_table ?seg ! ?i))" "unat bid' < unat (se_total_blocks (session_table ?seg ! ?i))"
    using b b' d(4) by (simp_all add: word_less_nat_alt)
  let ?X = "set (block_slots (block_at ?seg ?i (unat bid)))"
  have ids: "unat bid' \<noteq> unat bid" using ne by (simp add: word_unat_eq_iff)
  have "set (block_slots (block_at ?seg ?i (unat bid'))) \<inter> ?X = {}"
    using held_owned(1) [OF inv] pi(1,2) tot ids by (intro blocks_apart) simp_all
  then have 1: "set (block_slots (blocks ?seg a)) \<inter> ?X = {}" by (simp add: block_at_def a_def)
  have 2: "set fl \<inter> ?X = {}"
    using held_owned(2) [OF inv] block_slots_session [OF pi(2) tot(1)] session_slots_held [OF pi(1)] by blast
  note cf = packet_confined [OF inv d(2) pi(4) v hp 1 2]
  have small: "unat bid < 8192" "unat bid' < 8192"
    using open_total [OF shm_invD(5) [OF inv pi(1)] pi(2)] tot by simp_all
  have "table_entry (unat (se_block_table_offset (session_table ?seg ! ?i))) (unat bid) \<noteq> a"
    using ids by (simp add: a_def table_entry_def)
  with cf have blk: "block_at (shm w') ?i (unat bid) = block_at ?seg ?i (unat bid)" by (simp add: block_at_def tab)
  note off = block_off_mult [OF d(9) [OF b] pi(4) small(1)] block_off_mult [OF d(9) [OF b] pi(4) small(2)]
  have "stored (ctx_writer ctx) bid (concat (D bid)) (files w' (bw_path (ctx_writer ctx)))"
    if "stored (ctx_writer ctx) bid (concat (D bid)) (files w (bw_path (ctx_writer ctx)))"
    using f stored_elsewhere [OF _ that off ne] that by auto
  then show ?thesis
    using progress_kept [OF d(1,2) _ pr _ blk] cf tab b d(4) by simp
qed

text \<open>Every event takes every block of the transfer from its delivered symbols to the next.\<close>

lemma progress_step:
  assumes t: "transfer env sid ctx T D w" and ok: "event_ok w ev" and c: "carries (env_lib env) sid ctx T D ev"
    and am: "ample env sid [ev] w" and b: "bid < T" and pr: "\<And>b. b < T \<Longrightarrow> progress env ctx D w b (G b)"
  shows "progress env ctx D (apply_event env ev w) bid (G bid \<union> delivered sid ctx [ev] bid)"
proof (cases "ev_session ev = sid")
  case False
  note d = transferD [OF t]
  from False have none: "delivered sid ctx [ev] bid = {}" by (auto simp: delivered_def)
  note u = event_undisturbed [OF d(1) ok d(2) False]
  have "files (apply_event env ev w) (bw_path (ctx_writer ctx)) = files w (bw_path (ctx_writer ctx))"
    using u d(5) False by auto
  moreover have "unat bid < unat (se_total_blocks (session_table (shm w) ! unat (ctx_session_idx ctx)))"
    using b d(4) by (simp add: word_less_nat_alt)
  ultimately have "progress env ctx D (apply_event env ev w) bid (G bid)"
    using u d(4) b by (intro progress_kept [OF d(1,2) _ pr [OF b]]) (simp_all add: undisturbed_def Let_def)
  with none show ?thesis by simp
next
  case True
  note d = transferD [OF t]
  show ?thesis
  proof (cases ev)
    case (EvOpen msg file_size)
    then show ?thesis using True d(2) pr [OF b] by (simp add: handle_session_open_def delivered_def)
  next
    case (EvPurge nid)
    then show ?thesis using True c by simp
  next
    case (EvData nid bid' symid payload)
    then have ev: "ev = EvData sid bid' symid payload" using True by simp
    obtain r w' where hp: "handle_data_packet env sid bid' symid payload w = (r, w')" by fastforce
    obtain fl where inv: "shm_inv (env_mgr env) (shm w) fl" using d(1) by (auto simp: pipe_inv_def)
    note fit = pipe_inv_ctx(4) [OF d(1,2)]
    have tab: "session_table (shm w') = session_table (shm w)"
      using handle_data_packet_inv(2) [OF inv _ hp] fit d(2) by simp
    show ?thesis
    proof (cases "bid' < T \<and> symid < ctx_n ctx \<and> length payload = unat (ctx_symbol_bytes ctx)")
      case bad: False
      then have "w' = w" using own_invalid [OF t bad] hp by simp
      moreover have "delivered sid ctx [ev] bid = {}" using bad b by (auto simp: ev delivered_def)
      ultimately show ?thesis using pr [OF b] hp by (simp add: ev)
    next
      case good: True
      have pl: "payload = sent_symbols (env_lib env) ctx (D bid') ! unat symid" using c good by (simp add: ev)
      have ne: "fst r \<noteq> ArenaExhausted" using am hp by (simp add: ev)
      have bT: "bid' < T" using good by simp
      note own = own_packet [OF t bT pr [OF bT] _ _ pl hp ne]
      show ?thesis
      proof (cases "bid' = bid")
        case True
        moreover have "delivered sid ctx [ev] bid = {symid}" using good True by (auto simp: ev delivered_def)
        ultimately show ?thesis using own(1) good hp by (simp add: ev)
      next
        case False
        have "progress env ctx D w' bid (G bid)"
          by (rule own_packet_others [OF t b pr [OF b] False bT hp]) (use good own(2) in simp_all)
        then show ?thesis using False hp by (simp add: ev delivered_def)
      qed
    qed
  qed
qed

section \<open>Properties\<close>

text \<open>The file as the sender cut it into blocks of k symbols, the last one padded at will.\<close>

definition splits_file :: "BlockWriter \<Rightarrow> u32 \<Rightarrow> (u32 \<Rightarrow> u8 list list) \<Rightarrow> u8 list \<Rightarrow> bool" where
  "splits_file wr T D content \<longleftrightarrow>
     length content = unat (bw_file_size wr) \<and>
     (\<forall>bid<T. \<forall>i<block_len wr bid. concat (D bid) ! i = content ! (block_off wr bid + i)) \<and>
     (\<forall>a<unat (bw_file_size wr). \<exists>bid<T. block_off wr bid \<le> a \<and> a < block_off wr bid + block_len wr bid)"

lemma progress_run:
  assumes "transfer env sid ctx T D w" and "run_ok env evs w" and "\<forall>ev\<in>set evs. carries (env_lib env) sid ctx T D ev"
    and "ample env sid evs w" and "bid < T" and "\<And>b. b < T \<Longrightarrow> progress env ctx D w b (G b)"
  shows "progress env ctx D (fold (apply_event env) evs w) bid (G bid \<union> delivered sid ctx evs bid)"
  using assms
proof (induction evs arbitrary: w G)
  case Nil
  then show ?case by (simp add: delivered_def)
next
  case (Cons ev evs)
  let ?w = "apply_event env ev w" and ?G = "\<lambda>b. G b \<union> delivered sid ctx [ev] b"
  have c: "event_ok w ev" "carries (env_lib env) sid ctx T D ev" "ample env sid [ev] w"
    using Cons.prems(2-4) by auto
  have "progress env ctx D ?w b (?G b)" if "b < T" for b
    by (rule progress_step [OF Cons.prems(1) c that Cons.prems(6)])
  then have "progress env ctx D (fold (apply_event env) evs ?w) bid (?G bid \<union> delivered sid ctx evs bid)"
    using Cons.prems(2-5) by (intro Cons.IH [OF transfer_step [OF Cons.prems(1) c(1,2)]]) simp_all
  moreover have "delivered sid ctx (ev # evs) bid = delivered sid ctx [ev] bid \<union> delivered sid ctx evs bid"
    by (auto simp: delivered_def)
  ultimately show ?case by (simp add: Un_assoc)
qed

text \<open>The blocks the handler reports as decoded for a session, through \<open>*out_decoded_block_id\<close>.\<close>

definition reported :: "Env \<Rightarrow> string \<Rightarrow> event \<Rightarrow> World \<Rightarrow> u32 list" where
  "reported env sid ev w =
     (case ev of
        EvData nid bid symid payload \<Rightarrow>
          (if nid = sid then (case snd (fst (handle_data_packet env nid bid symid payload w)) of None \<Rightarrow> [] | Some b \<Rightarrow> [b]) else [])
      | _ \<Rightarrow> [])"

fun reports :: "Env \<Rightarrow> string \<Rightarrow> event list \<Rightarrow> World \<Rightarrow> u32 list" where
  "reports env sid [] w = []"
| "reports env sid (ev # evs) w = reported env sid ev w @ reports env sid evs (apply_event env ev w)"

lemma reported_once:
  assumes t: "transfer env sid ctx T D w" and c: "carries (env_lib env) sid ctx T D ev"
    and am: "ample env sid [ev] w" and b: "bid < T" and pr: "\<And>b. b < T \<Longrightarrow> progress env ctx D w b (G b)"
  shows "count_list (reported env sid ev w) bid =
     (if \<not> unat (ctx_k ctx) \<le> card (G bid) \<and> unat (ctx_k ctx) \<le> card (G bid \<union> delivered sid ctx [ev] bid) then 1 else 0)"
proof (cases "\<exists>bid' symid payload. ev = EvData sid bid' symid payload")
  case False
  then have "delivered sid ctx [ev] bid = {}" by (auto simp: delivered_def)
  with False show ?thesis by (cases ev) (auto simp: reported_def)
next
  case True
  then obtain bid' symid payload where ev: "ev = EvData sid bid' symid payload" by blast
  obtain r w' where hp: "handle_data_packet env sid bid' symid payload w = (r, w')" by fastforce
  show ?thesis
  proof (cases "bid' < T \<and> symid < ctx_n ctx \<and> length payload = unat (ctx_symbol_bytes ctx)")
    case bad: False
    then have "snd r = None" using own_invalid [OF t bad] hp by auto
    moreover have "delivered sid ctx [ev] bid = {}" using bad b by (auto simp: ev delivered_def)
    ultimately show ?thesis using hp by (simp add: ev reported_def)
  next
    case good: True
    have pl: "payload = sent_symbols (env_lib env) ctx (D bid') ! unat symid" using c good by (simp add: ev)
    have ne: "fst r \<noteq> ArenaExhausted" using am hp by (simp add: ev)
    have bT: "bid' < T" using good by simp
    have own: "snd r = (if \<not> unat (ctx_k ctx) \<le> card (G bid') \<and> unat (ctx_k ctx) \<le> card (insert symid (G bid')) then Some bid' else None)"
      by (rule own_packet(3) [OF t bT pr [OF bT] _ _ pl hp ne]) (use good in simp_all)
    have "delivered sid ctx [ev] bid = (if bid' = bid then {symid} else {})" using good by (auto simp: ev delivered_def)
    then show ?thesis using own hp by (simp add: ev reported_def)
  qed
qed

lemma reports_run:
  assumes "transfer env sid ctx T D w" and "run_ok env evs w" and "\<forall>ev\<in>set evs. carries (env_lib env) sid ctx T D ev"
    and "ample env sid evs w" and "bid < T" and "\<And>b. b < T \<Longrightarrow> progress env ctx D w b (G b)"
  shows "count_list (reports env sid evs w) bid =
     (if \<not> unat (ctx_k ctx) \<le> card (G bid) \<and> unat (ctx_k ctx) \<le> card (G bid \<union> delivered sid ctx evs bid) then 1 else 0)"
  using assms
proof (induction evs arbitrary: w G)
  case Nil
  then show ?case by (simp add: delivered_def)
next
  case (Cons ev evs)
  let ?w = "apply_event env ev w" and ?G = "\<lambda>b. G b \<union> delivered sid ctx [ev] b"
  have c: "event_ok w ev" "carries (env_lib env) sid ctx T D ev" "ample env sid [ev] w"
    using Cons.prems(2-4) by auto
  have IH: "count_list (reports env sid evs ?w) bid =
     (if \<not> unat (ctx_k ctx) \<le> card (?G bid) \<and> unat (ctx_k ctx) \<le> card (?G bid \<union> delivered sid ctx evs bid) then 1 else 0)"
    using Cons.prems(2-5) progress_step [OF Cons.prems(1) c _ Cons.prems(6)]
    by (intro Cons.IH [OF transfer_step [OF Cons.prems(1) c(1,2)]]) simp_all
  have d: "delivered sid ctx (ev # evs) bid = delivered sid ctx [ev] bid \<union> delivered sid ctx evs bid"
    by (auto simp: delivered_def)
  have fin: "finite A" for A :: "u32 set" by (rule finite_subset [of _ UNIV]) simp_all
  have "card (G bid) \<le> card (?G bid)" "card (?G bid) \<le> card (?G bid \<union> delivered sid ctx evs bid)"
    by (auto intro!: card_mono fin)
  then show ?case
    using IH reported_once [OF Cons.prems(1) c(2,3) Cons.prems(5,6)] by (simp add: d Un_assoc)
qed

lemma fresh_progress:
  assumes "transfer env sid ctx T D w" and "block_at (shm w) (unat (ctx_session_idx ctx)) (unat bid) = zero_block"
  shows "progress env ctx D w bid {}"
  using assms(2) transferD(6) [OF assms(1)]
  by (simp add: progress_def Let_def block_at_def block_holds_def word_gt_0 word_le_nat_alt unat_eq_0)
    (simp add: zero_block_def decode_states)

lemma data_run_ok: "\<forall>ev\<in>set evs. \<exists>nid bid symid payload. ev = EvData nid bid symid payload \<Longrightarrow> run_ok env evs w"
  by (induction evs arbitrary: w) auto

section \<open>How many slots a transfer needs\<close>

lemma open_event_free:
  "shm_inv (env_mgr env) (shm w) fl \<Longrightarrow> shm_inv (env_mgr env) (shm (snd (handle_session_open env msg file_size w))) fl"
  using open_session_inv [of "env_mgr env" "shm w" fl "c_str (so_session_id msg)" "so_k msg" "so_n msg" "so_block_bytes msg"
    "so_total_blocks msg" file_size "c_str (so_dest_path msg)"]
  by (auto simp: handle_session_open_def Let_def split: option.splits prod.splits bool.splits)

lemma purge_event_free:
  "shm_inv (env_mgr env) (shm w) fl \<Longrightarrow>
   \<exists>fl'. shm_inv (env_mgr env) (shm (purge_session env nid w)) fl' \<and> length fl \<le> length fl'"
proof (cases "find_session (c_str nid) (shm w)")
  case None
  then show "shm_inv (env_mgr env) (shm w) fl \<Longrightarrow> ?thesis" by (auto simp: purge_session_def close_session_def)
next
  case (Some i)
  assume "shm_inv (env_mgr env) (shm w) fl"
  from close_session_inv(2) [OF this Some] show ?thesis
    by (intro exI [of _ "rev (session_slots (shm w) i) @ fl"]) (simp add: purge_session_def)
qed

text \<open>
  The slots a block holds when the symbols in G have been delivered.  A packet of the session moves its
  block from one count to the next, and the free list makes up the difference.
\<close>

definition held_by :: "SessionContext \<Rightarrow> u32 set \<Rightarrow> nat" where
  "held_by ctx G = (if unat (ctx_k ctx) \<le> card G then 0 else card G)"

lemma held_by_less: "0 < ctx_k ctx \<Longrightarrow> held_by ctx G < unat (ctx_k ctx)"
  by (auto simp: held_by_def word_gt_0 unat_gt_0 not_le)

lemma own_packet_free:
  assumes t: "transfer env sid ctx T D w" and b: "bid < T" and pr: "progress env ctx D w bid G"
    and s: "symid < ctx_n ctx" and len: "length payload = unat (ctx_symbol_bytes ctx)"
    and pl: "payload = sent_symbols (env_lib env) ctx (D bid) ! unat symid"
    and hp: "handle_data_packet env sid bid symid payload w = (r, w')" and inv: "shm_inv (env_mgr env) (shm w) fl" and fl: "fl \<noteq> []"
  shows "fst r \<noteq> ArenaExhausted \<and> (\<exists>fl'. shm_inv (env_mgr env) (shm w') fl' \<and>
     length fl + held_by ctx G \<le> length fl' + held_by ctx (insert symid G))"
proof -
  note d = transferD [OF t]
  let ?i = "unat (ctx_session_idx ctx)" and ?enc = "sent_symbols (env_lib env) ctx (D bid)"
  define a where "a = table_entry (unat (se_block_table_offset (session_table (shm w) ! ?i))) (unat bid)"
  let ?e = "blocks (shm w) a"
  note fit = pipe_inv_ctx(4) [OF d(1,2)]
  have v: "valid_packet ctx bid symid payload a w" using own_entry [OF t b] s len by (simp add: valid_packet_def a_def)
  have fin: "finite G" by (rule finite_subset [of _ UNIV]) simp_all
  show ?thesis
  proof (cases "decoded ?e = DECODE_COMPLETE \<or> is_present ?e symid")
    case True
    then have "unat (ctx_k ctx) \<le> card G \<or> symid \<in> G"
      using pr by (auto simp: progress_def Let_def a_def dom_links decode_states split: if_splits)
    then have "held_by ctx (insert symid G) = held_by ctx G"
      using fin card_insert_le [of G symid] by (auto simp: held_by_def insert_absorb)
    then show ?thesis using True packet_duplicate [OF d(2) v] hp inv by auto
  next
    case False
    then have pend: "\<not> unat (ctx_k ctx) \<le> card G" using pr by (auto simp: progress_def Let_def a_def)
    then have st: "decoded ?e = DECODE_PENDING" "dom (links ?e) = G" "block_holds (unat (ctx_symbol_bytes ctx)) ?enc a (shm w)"
      using pr by (simp_all add: progress_def Let_def a_def)
    have np: "\<not> is_present ?e symid" "symid \<notin> G" and dc: "decoded ?e \<noteq> DECODE_COMPLETE" using False st(2) by (auto simp: dom_links)
    show ?thesis
    proof (cases "card G + 1 < unat (ctx_k ctx)")
      case True
      obtain x seg where al: "alloc_slot (env_mgr env) (shm w) = (x, seg)" by fastforce
      have xe: "x \<noteq> kListEnd" using hand_alloc_fail [OF inv] al fl by simp
      from packet_below_threshold [OF inv fl d(2) fit v dc np(1)] True st(2)
      have "r = (RegisteredOnly, None)" "w' = registered_world env symid payload a w" using hp by simp_all
      moreover from registered_world_hand(2) [OF inv fit v dc np(1) al xe refl]
      obtain fl' where "fl = x # fl'" "shm_inv (env_mgr env) (shm (registered_world env symid payload a w)) fl'"
        unfolding shm_inv_def by blast
      ultimately show ?thesis using True np(2) fin by (auto simp: held_by_def intro!: exI [of _ fl'])
    next
      case False
      from kth_symbol_lemma [OF inv fl d(2) fit d(3) d(9) [OF b] v st(3) pl st(1) np(1) _ d(7) d(10) [OF b]] st(2) d(8)
      obtain fl' where "r = (BlockDecoded, Some bid)" "shm_inv (env_mgr env) (shm w') fl'" "length fl' = length fl + card G"
        using False hp by auto
      then show ?thesis using False pend np(2) fin by (auto simp: held_by_def)
    qed
  qed
qed

lemma index_word:
  "b < unat T \<Longrightarrow> (of_nat b :: u32) < T" "b < unat T \<Longrightarrow> unat (of_nat b :: u32) = b" for T :: u32
  using unat_lt_exp [of T] by (simp_all add: word_less_nat_alt unat_of_nat_small)

definition waiting :: "SessionContext \<Rightarrow> u32 \<Rightarrow> (u32 \<Rightarrow> u32 set) \<Rightarrow> nat" where
  "waiting ctx T G = (\<Sum>b<unat T. held_by ctx (G (of_nat b)))"

lemma waiting_empty [simp]: "waiting ctx T (\<lambda>_. {}) = 0"
  by (simp add: waiting_def held_by_def)

lemma waiting_bound:
  assumes "0 < ctx_k ctx"
  shows "waiting ctx T G \<le> unat T * (unat (ctx_k ctx) - 1)"
  using sum_mono [of "{..<unat T}" "\<lambda>b. held_by ctx (G (of_nat b))" "\<lambda>_. unat (ctx_k ctx) - 1"] held_by_less [OF assms]
  by (simp add: waiting_def less_Suc_eq_le [symmetric]) (metis Suc_pred less_Suc_eq_le word_gt_0 unat_gt_0 assms)

lemma waiting_step:
  assumes "bid < T" and "\<And>b. b \<noteq> bid \<Longrightarrow> H b = G b" and "m + held_by ctx (G bid) \<le> m' + held_by ctx (H bid)"
  shows "m + waiting ctx T G \<le> m' + waiting ctx T H"
proof -
  have b: "unat bid \<in> {..<unat T}" using assms(1) by (simp add: word_less_nat_alt)
  have "H (of_nat b) = G (of_nat b)" if "b \<in> {..<unat T} - {unat bid}" for b
  proof (rule assms(2))
    show "(of_nat b :: u32) \<noteq> bid" using that index_word(2) [of b T] by auto
  qed
  then have "(\<Sum>b\<in>{..<unat T} - {unat bid}. held_by ctx (H (of_nat b))) = (\<Sum>b\<in>{..<unat T} - {unat bid}. held_by ctx (G (of_nat b)))"
    by (intro sum.cong) simp_all
  then show ?thesis
    using assms(3) sum.remove [OF _ b, of "\<lambda>b. held_by ctx (H (of_nat b))"] sum.remove [OF _ b, of "\<lambda>b. held_by ctx (G (of_nat b))"]
    by (simp add: waiting_def)
qed

text \<open>Through any run, the slots that left the free list are at most those the blocks of the session hold.\<close>

lemma budget_run:
  assumes "transfer env sid ctx T D w" and "run_ok env evs w" and "\<forall>ev\<in>set evs. carries (env_lib env) sid ctx T D ev"
    and "\<forall>nid bid symid payload. EvData nid bid symid payload \<in> set evs \<longrightarrow> nid = sid"
    and "\<And>b. b < T \<Longrightarrow> progress env ctx D w b (G b)"
    and "shm_inv (env_mgr env) (shm w) fl" and "unat T * (unat (ctx_k ctx) - 1) < length fl + waiting ctx T G"
  shows "ample env sid evs w \<and> (\<exists>fl'. shm_inv (env_mgr env) (shm (fold (apply_event env) evs w)) fl' \<and>
     length fl + waiting ctx T G \<le> length fl' + waiting ctx T (\<lambda>b. G b \<union> delivered sid ctx evs b))"
  using assms
proof (induction evs arbitrary: w G fl)
  case Nil
  then show ?case by (auto simp: delivered_def)
next
  case (Cons ev evs)
  note t = Cons.prems(1)
  let ?w = "apply_event env ev w" and ?G = "\<lambda>b. G b \<union> delivered sid ctx [ev] b"
  have c: "event_ok w ev" "carries (env_lib env) sid ctx T D ev" using Cons.prems(2,3) by auto
  have "ample env sid [ev] w \<and> (\<exists>fl'. shm_inv (env_mgr env) (shm ?w) fl' \<and> length fl + waiting ctx T G \<le> length fl' + waiting ctx T ?G)"
  proof (cases ev)
    case (EvOpen msg file_size)
    then show ?thesis using open_event_free [OF Cons.prems(6)] by (auto simp: delivered_def)
  next
    case (EvPurge nid)
    then show ?thesis using purge_event_free [OF Cons.prems(6), of nid] by (auto simp: delivered_def)
  next
    case (EvData nid bid symid payload)
    then have ev: "ev = EvData sid bid symid payload" using Cons.prems(4) by auto
    show ?thesis
    proof (cases "bid < T \<and> symid < ctx_n ctx \<and> length payload = unat (ctx_symbol_bytes ctx)")
      case False
      then have "?G b = G b" if "b < T" for b using that by (auto simp: ev delivered_def)
      then have "waiting ctx T ?G = waiting ctx T G"
        unfolding waiting_def by (intro sum.cong) (simp_all add: index_word)
      then show ?thesis using own_invalid [OF t False] Cons.prems(6) by (auto simp: ev)
    next
      case True
      have pl: "payload = sent_symbols (env_lib env) ctx (D bid) ! unat symid" using c(2) True by (simp add: ev)
      obtain r w' where hp: "handle_data_packet env sid bid symid payload w = (r, w')" by fastforce
      have ne: "fl \<noteq> []" using Cons.prems(7) waiting_bound [OF transferD(6) [OF t], of T G] by auto
      have bT: "bid < T" using True by simp
      from own_packet_free [OF t bT Cons.prems(5) [OF bT] _ _ pl hp Cons.prems(6) ne] True
      obtain fl' where r: "fst r \<noteq> ArenaExhausted" and fl': "shm_inv (env_mgr env) (shm w') fl'"
        "length fl + held_by ctx (G bid) \<le> length fl' + held_by ctx (insert symid (G bid))" by blast
      have G: "?G bid = insert symid (G bid)" "\<And>b. b \<noteq> bid \<Longrightarrow> ?G b = G b" using True by (auto simp: ev delivered_def)
      have "length fl + waiting ctx T G \<le> length fl' + waiting ctx T ?G"
        by (rule waiting_step [OF bT G(2)]) (use fl'(2) G(1) in simp_all)
      then show ?thesis using r fl'(1) hp by (auto simp: ev)
    qed
  qed
  then obtain fl' where am: "ample env sid [ev] w" and fl': "shm_inv (env_mgr env) (shm ?w) fl'"
    "length fl + waiting ctx T G \<le> length fl' + waiting ctx T ?G" by blast
  have "ample env sid evs ?w \<and> (\<exists>fl''. shm_inv (env_mgr env) (shm (fold (apply_event env) evs ?w)) fl'' \<and>
     length fl' + waiting ctx T ?G \<le> length fl'' + waiting ctx T (\<lambda>b. ?G b \<union> delivered sid ctx evs b))"
    using Cons.prems(2-4,7) fl'(2) progress_step [OF t c am _ Cons.prems(5)]
    by (intro Cons.IH [OF transfer_step [OF t c] _ _ _ _ fl'(1)]) auto
  moreover have "?G b \<union> delivered sid ctx evs b = G b \<union> delivered sid ctx (ev # evs) b" for b
    by (auto simp: delivered_def)
  ultimately show ?case using am fl'(2) by (auto intro: order_trans)
qed

lemma transfer_lemma:
  assumes "transfer env sid ctx T D w"
    and "\<forall>bid<T. block_at (shm w) (unat (ctx_session_idx ctx)) (unat bid) = zero_block"
    and "run_ok env evs w" and "\<forall>ev\<in>set evs. carries (env_lib env) sid ctx T D ev" and "ample env sid evs w"
    and "\<forall>bid<T. unat (ctx_k ctx) \<le> card (delivered sid ctx evs bid)"
    and "splits_file (ctx_writer ctx) T D content"
  shows "mem_read 0 (length content) (durable (files (fold (apply_event env) evs w) (bw_path (ctx_writer ctx)))) = content"
proof (rule nth_equalityI)
  let ?f = "files (fold (apply_event env) evs w) (bw_path (ctx_writer ctx))" and ?wr = "ctx_writer ctx"
  have st: "stored ?wr bid (concat (D bid)) ?f" if b: "bid < T" for bid
  proof -
    have "progress env ctx D (fold (apply_event env) evs w) bid ({} \<union> delivered sid ctx evs bid)"
      using assms(2) by (intro progress_run [OF assms(1,3-5) b] fresh_progress [OF assms(1)]) simp
    then show ?thesis using assms(6) b by (simp add: progress_def Let_def)
  qed
  fix a assume "a < length (mem_read 0 (length content) (durable ?f))"
  then have a: "a < length content" by simp
  then obtain bid where bid: "bid < T" "block_off ?wr bid \<le> a" "a < block_off ?wr bid + block_len ?wr bid"
    using assms(7) by (auto simp: splits_file_def)
  then have i: "a - block_off ?wr bid < block_len ?wr bid" by simp
  have "durable ?f (block_off ?wr bid + (a - block_off ?wr bid)) = concat (D bid) ! (a - block_off ?wr bid)"
    using st [OF bid(1)] i unfolding stored_def by blast
  also have "\<dots> = content ! (block_off ?wr bid + (a - block_off ?wr bid))"
    using assms(7) bid(1) i by (simp add: splits_file_def)
  finally show "mem_read 0 (length content) (durable ?f) ! a = content ! a" using a bid(2) by (simp add: mem_read_def)
qed simp

lemma transfer_reports_once:
  assumes "transfer env sid ctx T D w"
    and "\<forall>bid<T. block_at (shm w) (unat (ctx_session_idx ctx)) (unat bid) = zero_block"
    and "run_ok env evs w" and "\<forall>ev\<in>set evs. carries (env_lib env) sid ctx T D ev" and "ample env sid evs w"
    and "\<forall>bid<T. unat (ctx_k ctx) \<le> card (delivered sid ctx evs bid)" and "bid < T"
  shows "count_list (reports env sid evs w) bid = 1"
  using reports_run [OF assms(1,3-5,7), of "\<lambda>_. {}"] fresh_progress [OF assms(1)] assms(2,6,7) transferD(6) [OF assms(1)]
  by (simp add: word_gt_0 unat_eq_0)

text \<open>
  C3: any k of the n symbols of every block deliver the file.  From a session that has just been opened,
  whose destination file is mapped and whose msync calls succeed, run data packets of the session in any
  order, repeated or malformed, and opens, purges and packets of other sessions with other destination
  files.  The opens and purges have to be admissible (run_ok), which the code leaves to its peers: an opened
  or purged id differs from every other id this process holds within its first 63 characters, and an open
  has n at most 255, symbols of at most 1536 bytes, and, where the segment already has an entry of its id,
  no larger n than that entry.  When every valid packet of the session carries the symbol it names, none is
  dropped for want of a slot, and every block receives at least k distinct symbols, the durable image of the
  destination file is, byte for byte, the sender's file, and each block has been reported decoded exactly
  once.
\<close>

theorem transfer_delivers_file:
  assumes "transfer env sid ctx T D w"
    and "\<forall>bid<T. block_at (shm w) (unat (ctx_session_idx ctx)) (unat bid) = zero_block"
    and "run_ok env evs w" and "\<forall>ev\<in>set evs. carries (env_lib env) sid ctx T D ev" and "ample env sid evs w"
    and "\<forall>bid<T. unat (ctx_k ctx) \<le> card (delivered sid ctx evs bid)"
    and "splits_file (ctx_writer ctx) T D content"
  shows "mem_read 0 (length content) (durable (files (fold (apply_event env) evs w) (bw_path (ctx_writer ctx)))) = content \<and>
         (\<forall>bid<T. count_list (reports env sid evs w) bid = 1)"
  using transfer_lemma [OF assms] transfer_reports_once [OF assms(1-6)] by blast

lemma budget_fresh:
  assumes "transfer env sid ctx T D w"
    and "\<forall>bid<T. block_at (shm w) (unat (ctx_session_idx ctx)) (unat bid) = zero_block"
    and "run_ok env evs w" and "\<forall>ev\<in>set evs. carries (env_lib env) sid ctx T D ev"
    and "\<forall>nid bid symid payload. EvData nid bid symid payload \<in> set evs \<longrightarrow> nid = sid"
    and "shm_inv (env_mgr env) (shm w) fl" and "unat T * (unat (ctx_k ctx) - 1) < length fl"
  shows "ample env sid evs w \<and> (\<exists>fl'. shm_inv (env_mgr env) (shm (fold (apply_event env) evs w)) fl' \<and>
     length fl \<le> length fl' + waiting ctx T (delivered sid ctx evs))"
proof -
  have "progress env ctx D w b {}" if "b < T" for b
    using fresh_progress [OF assms(1)] assms(2) that by simp
  from budget_run [OF assms(1,3-5) this assms(6)] assms(7) show ?thesis by simp
qed

lemmas ample_fresh = budget_fresh [THEN conjunct1]

text \<open>What a block holds, read off its entry.\<close>

definition block_waits :: "SessionContext \<Rightarrow> World \<Rightarrow> nat \<Rightarrow> nat" where
  "block_waits ctx w b =
     (let e = block_at (shm w) (unat (ctx_session_idx ctx)) b
      in if decoded e = DECODE_COMPLETE then 0 else card (dom (links e)))"

lemma block_waits_progress:
  assumes "progress env ctx D w bid G"
  shows "block_waits ctx w (unat bid) = held_by ctx G"
    and "decoded (block_at (shm w) (unat (ctx_session_idx ctx)) (unat bid)) = DECODE_COMPLETE \<longleftrightarrow> unat (ctx_k ctx) \<le> card G"
  using assms by (auto simp: block_waits_def held_by_def progress_def block_at_def Let_def decode_states split: if_splits)

lemma run_ok_take: "run_ok env evs w \<Longrightarrow> run_ok env (take m evs) w"
  by (induction evs arbitrary: w m) (simp_all add: take_Cons split: nat.split)

text \<open>
  C15: how large the arena must be.  Take a session of T blocks that is alone in sending data, from the
  moment it has been opened, in a transfer whose destination file is mapped and whose msync calls succeed
  (a failed flush would leave its block claimed and holding its slots).  Let T (k - 1) be less than the
  number of free slots, and run its packets in any order, repeated or malformed, the valid ones with the
  symbol they name, between admissible opens and purges of other sessions with other destination files (the
  conditions of carries and run_ok).  Then no packet finds the arena exhausted.  And
  after each event of the run a block is complete exactly when k of its symbols have been delivered, a
  block that is not complete holds fewer than k slots, and no more slots have left the free list than the
  incomplete blocks hold: the k-th symbol of a block gives all of its slots back.
\<close>

theorem arena_budget:
  assumes "transfer env sid ctx T D w"
    and "\<forall>bid<T. block_at (shm w) (unat (ctx_session_idx ctx)) (unat bid) = zero_block"
    and "run_ok env evs w" and "\<forall>ev\<in>set evs. carries (env_lib env) sid ctx T D ev"
    and "\<forall>nid bid symid payload. EvData nid bid symid payload \<in> set evs \<longrightarrow> nid = sid"
    and "shm_inv (env_mgr env) (shm w) fl" and "unat T * (unat (ctx_k ctx) - 1) < length fl"
    and "w' = fold (apply_event env) (take m evs) w"
  shows "ample env sid evs w \<and>
    (\<forall>bid<T. block_waits ctx w' (unat bid) < unat (ctx_k ctx) \<and>
       (decoded (block_at (shm w') (unat (ctx_session_idx ctx)) (unat bid)) = DECODE_COMPLETE \<longleftrightarrow>
        unat (ctx_k ctx) \<le> card (delivered sid ctx (take m evs) bid))) \<and>
    (\<exists>fl'. shm_inv (env_mgr env) (shm w') fl' \<and> length fl \<le> length fl' + (\<Sum>b<unat T. block_waits ctx w' b))"
proof -
  let ?evs = "take m evs"
  have c: "\<forall>ev\<in>set ?evs. carries (env_lib env) sid ctx T D ev" using assms(4) by (auto dest: in_set_takeD)
  have own: "\<forall>nid bid symid payload. EvData nid bid symid payload \<in> set ?evs \<longrightarrow> nid = sid"
    using assms(5) by (blast dest: in_set_takeD)
  note run = run_ok_take [OF assms(3), of m]
  from budget_fresh [OF assms(1,2) run c own assms(6,7)]
  obtain fl' where am: "ample env sid ?evs w" and fl': "shm_inv (env_mgr env) (shm w') fl'"
    "length fl \<le> length fl' + waiting ctx T (delivered sid ctx ?evs)" by (auto simp: assms(8))
  have pr: "progress env ctx D w' bid (delivered sid ctx ?evs bid)" if "bid < T" for bid
    using progress_run [OF assms(1) run c am that, of "\<lambda>_. {}"] fresh_progress [OF assms(1)] assms(2) by (simp add: assms(8))
  have "block_waits ctx w' b = held_by ctx (delivered sid ctx ?evs (of_nat b))" if "b < unat T" for b
    using block_waits_progress(1) [OF pr [of "of_nat b"]] that by (simp add: index_word)
  then have "waiting ctx T (delivered sid ctx ?evs) = (\<Sum>b<unat T. block_waits ctx w' b)" by (simp add: waiting_def)
  with fl' show ?thesis
    using budget_fresh [OF assms(1-7)] block_waits_progress [OF pr] held_by_less [OF transferD(6) [OF assms(1)]]
    by (metis (no_types, lifting))
qed

section \<open>A transfer of two blocks\<close>

definition demo_data :: "u32 \<Rightarrow> u8 list list" where
  "demo_data bid = (if bid = 0 then demo_block0 else demo_block1)"

definition demo_events :: "event list" where
  "demo_events = [EvOpen other_open 11, EvData ''s1'' 1 2 [139, 246, 138], EvData ''s1'' 0 2 [121, 2, 141], EvData ''s1'' 0 9 [1],
     EvData ''s1'' 0 2 [121, 2, 141], EvData ''s1'' 1 0 [7, 8, 9], EvData ''s1'' 0 1 [4, 5, 6], EvData ''s1'' 0 0 [1, 2, 3]]"

lemma below_2: "bid < 2 \<longleftrightarrow> bid = 0 \<or> bid = 1" for bid :: u32
  by (auto simp: word_less_nat_alt word_unat_eq_iff)

lemma demo_transfer: "transfer demo_env ''s1'' demo_ctx 2 demo_data demo"
  using demo_pipe_inv demo_session demo_coded demo_ranges
  by (auto simp: transfer_def below_2 demo_data_def os_ok_def)

lemma demo_fresh: "\<forall>bid<2 :: u32. block_at (shm demo) (unat (ctx_session_idx demo_ctx)) (unat bid) = zero_block"
  using demo_session(4) by (auto simp: below_2 block_at_def table_entry_def demo_blocks)

lemma demo_run: "run_ok demo_env demo_events demo"
  using demo_other_ok(1) by (simp add: demo_events_def del: event_ok.simps(1) apply_event.simps)

lemma demo_carries: "\<forall>ev\<in>set demo_events. carries (env_lib demo_env) ''s1'' demo_ctx 2 demo_data ev"
  by (simp add: demo_events_def demo_data_def demo_sent other_open_def c_str_def)

theorem arena_budget_witness:
  "ample demo_env ''s1'' demo_events demo \<and>
   (\<exists>fl'. shm_inv (env_mgr demo_env) (shm (fold (apply_event demo_env) (take 5 demo_events) demo)) fl' \<and>
      3 \<le> length fl' +
        (\<Sum>b<unat (2 :: u32). block_waits demo_ctx (fold (apply_event demo_env) (take 5 demo_events) demo) b))"
  using arena_budget [OF demo_transfer demo_fresh demo_run demo_carries _ _ _ refl, of "[0, 1, 2]" 5] demo_inv
  by (auto simp: demo_events_def)

lemma demo_splits: "splits_file demo_writer 2 demo_data [1, 2, 3, 4, 5, 6, 7, 8, 9, 10, 11]"
proof -
  have below: "i < 6 \<longleftrightarrow> i = 0 \<or> i = 1 \<or> i = 2 \<or> i = 3 \<or> i = 4 \<or> i = 5" "i < 5 \<longleftrightarrow> i = 0 \<or> i = 1 \<or> i = 2 \<or> i = 3 \<or> i = 4" for i :: nat
    by auto
  have "\<exists>bid<2. block_off demo_writer bid \<le> a \<and> a < block_off demo_writer bid + block_len demo_writer bid" if "a < 11" for a
  proof (cases "a < 6")
    case True
    then show ?thesis by (intro exI [of _ 0]) (simp add: demo_ranges)
  next
    case False
    then show ?thesis using that by (intro exI [of _ 1]) (simp add: demo_ranges)
  qed
  moreover have "\<forall>bid<2. \<forall>i<block_len demo_writer bid.
      concat (demo_data bid) ! i = [1, 2, 3, 4, 5, 6, 7, 8, 9, 10, 11] ! (block_off demo_writer bid + i)"
    by (auto simp: below_2 demo_data_def demo_block0_def demo_block1_def demo_ranges below)
  ultimately show ?thesis by (simp add: splits_file_def)
qed

lemma demo_delivered: "{0, 2} \<subseteq> delivered ''s1'' demo_ctx demo_events bid" if "bid < 2"
  using that by (auto simp: below_2 delivered_def demo_events_def)

lemma demo_ample: "ample demo_env ''s1'' demo_events demo"
  by (rule ample_fresh [OF demo_transfer demo_fresh demo_run demo_carries]) (use demo_inv in \<open>auto simp: demo_events_def\<close>)

theorem transfer_delivers_file_witness:
  "mem_read 0 11 (durable (files (fold (apply_event demo_env) demo_events demo) ''/d'')) = [1, 2, 3, 4, 5, 6, 7, 8, 9, 10, 11] \<and>
   count_list (reports demo_env ''s1'' demo_events demo) 1 = 1"
proof -
  have "2 \<le> card (delivered ''s1'' demo_ctx demo_events bid)" if "bid < 2" for bid
  proof -
    have "finite (delivered ''s1'' demo_ctx demo_events bid)" by (rule finite_subset [of _ UNIV]) simp_all
    from card_mono [OF this demo_delivered [OF that]] show ?thesis by simp
  qed
  moreover have "length [1, 2, 3, 4, 5, 6, 7, 8, 9, 10, 11 :: u8] = 11" by simp
  ultimately show ?thesis
    using transfer_delivers_file [OF demo_transfer demo_fresh demo_run demo_carries demo_ample, of "[1, 2, 3, 4, 5, 6, 7, 8, 9, 10, 11]"]
      demo_splits by (simp del: length_Cons list.size)
qed

end
