(* ===== verification/Receivers.thy ===== *)
theory Receivers
  imports Isolation
begin

text \<open>
  Several receiver processes on one shared segment: each has its own \<open>sessions_\<close> map
  (\<^verbatim>\<open>src/receiver/session_pipeline.hpp\<close>), all share the segment and the files.  A step is one whole handler
  of one process, run without interruption; the order of the steps is arbitrary, so one process may purge a
  session that another still holds a context for.  Handlers that overlap are the subject of PacketRace and
  PurgeRace.
\<close>

section \<open>Steps\<close>

record Fleet =
  fleet_shm :: Segment
  fleet_contexts :: "nat \<Rightarrow> string \<rightharpoonup> SessionContext"
  fleet_files :: "string \<Rightarrow> DestFile"

definition world_of :: "nat \<Rightarrow> Fleet \<Rightarrow> World" where
  "world_of p F = \<lparr>shm = fleet_shm F, contexts = fleet_contexts F p, files = fleet_files F\<rparr>"

definition fleet_event :: "Env \<Rightarrow> nat \<times> event \<Rightarrow> Fleet \<Rightarrow> Fleet" where
  "fleet_event env pe F =
     (case pe of (p, ev) \<Rightarrow>
        let w = apply_event env ev (world_of p F)
        in \<lparr>fleet_shm = shm w, fleet_contexts = (fleet_contexts F)(p := contexts w), fleet_files = files w\<rparr>)"

text \<open>
  All a deployment has to respect: one code length n for every session, at most 255, and symbols that fit a
  slot.  Ids may clash, purges may come at any time.
\<close>

fun deployed :: "u32 \<Rightarrow> event \<Rightarrow> bool" where
  "deployed n (EvOpen msg file_size) \<longleftrightarrow> so_n msg = n \<and> so_block_bytes msg \<le> SLOT_SIZE"
| "deployed n (EvPurge nid) \<longleftrightarrow> True"
| "deployed n (EvData nid bid symid payload) \<longleftrightarrow> True"

definition one_length :: "u32 \<Rightarrow> Segment \<Rightarrow> bool" where
  "one_length n seg \<longleftrightarrow> (\<forall>i<8. se_state (session_table seg ! i) = SESSION_STATE_OPEN \<longrightarrow> se_n (session_table seg ! i) = n)"

text \<open>A context may be stale, but its entry has been open once, and so has the common n.\<close>

definition ctx_deployed :: "u32 \<Rightarrow> Segment \<Rightarrow> SessionContext \<Rightarrow> bool" where
  "ctx_deployed n seg ctx \<longleftrightarrow>
     ctx_n ctx = n \<and> ctx_symbol_bytes ctx \<le> SLOT_SIZE \<and> unat (ctx_session_idx ctx) < 8 \<and>
     se_n (session_table seg ! unat (ctx_session_idx ctx)) = n"

definition fleet_inv :: "Env \<Rightarrow> u32 \<Rightarrow> Fleet \<Rightarrow> bool" where
  "fleet_inv env n F \<longleftrightarrow>
     n \<le> MAX_N \<and> (\<exists>fl. shm_inv (env_mgr env) (fleet_shm F) fl) \<and> one_length n (fleet_shm F) \<and>
     (\<forall>p nid ctx. fleet_contexts F p nid = Some ctx \<longrightarrow> ctx_deployed n (fleet_shm F) ctx)"

section \<open>Every handler keeps the invariant\<close>

text \<open>What a handler does to the table, as far as the invariant is concerned.\<close>

definition keeps_length :: "u32 \<Rightarrow> Segment \<Rightarrow> Segment \<Rightarrow> bool" where
  "keeps_length n seg seg' \<longleftrightarrow>
     one_length n seg' \<and> (\<forall>i<8. se_n (session_table seg ! i) = n \<longrightarrow> se_n (session_table seg' ! i) = n)"

lemma keeps_length_ctx: "keeps_length n seg seg' \<Longrightarrow> ctx_deployed n seg ctx \<Longrightarrow> ctx_deployed n seg' ctx"
  by (simp add: keeps_length_def ctx_deployed_def)

lemma keeps_length_table:
  "one_length n seg \<Longrightarrow> session_table seg' = session_table seg \<Longrightarrow> keeps_length n seg seg'"
  by (simp add: keeps_length_def one_length_def)

lemma open_keeps_length:
  assumes inv: "shm_inv mgr seg fl" and one: "one_length n seg"
    and os: "open_session mgr sid k n sb tb fs dest seg = (r, seg')"
  shows "keeps_length n seg seg' \<and> (\<forall>idx. r = Some idx \<longrightarrow> unat idx < 8 \<and> se_n (session_table seg' ! unat idx) = n)"
proof (cases "find_session sid seg")
  case (Some i)
  have i: "i < 8" "se_state (session_table seg ! i) = SESSION_STATE_OPEN" using find_session_Some [OF Some] by simp_all
  have "seg' = seg" and "r = None \<or> r = Some (of_nat i)" using os Some by (auto simp: open_session_def split: if_splits)
  then show ?thesis using i one keeps_length_table [OF one refl] by (auto simp: one_length_def unat_of_nat_small)
next
  case None
  show ?thesis
  proof (cases "r = None")
    case True
    then have "seg' = seg" using os None by (auto simp: open_session_def split: if_splits option.splits)
    then show ?thesis using True keeps_length_table [OF one refl] by simp
  next
    case False
    then obtain i where e: "find_empty seg = Some i" and r: "r = Some (of_nat i)"
      and seg': "seg' = claim_session i sid k n sb tb fs dest seg"
      using os None by (auto simp: open_session_def split: if_splits option.splits)
    have i: "i < 8" "i < length (session_table seg)" using find_empty_Some [OF e] shm_invD(3) [OF inv] by simp_all
    have "se_n (session_table seg' ! j) = (if j = i then n else se_n (session_table seg ! j))"
      "j \<noteq> i \<Longrightarrow> se_state (session_table seg' ! j) = se_state (session_table seg ! j)" for j
      using i(2) by (simp_all add: seg' claim_session_def Let_def nth_list_update)
    then show ?thesis using one i(1) r by (auto simp: keeps_length_def one_length_def unat_of_nat_small)
  qed
qed

lemma close_keeps_length:
  assumes inv: "shm_inv mgr seg fl" and one: "one_length n seg"
  shows "keeps_length n seg (snd (close_session mgr (Some sid) seg)) \<and> (\<exists>fl'. shm_inv mgr (snd (close_session mgr (Some sid) seg)) fl')"
proof (cases "find_session sid seg")
  case None
  then have "snd (close_session mgr (Some sid) seg) = seg" by (simp add: close_session_def)
  then show ?thesis using inv keeps_length_table [OF one refl] by auto
next
  case (Some i)
  obtain bl where cl: "close_session mgr (Some sid) seg = (True, set_state i SESSION_STATE_EMPTY
          ((fold (free_slot mgr) (session_slots seg i) (set_state i SESSION_STATE_CLOSING seg))\<lparr>blocks := bl\<rparr>))"
    by (rule close_session_found [OF inv Some]) blast
  let ?seg = "snd (close_session mgr (Some sid) seg)"
  have "i < length (session_table seg)" using find_session_Some [OF Some] shm_invD(3) [OF inv] by simp
  then have "se_n (session_table ?seg ! j) = se_n (session_table seg ! j)"
    "se_state (session_table ?seg ! j) = (if j = i then SESSION_STATE_EMPTY else se_state (session_table seg ! j))" for j
    by (simp_all add: cl set_state_def nth_list_update)
  then have "keeps_length n seg ?seg" using one by (auto simp: keeps_length_def one_length_def session_states)
  then show ?thesis using close_session_inv(2) [OF inv Some] by blast
qed

lemma handler_keeps_length:
  assumes F: "fleet_inv env n F" and ev: "deployed n ev" and w': "w' = apply_event env ev (world_of p F)"
  shows "keeps_length n (fleet_shm F) (shm w') \<and> (\<exists>fl. shm_inv (env_mgr env) (shm w') fl) \<and>
     (\<forall>nid ctx. contexts w' nid = Some ctx \<longrightarrow> ctx_deployed n (shm w') ctx)"
proof -
  let ?w = "world_of p F"
  have sel [simp]: "shm ?w = fleet_shm F" "contexts ?w = fleet_contexts F p" by (simp_all add: world_of_def)
  obtain fl where inv: "shm_inv (env_mgr env) (shm ?w) fl" using F by (auto simp: fleet_inv_def)
  have one: "one_length n (shm ?w)" and ctxs: "\<And>nid ctx. contexts ?w nid = Some ctx \<Longrightarrow> ctx_deployed n (shm ?w) ctx"
    using F by (auto simp: fleet_inv_def)
  show ?thesis
  proof (cases ev)
    case (EvOpen msg file_size)
    obtain r seg where os: "open_session (env_mgr env) (c_str (so_session_id msg)) (so_k msg) (so_n msg) (so_block_bytes msg)
               (so_total_blocks msg) file_size (c_str (so_dest_path msg)) (shm ?w) = (r, seg)" by fastforce
    have n: "so_n msg = n" "so_block_bytes msg \<le> SLOT_SIZE" using ev by (simp_all add: EvOpen)
    note ol = open_keeps_length [OF inv one os [unfolded n(1)]]
    have sinv: "\<exists>fl. shm_inv (env_mgr env) seg fl"
      using open_session_inv [OF inv] os by (metis snd_conv)
    have "w' = snd (handle_session_open env msg file_size ?w)" by (simp add: w' EvOpen)
    with os show ?thesis
    proof (cases rule: session_open_cases)
      case known
      then show ?thesis using inv one ctxs keeps_length_table [OF one refl] by auto
    next
      case refused
      then show ?thesis using sinv ol ctxs keeps_length_ctx by auto
    next
      case (opened idx ctx)
      then have "ctx_deployed n seg ctx" using ol n by (simp add: ctx_deployed_def)
      then show ?thesis using opened sinv ol ctxs keeps_length_ctx by (auto split: if_splits)
    qed
  next
    case (EvPurge nid)
    then show ?thesis using close_keeps_length [OF inv one, of "c_str nid"] ctxs keeps_length_ctx
      by (auto simp: w' purge_session_def split: if_splits)
  next
    case (EvData nid bid symid payload)
    obtain r w2 where hp: "handle_data_packet env nid bid symid payload ?w = (r, w2)" by fastforce
    have "ctx_fits (shm ?w) ctx" if "contexts ?w nid = Some ctx" for ctx
      using ctxs [OF that] F by (simp add: ctx_deployed_def ctx_fits_def fleet_inv_def)
    note hd = handle_data_packet_inv [OF inv this hp]
    have w2: "w' = w2" by (simp add: w' EvData hp)
    have "keeps_length n (shm ?w) (shm w2)" by (rule keeps_length_table [OF one hd(2)])
    then show ?thesis using hd(1,3) ctxs keeps_length_ctx by (auto simp: w2)
  qed
qed

lemma fleet_event_inv:
  assumes F: "fleet_inv env n F" and ev: "deployed n (snd pe)"
  shows "fleet_inv env n (fleet_event env pe F)"
proof -
  obtain p e where pe: "pe = (p, e)" by (cases pe)
  from handler_keeps_length [OF F _ refl, of e p] ev F keeps_length_ctx show ?thesis
    by (auto simp: fleet_inv_def fleet_event_def pe Let_def keeps_length_def split: if_splits)
qed

lemma fleet_run_inv:
  "fleet_inv env n F \<Longrightarrow> \<forall>pe\<in>set evs. deployed n (snd pe) \<Longrightarrow> fleet_inv env n (fold (fleet_event env) evs F)"
  by (induction evs arbitrary: F) (simp_all add: fleet_event_inv)

section \<open>Properties\<close>

text \<open>
  C5: any number of receivers conserve the slots, handler by handler.  A step is one whole open, purge or
  packet handler of one process, and the steps of the processes come in any order, with contexts that
  outlive their session, ids that clash and packets of any content.  As long as all sessions use the same n
  of at most 255 and their symbols fit a slot, after every step each slot is on the free list or linked by
  exactly one symbol of one open session.  Handlers that overlap access by access are outside this property:
  a purge inside another process's handler can free a slot twice or leave one linked by a closed entry, as
  the theory PurgeRace shows.
\<close>

theorem receivers_conserve_slots:
  assumes "fleet_inv env n F" and "\<forall>pe\<in>set evs. deployed n (snd pe)"
  shows "fleet_inv env n (fold (fleet_event env) evs F)"
  using assms by (rule fleet_run_inv)

definition start_fleet :: Fleet where
  "start_fleet = \<lparr>fleet_shm = fresh3, fleet_contexts = (\<lambda>_. Map.empty), fleet_files = (\<lambda>_. \<lparr>cached = (\<lambda>_. 0), durable = (\<lambda>_. 0)\<rparr>)\<rparr>"

lemma start_fleet_inv: "fleet_inv demo_env 3 start_fleet"
  using fresh3_inv by (auto simp: fleet_inv_def start_fleet_def one_length_def MAX_N_def zero_session_def session_states)

theorem receivers_conserve_slots_witness:
  "fleet_inv demo_env 3 (fold (fleet_event demo_env)
     [(0, EvOpen demo_open 11), (1, EvOpen demo_open 11), (1, EvPurge ''s1''), (1, EvOpen other_open 11),
      (0, EvData ''s1'' 0 0 [1, 2, 3])] start_fleet)"
  by (rule receivers_conserve_slots [OF start_fleet_inv]) (simp add: demo_open_def other_open_def SLOT_SIZE_def)









end
