(* ===== verification/LoadSharing.thy ===== *)
theory LoadSharing
  imports Delivery Receivers
begin

text \<open>
  Receivers that share one session: each process has its own context for it (\<^verbatim>\<open>src/receiver/session_pipeline.hpp\<close>,
  \<open>sessions_\<close>), the symbols of one block come in through different processes, and whichever process takes the
  k-th decodes and writes the block.  As in Receivers, each handler runs to its end before the next begins.
\<close>

section \<open>A handler needs only the context of its session\<close>

text \<open>Contexts of one session in two processes differ in the file descriptor.\<close>

definition with_fd :: "int \<Rightarrow> SessionContext \<Rightarrow> SessionContext" where
  "with_fd fd ctx = ctx\<lparr>ctx_writer := (ctx_writer ctx)\<lparr>bw_fd := fd\<rparr>\<rparr>"

lemma with_fd_sel [simp]:
  "ctx_session_idx (with_fd fd ctx) = ctx_session_idx ctx" "ctx_k (with_fd fd ctx) = ctx_k ctx" "ctx_n (with_fd fd ctx) = ctx_n ctx"
  "ctx_symbol_bytes (with_fd fd ctx) = ctx_symbol_bytes ctx" "ctx_codec (with_fd fd ctx) = ctx_codec ctx"
  "ctx_writer (with_fd fd ctx) = (ctx_writer ctx)\<lparr>bw_fd := fd\<rparr>"
  by (simp_all add: with_fd_def)

lemma writer_fd [simp]:
  "write_block (wr\<lparr>bw_fd := fd\<rparr>) bid d f = write_block wr bid d f" "flush_block os (wr\<lparr>bw_fd := fd\<rparr>) bid f = flush_block os wr bid f"
  by (simp_all add: write_block_def flush_block_def Let_def)

lemma decode_with_contexts:
  "decode_and_write_block env (with_fd fd ctx) bid a (w\<lparr>contexts := C\<rparr>) =
     map_prod id (\<lambda>w. w\<lparr>contexts := C\<rparr>) (decode_and_write_block env ctx bid a w)"
  by (cases w) (simp add: decode_and_write_block_def Let_def set_block_def split: option.split prod.split bool.split)

lemma packet_contexts:
  assumes "contexts w sid = Some ctx" and "C sid = Some (with_fd fd ctx)"
  shows "handle_data_packet env sid bid symid payload (w\<lparr>contexts := C\<rparr>) =
     map_prod id (\<lambda>w. w\<lparr>contexts := C\<rparr>) (handle_data_packet env sid bid symid payload w)"
proof -
  have set: "set_block a e (w\<lparr>contexts := C\<rparr>) = (set_block a e w)\<lparr>contexts := C\<rparr>" for a e and w :: World
    by (cases w) (simp add: set_block_def)
  have upd: "w\<lparr>contexts := C, shm := seg\<rparr> = w\<lparr>shm := seg, contexts := C\<rparr>" for w :: World and seg
    by (cases w) simp
  show ?thesis
    using assms
    by (simp add: handle_data_packet_eq Let_def set upd decode_with_contexts split: option.split prod.split bool.split)
qed

section \<open>Sharing a session\<close>

text \<open>
  \<open>w\<close> is the state of one receiver that holds the session; the fleet has the same segment and files, and
  every process that holds the session has the same context but for the descriptor.
\<close>

definition sharing :: "string \<Rightarrow> SessionContext \<Rightarrow> World \<Rightarrow> Fleet \<Rightarrow> bool" where
  "sharing sid ctx w F \<longleftrightarrow> fleet_shm F = shm w \<and> fleet_files F = files w \<and>
     (\<forall>p c. fleet_contexts F p sid = Some c \<longrightarrow> (\<exists>fd. c = with_fd fd ctx))"

text \<open>A \<open>SessionOpen\<close> for the session: the parameters are those of the context.\<close>

definition announces :: "Env \<Rightarrow> SessionContext \<Rightarrow> SessionOpen \<Rightarrow> u64 \<Rightarrow> bool" where
  "announces env ctx msg file_size \<longleftrightarrow>
     so_k msg = ctx_k ctx \<and> so_n msg = ctx_n ctx \<and> so_block_bytes msg = ctx_symbol_bytes ctx \<and>
     ctx_codec ctx = new_codec (env_lib env) (ctx_k ctx) (ctx_n ctx) (ctx_symbol_bytes ctx) \<and>
     (case open_writer (env_os env) (c_str (so_dest_path msg)) file_size (so_k msg) (so_block_bytes msg) new_writer of
        (opened, wr) \<Rightarrow> opened \<longrightarrow> wr\<lparr>bw_fd := 0\<rparr> = (ctx_writer ctx)\<lparr>bw_fd := 0\<rparr>)"

fun shared_event :: "Env \<Rightarrow> string \<Rightarrow> SessionContext \<Rightarrow> u32 \<Rightarrow> (u32 \<Rightarrow> u8 list list) \<Rightarrow> event \<Rightarrow> bool" where
  "shared_event env sid ctx T D (EvData nid bid symid payload) \<longleftrightarrow>
     nid = sid \<and> carries (env_lib env) sid ctx T D (EvData nid bid symid payload)"
| "shared_event env sid ctx T D (EvOpen msg file_size) \<longleftrightarrow> so_session_id msg = sid \<and> announces env ctx msg file_size"
| "shared_event env sid ctx T D (EvPurge nid) \<longleftrightarrow> False"

text \<open>The packets that reach a process which holds the session when they come.\<close>

fun heard :: "Env \<Rightarrow> string \<Rightarrow> (nat \<times> event) list \<Rightarrow> Fleet \<Rightarrow> event list" where
  "heard env sid [] F = []"
| "heard env sid ((p, EvData nid bid symid payload) # evs) F =
     (if fleet_contexts F p sid = None then [] else [EvData nid bid symid payload]) @
     heard env sid evs (fleet_event env (p, EvData nid bid symid payload) F)"
| "heard env sid ((p, ev) # evs) F = heard env sid evs (fleet_event env (p, ev) F)"

lemma world_of_contexts: "sharing sid ctx w F \<Longrightarrow> world_of p F = w\<lparr>contexts := fleet_contexts F p\<rparr>"
  by (simp add: sharing_def world_of_def)

lemma open_step:
  assumes p: "pipe_inv env w" and ctx: "contexts w sid = Some ctx" and sh: "sharing sid ctx w F"
    and an: "announces env ctx msg file_size" and sid: "so_session_id msg = sid"
  shows "sharing sid ctx w (fleet_event env (p, EvOpen msg file_size) F)"
proof -
  let ?w = "world_of p F" and ?w' = "snd (handle_session_open env msg file_size (world_of p F))"
  let ?os = "open_session (env_mgr env) (c_str (so_session_id msg)) (so_k msg) (so_n msg) (so_block_bytes msg)
               (so_total_blocks msg) file_size (c_str (so_dest_path msg)) (shm ?w)"
  have w: "shm ?w = shm w" "files ?w = files w" "contexts ?w = fleet_contexts F p" by (simp_all add: world_of_contexts [OF sh])
  have "find_session (c_str sid) (shm w) = Some (unat (ctx_session_idx ctx))" by (rule pipe_inv_ctx(5) [OF p ctx])
  then have os: "?os = (None, shm w) \<or> ?os = (Some (ctx_session_idx ctx), shm w)"
    by (auto simp: open_session_def w sid)
  obtain b wr where ow: "open_writer (env_os env) (c_str (so_dest_path msg)) file_size (so_k msg) (so_block_bytes msg) new_writer = (b, wr)"
    by fastforce
  have wr: "wr = (ctx_writer ctx)\<lparr>bw_fd := bw_fd wr\<rparr>" if b
    using an that ow by (cases wr; cases "ctx_writer ctx") (simp add: announces_def)
  have "\<lparr>ctx_session_idx = ctx_session_idx ctx, ctx_k = so_k msg, ctx_n = so_n msg, ctx_symbol_bytes = so_block_bytes msg,
      ctx_codec = new_codec (env_lib env) (so_k msg) (so_n msg) (so_block_bytes msg), ctx_writer = wr\<rparr> = with_fd (bw_fd wr) ctx" if b
    using an wr [OF that] by (cases ctx) (simp add: announces_def with_fd_def)
  then have "shm ?w' = shm w \<and> files ?w' = files w \<and>
     (contexts ?w' = fleet_contexts F p \<or> (\<exists>fd. contexts ?w' = (fleet_contexts F p)(sid \<mapsto> with_fd fd ctx)))"
    using os w ow sid by (cases b) (auto simp: handle_session_open_def Let_def)
  then show ?thesis using sh by (auto simp: sharing_def fleet_event_def Let_def split: if_splits)
qed

lemma data_step:
  assumes ctx: "contexts w sid = Some ctx" and sh: "sharing sid ctx w F"
  shows "sharing sid ctx (if fleet_contexts F p sid = None then w else apply_event env (EvData sid bid symid payload) w)
     (fleet_event env (p, EvData sid bid symid payload) F)"
proof (cases "fleet_contexts F p sid")
  case None
  then have "handle_data_packet env sid bid symid payload (world_of p F) = ((UnknownSession, None), world_of p F)"
    by (intro packet_rejected) (simp add: world_of_def)
  then show ?thesis using None sh by (simp add: fleet_event_def Let_def world_of_def sharing_def)
next
  case (Some c)
  then obtain fd where "fleet_contexts F p sid = Some (with_fd fd ctx)" using sh by (auto simp: sharing_def)
  from packet_contexts [where C = "fleet_contexts F p", OF ctx this] show ?thesis
    using Some sh unfolding fleet_event_def world_of_contexts [OF sh] by (auto simp: sharing_def Let_def)
qed

lemma shared_run:
  assumes "transfer env sid ctx T D w" and "sharing sid ctx w F" and "\<forall>pe\<in>set evs. shared_event env sid ctx T D (snd pe)"
  shows "sharing sid ctx (fold (apply_event env) (heard env sid evs F) w) (fold (fleet_event env) evs F)"
  using assms
proof (induction evs arbitrary: w F)
  case (Cons pe evs)
  note t = Cons.prems(1) and d = transferD(1,2) [OF Cons.prems(1)]
  obtain p ev where pe: "pe = (p, ev)" by (cases pe)
  have ev: "shared_event env sid ctx T D ev" and evs: "\<forall>pe\<in>set evs. shared_event env sid ctx T D (snd pe)"
    using Cons.prems(3) by (simp_all add: pe)
  show ?case
  proof (cases ev)
    case (EvOpen msg file_size)
    then have "sharing sid ctx w (fleet_event env pe F)"
      using open_step [OF d Cons.prems(2)] ev by (simp add: pe)
    from Cons.IH [OF t this evs] show ?thesis by (simp add: pe EvOpen)
  next
    case (EvPurge nid)
    then show ?thesis using ev by simp
  next
    case (EvData nid bid symid payload)
    then have ev': "ev = EvData sid bid symid payload" "carries (env_lib env) sid ctx T D ev" using ev by simp_all
    note sh = data_step [OF d(2) Cons.prems(2), of p env bid symid payload]
    show ?thesis
    proof (cases "fleet_contexts F p sid = None")
      case True
      then show ?thesis using Cons.IH [OF t _ evs] sh by (simp add: pe ev'(1))
    next
      case False
      then obtain c where c: "fleet_contexts F p sid = Some c" by blast
      have "transfer env sid ctx T D (apply_event env ev w)" using ev' by (intro transfer_step [OF t]) simp_all
      from Cons.IH [OF this _ evs, of "fleet_event env pe F"] c sh show ?thesis by (simp add: pe ev'(1))
    qed
  qed
qed simp

lemma heard_events:
  "\<forall>pe\<in>set evs. shared_event env sid ctx T D (snd pe) \<Longrightarrow> ev \<in> set (heard env sid evs F) \<Longrightarrow>
   carries (env_lib env) sid ctx T D ev \<and> (\<exists>bid symid payload. ev = EvData sid bid symid payload)"
proof (induction evs arbitrary: F)
  case (Cons pe evs)
  then show ?case by (cases "(env, sid, pe # evs, F)" rule: heard.cases) (auto split: if_splits)
qed simp

section \<open>Properties\<close>

text \<open>
  C2: receivers that share a session deliver its file together, when their handlers run one at a time.  A
  step is one whole handler call of one process, and the processes take their steps in any order; handlers
  that overlap access by access are outside this property (the theories PacketRace and PacketRefine treat
  them, and show an overlap that stores wrong bytes).  The symbols of a block may come in through
  different processes, in any order, repeated or malformed, and processes may join by opening the session at
  any time with the announcement of the first.  No other session sends, no session is purged, the
  destination file is mapped, the msync calls succeed, and every valid packet carries the symbol it names.
  When T (k - 1) slots and one more are free and
  each block has k distinct symbols that reached some process which held the session, the durable image of
  the destination file is the sender's file, byte for byte.
\<close>

theorem receivers_deliver_file:
  assumes "transfer env sid ctx T D w"
    and "\<forall>bid<T. block_at (shm w) (unat (ctx_session_idx ctx)) (unat bid) = zero_block"
    and "sharing sid ctx w F" and "\<forall>pe\<in>set evs. shared_event env sid ctx T D (snd pe)"
    and "\<forall>bid<T. unat (ctx_k ctx) \<le> card (delivered sid ctx (heard env sid evs F) bid)"
    and "shm_inv (env_mgr env) (shm w) fl" and "unat T * (unat (ctx_k ctx) - 1) < length fl"
    and "splits_file (ctx_writer ctx) T D content"
  shows "mem_read 0 (length content) (durable (fleet_files (fold (fleet_event env) evs F) (bw_path (ctx_writer ctx)))) = content"
proof -
  let ?evs = "heard env sid evs F"
  have sh: "sharing sid ctx (fold (apply_event env) ?evs w) (fold (fleet_event env) evs F)" by (rule shared_run [OF assms(1,3,4)])
  have run: "run_ok env ?evs w" and c: "\<forall>ev\<in>set ?evs. carries (env_lib env) sid ctx T D ev"
    using heard_events [OF assms(4)] by (blast intro: data_run_ok)+
  have "\<forall>nid bid symid payload. EvData nid bid symid payload \<in> set ?evs \<longrightarrow> nid = sid" using heard_events [OF assms(4)] by blast
  from ample_fresh [OF assms(1,2) run c this assms(6,7)] have "ample env sid ?evs w" .
  from transfer_lemma [OF assms(1,2) run c this assms(5,8)] sh show ?thesis by (simp add: sharing_def)
qed

definition demo_fleet :: Fleet where
  "demo_fleet = \<lparr>fleet_shm = demo_seg, fleet_contexts = (\<lambda>_. Map.empty)(0 := [''s1'' \<mapsto> demo_ctx], 1 := [''s1'' \<mapsto> with_fd 9 demo_ctx]),
     fleet_files = files demo\<rparr>"

text \<open>Processes 0 and 1 hold the session, process 2 joins late; block 0 is completed by 1, block 1 by 0.\<close>

definition demo_shared :: "(nat \<times> event) list" where
  "demo_shared = [(2, EvData ''s1'' 0 0 [1, 2, 3]), (0, EvData ''s1'' 0 2 [121, 2, 141]), (1, EvData ''s1'' 1 2 [139, 246, 138]),
     (1, EvData ''s1'' 0 1 [4, 5, 6]), (2, EvOpen demo_open 11), (0, EvData ''s1'' 1 0 [7, 8, 9]), (2, EvData ''s1'' 1 0 [7, 8, 9])]"

lemma demo_sharing: "sharing ''s1'' demo_ctx demo demo_fleet"
  unfolding sharing_def demo_fleet_def
  by (auto simp: with_fd_def intro: exI [of _ 9] exI [of _ "bw_fd demo_writer"] split: if_splits)

text \<open>A process that holds the session keeps it and hears its packets.\<close>

lemma packet_keeps_contexts: "contexts (snd (handle_data_packet env sid bid symid payload w)) = contexts w"
  by (simp add: handle_data_packet_eq decode_and_write_block_def Let_def split: option.split prod.split bool.split)

lemma fleet_keeps_holder:
  assumes "fleet_contexts F p sid \<noteq> None" and "\<forall>nid. ev \<noteq> EvPurge nid"
  shows "fleet_contexts (fleet_event env (q, ev) F) p sid \<noteq> None"
proof -
  obtain c where c: "fleet_contexts F p sid = Some c" using assms(1) by blast
  show ?thesis
  proof (cases ev)
    case (EvOpen msg file_size)
    obtain r seg where os: "open_session (env_mgr env) (c_str (so_session_id msg)) (so_k msg) (so_n msg) (so_block_bytes msg)
                 (so_total_blocks msg) file_size (c_str (so_dest_path msg)) (shm (world_of q F)) = (r, seg)" by fastforce
    from os refl have "contexts (snd (handle_session_open env msg file_size (world_of q F))) sid = None \<longrightarrow> contexts (world_of q F) sid = None"
      by (cases rule: session_open_cases) auto
    then show ?thesis using c by (auto simp: fleet_event_def EvOpen Let_def world_of_def)
  next
    case (EvData nid bid symid payload)
    then show ?thesis using c by (auto simp: fleet_event_def Let_def packet_keeps_contexts world_of_def)
  qed (use assms(2) in blast)
qed

lemma heard_holder:
  assumes "fleet_contexts F p sid \<noteq> None" and "\<forall>pe\<in>set evs. \<forall>nid. snd pe \<noteq> EvPurge nid"
    and "(p, EvData nid bid symid payload) \<in> set evs"
  shows "EvData nid bid symid payload \<in> set (heard env sid evs F)"
  using assms
proof (induction evs arbitrary: F)
  case (Cons pe evs)
  obtain q ev where pe: "pe = (q, ev)" by (cases pe)
  have "fleet_contexts (fleet_event env (q, ev) F) p sid \<noteq> None"
    using Cons.prems(1,2) by (intro fleet_keeps_holder) (simp_all add: pe)
  note IH = Cons.IH [OF this]
  show ?case
  proof (cases "(p, EvData nid bid symid payload) = pe")
    case True
    then show ?thesis using Cons.prems(1) by auto
  next
    case False
    then have "EvData nid bid symid payload \<in> set (heard env sid evs (fleet_event env pe F))"
      using IH Cons.prems(2,3) by (auto simp: pe)
    then show ?thesis by (cases ev) (auto simp: pe)
  qed
qed simp

lemma demo_shared_ok: "\<forall>pe\<in>set demo_shared. shared_event demo_env ''s1'' demo_ctx 2 demo_data (snd pe)"
proof -
  have "open_writer os_ok ''/d'' 11 2 3 new_writer = (True, demo_writer)"
    by (simp add: open_writer_def os_ok_def new_writer_def close_writer_def demo_writer_def Let_def)
  then have "announces demo_env demo_ctx demo_open 11" by (simp add: announces_def demo_open_def c_str_def)
  then show ?thesis by (simp add: demo_shared_def demo_data_def demo_sent) (simp add: demo_open_def)
qed

lemma demo_shared_heard:
  assumes "bid < 2"
  shows "2 \<le> card (delivered ''s1'' demo_ctx (heard demo_env ''s1'' demo_shared demo_fleet) bid)"
proof -
  have mem: "EvData ''s1'' b s payload \<in> set (heard demo_env ''s1'' demo_shared demo_fleet)"
    if "(p, EvData ''s1'' b s payload) \<in> set demo_shared" and "p = 0 \<or> p = 1" for p b s payload
    using that by (intro heard_holder) (auto simp: demo_fleet_def demo_shared_def)
  have "EvData ''s1'' 0 2 [121, 2, 141] \<in> set (heard demo_env ''s1'' demo_shared demo_fleet)"
    "EvData ''s1'' 0 1 [4, 5, 6] \<in> set (heard demo_env ''s1'' demo_shared demo_fleet)"
    "EvData ''s1'' 1 2 [139, 246, 138] \<in> set (heard demo_env ''s1'' demo_shared demo_fleet)"
    "EvData ''s1'' 1 0 [7, 8, 9] \<in> set (heard demo_env ''s1'' demo_shared demo_fleet)"
    by (rule mem [of 0] mem [of 1], simp add: demo_shared_def, simp)+
  then have "{2, if bid = 0 then 1 else 0} \<subseteq> delivered ''s1'' demo_ctx (heard demo_env ''s1'' demo_shared demo_fleet) bid"
    using assms unfolding below_2 delivered_def by (auto intro: exI [of _ "[_, _, _]"])
  moreover have "finite (delivered ''s1'' demo_ctx (heard demo_env ''s1'' demo_shared demo_fleet) bid)"
    by (rule finite_subset [of _ UNIV]) simp_all
  ultimately have "card {2 :: u32, if bid = 0 then 1 else 0} \<le> card (delivered ''s1'' demo_ctx (heard demo_env ''s1'' demo_shared demo_fleet) bid)"
    by (intro card_mono)
  then show ?thesis by (simp split: if_splits)
qed

theorem receivers_deliver_file_witness:
  "mem_read 0 11 (durable (fleet_files (fold (fleet_event demo_env) demo_shared demo_fleet) ''/d'')) = [1, 2, 3, 4, 5, 6, 7, 8, 9, 10, 11]"
proof -
  have "mem_read 0 (length [1, 2, 3, 4, 5, 6, 7, 8, 9, 10, 11 :: u8])
      (durable (fleet_files (fold (fleet_event demo_env) demo_shared demo_fleet) (bw_path (ctx_writer demo_ctx)))) =
      [1, 2, 3, 4, 5, 6, 7, 8, 9, 10, 11]"
    by (rule receivers_deliver_file [OF demo_transfer demo_fresh demo_sharing demo_shared_ok _ _ _ _, of "[0, 1, 2]"])
      (use demo_shared_heard demo_inv demo_splits in simp_all)
  moreover have "length [1, 2, 3, 4, 5, 6, 7, 8, 9, 10, 11 :: u8] = 11" by simp
  ultimately show ?thesis by (simp del: length_Cons list.size)
qed

end
