(* ===== verification/PacketRace.thy ===== *)
theory PacketRace
  imports Delivery
begin

text \<open>
  Data packets of one block in any number of threads of any number of receiver processes at once
  (\<^verbatim>\<open>src/receiver/session_pipeline.cpp\<close>, \<open>handle_data_packet\<close> and \<open>decode_and_write_block\<close>).  A thread's step is one
  access to the shared segment or one call of the codec or the writer; allocation and release are whole
  operations (\<open>TreiberStack\<close> shows that they may be) and so is the copy into a slot nobody else has.
  \<open>ps_owner\<close> says which slots are free; for the others it keeps a history the program does not store, who
  the slot was last handed to.  Other blocks of the segment appear as the owner \<open>Elsewhere\<close>, whose slots and
  parts of the file change at any time.
\<close>

section \<open>State and steps\<close>

datatype owner = Free | Elsewhere | Hand nat | Link u32

text \<open>
  The points of a handler: the symbol and payload it carries, its slot x, the old word of its compare-exchange
  loop, and of the decoder the pointers g gathered so far (the symbol index is the length of g) or the index
  of its release loop.
\<close>

datatype ppc =
    PIdle
  | PState u32 "u8 list"          \<comment> \<open>before the load of \<open>decode_state\<close>\<close>
  | PPresent u32 "u8 list"        \<comment> \<open>before \<open>is_present\<close>\<close>
  | PAlloc u32 "u8 list"          \<comment> \<open>before \<open>alloc_slot\<close>\<close>
  | PCopy u32 "u8 list" u32       \<comment> \<open>before the \<open>memcpy\<close>\<close>
  | PLoad u32 u32                 \<comment> \<open>\<open>register_symbol\<close>: before the load of the word\<close>
  | PLoop u32 u32 u64             \<comment> \<open>top of its loop\<close>
  | PLink u32 u32                 \<comment> \<open>bit won, before \<open>slot_idx[symbol_id] = slot\<close>\<close>
  | PCount                        \<comment> \<open>before \<open>seen.fetch_add\<close>\<close>
  | PDrop u32                     \<comment> \<open>duplicate, before \<open>free_slot\<close>\<close>
  | PSeen                         \<comment> \<open>before \<open>seen() >= k\<close>\<close>
  | PClaim                        \<comment> \<open>before \<open>try_claim_decode\<close>\<close>
  | PGather "u32 option list"     \<comment> \<open>gather loop, before \<open>is_present\<close>\<close>
  | PPoint "u32 option list"      \<comment> \<open>present, before the load of the link\<close>
  | PDecode "u32 option list"
  | PWrite "u32 option list" "u8 list"
  | PFlush "u32 option list"
  | PMark "u32 option list"       \<comment> \<open>before \<open>mark_decode_complete\<close>\<close>
  | PRelease nat "u32 option list" \<comment> \<open>release loop, before \<open>free_slot(slot_idx(s))\<close>\<close>
  | PClear nat "u32 option list"  \<comment> \<open>before \<open>clear_slot(s)\<close>\<close>

record PacketState =
  ps_block :: BlockEntry
  ps_owner :: "u32 \<Rightarrow> owner"
  ps_mem :: "u32 \<Rightarrow> u8 list"
  ps_file :: DestFile
  ps_pc :: "nat \<Rightarrow> ppc"

definition pgoto :: "nat \<Rightarrow> ppc \<Rightarrow> PacketState \<Rightarrow> PacketState" where
  "pgoto t p st = st\<lparr>ps_pc := (ps_pc st)(t := p)\<rparr>"

definition set_owner :: "u32 \<Rightarrow> owner \<Rightarrow> PacketState \<Rightarrow> PacketState" where
  "set_owner x own st = st\<lparr>ps_owner := (ps_owner st)(x := own)\<rparr>"

text \<open>The arrays \<open>symbols[MAX_N]\<close>, through the gathered pointers, and \<open>present[MAX_N]\<close>.\<close>

definition pointed_symbols :: "(u32 \<Rightarrow> u8 list) \<Rightarrow> u32 option list \<Rightarrow> u8 list list" where
  "pointed_symbols mem g =
     map (\<lambda>i. if i < length g then (case g ! i of None \<Rightarrow> [] | Some x \<Rightarrow> mem x) else []) [0..<unat MAX_N]"

definition pointed_present :: "u32 option list \<Rightarrow> bool list" where
  "pointed_present g = map (\<lambda>i. i < length g \<and> g ! i \<noteq> None) [0..<unat MAX_N]"

text \<open>
  The next step of thread t; \<open>slot\<close> is what \<open>alloc_slot\<close> returns when that is the step, None for an
  exhausted arena.  A spurious failure of \<open>compare_exchange_weak\<close> reloads the word it compares with, which is
  the old one, and so leaves the state as it is.
\<close>

definition thread_step :: "Env \<Rightarrow> SessionContext \<Rightarrow> u32 \<Rightarrow> nat \<Rightarrow> u32 option \<Rightarrow> PacketState \<Rightarrow> PacketState option" where
  "thread_step env ctx block_id t slot st =
     (let e = ps_block st
      in case ps_pc st t of
        PIdle \<Rightarrow> None
      | PState s p \<Rightarrow> Some (pgoto t (if decoded e = DECODE_COMPLETE then PIdle else PPresent s p) st)
      | PPresent s p \<Rightarrow> Some (pgoto t (if is_present e s then PIdle else PAlloc s p) st)
      | PAlloc s p \<Rightarrow>
          (case slot of None \<Rightarrow> Some (pgoto t PIdle st)
           | Some x \<Rightarrow> if ps_owner st x = Free then Some (pgoto t (PCopy s p x) (set_owner x (Hand t) st)) else None)
      | PCopy s p x \<Rightarrow> Some (pgoto t (PLoad s x) (st\<lparr>ps_mem := (ps_mem st)(x := p)\<rparr>))
      | PLoad s x \<Rightarrow> Some (pgoto t (PLoop s x (present_mask e ! sym_word s)) st)
      | PLoop s x old \<Rightarrow>
          if old AND sym_bit s \<noteq> 0 then Some (pgoto t (PDrop x) st)
          else if present_mask e ! sym_word s = old then
            Some (pgoto t (PLink s x) (st\<lparr>ps_block := e\<lparr>present_mask := (present_mask e)[sym_word s := old OR sym_bit s]\<rparr>\<rparr>))
          else Some (pgoto t (PLoop s x (present_mask e ! sym_word s)) st)
      | PLink s x \<Rightarrow>
          Some (pgoto t PCount (set_owner x (Link s) (st\<lparr>ps_block := e\<lparr>slot_idx := (slot_idx e)[unat s := x]\<rparr>\<rparr>)))
      | PCount \<Rightarrow> Some (pgoto t PSeen (st\<lparr>ps_block := e\<lparr>seen := seen e + 1\<rparr>\<rparr>))
      | PDrop x \<Rightarrow> Some (pgoto t PIdle (set_owner x Free st))
      | PSeen \<Rightarrow> Some (pgoto t (if seen e \<ge> ctx_k ctx then PClaim else PIdle) st)
      | PClaim \<Rightarrow>
          (case try_claim_decode e of (False, _) \<Rightarrow> Some (pgoto t PIdle st)
           | (True, e) \<Rightarrow> Some (pgoto t (PGather []) (st\<lparr>ps_block := e\<rparr>)))
      | PGather g \<Rightarrow>
          if length g < unat (ctx_n ctx) then
            Some (pgoto t (if is_present e (of_nat (length g)) then PPoint g else PGather (g @ [None])) st)
          else Some (pgoto t (PDecode g) st)
      | PPoint g \<Rightarrow> Some (pgoto t (PGather (g @ [Some (slot_of e (of_nat (length g)))])) st)
      | PDecode g \<Rightarrow>
          (case rs_decode (env_lib env) (ctx_codec ctx) (pointed_symbols (ps_mem st) g) (pointed_present g) of
             None \<Rightarrow> Some (pgoto t PIdle st) | Some bytes \<Rightarrow> Some (pgoto t (PWrite g bytes) st))
      | PWrite g bytes \<Rightarrow>
          (case write_block (ctx_writer ctx) block_id bytes (ps_file st) of
             (ok, f) \<Rightarrow> Some (pgoto t (if ok then PFlush g else PIdle) (st\<lparr>ps_file := f\<rparr>)))
      | PFlush g \<Rightarrow>
          (case flush_block (env_os env) (ctx_writer ctx) block_id (ps_file st) of
             (ok, f) \<Rightarrow> Some (pgoto t (if ok then PMark g else PIdle) (st\<lparr>ps_file := f\<rparr>)))
      | PMark g \<Rightarrow>
          (case mark_decode_complete e of (False, _) \<Rightarrow> Some (pgoto t PIdle st)
           | (True, e) \<Rightarrow> Some (pgoto t (PRelease 0 g) (st\<lparr>ps_block := e\<rparr>)))
      | PRelease i g \<Rightarrow>
          if i < unat (ctx_n ctx) then
            (if g ! i = None then Some (pgoto t (PRelease (i + 1) g) st)
             else Some (pgoto t (PClear i g) (set_owner (slot_of e (of_nat i)) Free st)))
          else Some (pgoto t PIdle st)
      | PClear i g \<Rightarrow> Some (pgoto t (PRelease (i + 1) g) (st\<lparr>ps_block := clear_slot (of_nat i) e\<rparr>)))"

text \<open>The step at which the decoder reads the link of a symbol whose registration has not stored it yet.\<close>

definition reads_unpublished :: "nat \<Rightarrow> PacketState \<Rightarrow> bool" where
  "reads_unpublished t st \<longleftrightarrow>
     (\<exists>g u x. ps_pc st t = PPoint g \<and> ps_pc st u = PLink (of_nat (length g)) x)"

text \<open>
  The runs from a freshly zeroed block: packets with the symbols \<open>sent\<close> arrive, threads move, and the rest of
  the system allocates, writes and frees other slots, and writes and syncs other parts of the file.  With
  \<open>careful\<close>, only runs in which no decoder reads an unpublished link.
\<close>

definition same_block_bytes :: "BlockWriter \<Rightarrow> u32 \<Rightarrow> DestFile \<Rightarrow> DestFile \<Rightarrow> bool" where
  "same_block_bytes wr bid f f' \<longleftrightarrow>
     (\<forall>i<block_len wr bid. let a = block_off wr bid + i
        in cached f' a = cached f a \<and> (durable f' a = durable f a \<or> durable f' a = cached f a))"

inductive packet_reachable :: "bool \<Rightarrow> Env \<Rightarrow> SessionContext \<Rightarrow> u32 \<Rightarrow> u8 list list \<Rightarrow> PacketState \<Rightarrow> bool"
  for careful env ctx bid sent where
  start: "\<forall>x. own x = Free \<or> own x = Elsewhere \<Longrightarrow> own SLOT_IDX_FREE = Elsewhere \<Longrightarrow>
     packet_reachable careful env ctx bid sent
       \<lparr>ps_block = zero_block, ps_owner = own, ps_mem = mem, ps_file = f, ps_pc = (\<lambda>_. PIdle)\<rparr>"
| arrive: "packet_reachable careful env ctx bid sent st \<Longrightarrow> ps_pc st t = PIdle \<Longrightarrow> s < ctx_n ctx \<Longrightarrow>
     packet_reachable careful env ctx bid sent (pgoto t (PState s (sent ! unat s)) st)"
| move: "packet_reachable careful env ctx bid sent st \<Longrightarrow> (careful \<longrightarrow> \<not> reads_unpublished t st) \<Longrightarrow>
     thread_step env ctx bid t slot st = Some st' \<Longrightarrow> packet_reachable careful env ctx bid sent st'"
| other_alloc: "packet_reachable careful env ctx bid sent st \<Longrightarrow> ps_owner st x = Free \<Longrightarrow>
     packet_reachable careful env ctx bid sent (set_owner x Elsewhere st)"
| other_write: "packet_reachable careful env ctx bid sent st \<Longrightarrow> ps_owner st x = Elsewhere \<Longrightarrow>
     packet_reachable careful env ctx bid sent (st\<lparr>ps_mem := (ps_mem st)(x := bytes)\<rparr>)"
| other_free: "packet_reachable careful env ctx bid sent st \<Longrightarrow> ps_owner st x = Elsewhere \<Longrightarrow> x \<noteq> SLOT_IDX_FREE \<Longrightarrow>
     packet_reachable careful env ctx bid sent (set_owner x Free st)"
| other_file: "packet_reachable careful env ctx bid sent st \<Longrightarrow> same_block_bytes (ctx_writer ctx) bid (ps_file st) f \<Longrightarrow>
     packet_reachable careful env ctx bid sent (st\<lparr>ps_file := f\<rparr>)"

lemma pgoto_sel [simp]:
  "ps_block (pgoto t p st) = ps_block st" "ps_owner (pgoto t p st) = ps_owner st" "ps_mem (pgoto t p st) = ps_mem st"
  "ps_file (pgoto t p st) = ps_file st" "ps_pc (pgoto t p st) = (ps_pc st)(t := p)"
  by (simp_all add: pgoto_def)

lemma set_owner_sel [simp]:
  "ps_block (set_owner x own st) = ps_block st" "ps_owner (set_owner x own st) = (ps_owner st)(x := own)"
  "ps_mem (set_owner x own st) = ps_mem st" "ps_file (set_owner x own st) = ps_file st" "ps_pc (set_owner x own st) = ps_pc st"
  by (simp_all add: set_owner_def)


section \<open>The invariant\<close>

fun hand :: "ppc \<Rightarrow> u32 set" where
  "hand (PCopy s p x) = {x}"
| "hand (PLoad s x) = {x}"
| "hand (PLoop s x old) = {x}"
| "hand (PLink s x) = {x}"
| "hand (PDrop x) = {x}"
| "hand _ = {}"

fun unlinked :: "ppc \<Rightarrow> u32 set" where
  "unlinked (PLink s x) = {s}"
| "unlinked (PClear i g) = {of_nat i}"
| "unlinked _ = {}"

fun decoding :: "ppc \<Rightarrow> bool" where
  "decoding (PGather g) = True"
| "decoding (PPoint g) = True"
| "decoding (PDecode g) = True"
| "decoding (PWrite g bytes) = True"
| "decoding (PFlush g) = True"
| "decoding (PMark g) = True"
| "decoding (PRelease i g) = True"
| "decoding (PClear i g) = True"
| "decoding _ = False"

text \<open>The slot a symbol of the block holds: its bit is set, its link stored and not yet given back.\<close>

definition linked :: "PacketState \<Rightarrow> u32 \<Rightarrow> u32 option" where
  "linked st s =
     (if is_present (ps_block st) s \<and> (\<forall>t. s \<notin> unlinked (ps_pc st t)) \<and> slot_of (ps_block st) s \<noteq> kListEnd
      then Some (slot_of (ps_block st) s) else None)"

definition gathered :: "PacketState \<Rightarrow> nat \<Rightarrow> u32 option list \<Rightarrow> bool" where
  "gathered st i g \<longleftrightarrow> (\<forall>j x. i \<le> j \<longrightarrow> j < length g \<longrightarrow> g ! j = Some x \<longrightarrow> linked st (of_nat j) = Some x)"

fun thread_ok :: "SessionContext \<Rightarrow> u32 \<Rightarrow> u8 list \<Rightarrow> u8 list list \<Rightarrow> PacketState \<Rightarrow> ppc \<Rightarrow> bool" where
  "thread_ok ctx bid d sent st (PState s p) \<longleftrightarrow> s < ctx_n ctx \<and> p = sent ! unat s"
| "thread_ok ctx bid d sent st (PPresent s p) \<longleftrightarrow> s < ctx_n ctx \<and> p = sent ! unat s"
| "thread_ok ctx bid d sent st (PAlloc s p) \<longleftrightarrow> s < ctx_n ctx \<and> p = sent ! unat s"
| "thread_ok ctx bid d sent st (PCopy s p x) \<longleftrightarrow> s < ctx_n ctx \<and> p = sent ! unat s"
| "thread_ok ctx bid d sent st (PLoad s x) \<longleftrightarrow> s < ctx_n ctx \<and> ps_mem st x = sent ! unat s"
| "thread_ok ctx bid d sent st (PLoop s x old) \<longleftrightarrow> s < ctx_n ctx \<and> ps_mem st x = sent ! unat s"
| "thread_ok ctx bid d sent st (PLink s x) \<longleftrightarrow> s < ctx_n ctx \<and> ps_mem st x = sent ! unat s \<and> is_present (ps_block st) s"
| "thread_ok ctx bid d sent st (PGather g) \<longleftrightarrow>
     decoded (ps_block st) = DECODE_CLAIMED \<and> length g \<le> unat (ctx_n ctx) \<and> gathered st 0 g"
| "thread_ok ctx bid d sent st (PPoint g) \<longleftrightarrow>
     decoded (ps_block st) = DECODE_CLAIMED \<and> length g < unat (ctx_n ctx) \<and> gathered st 0 g \<and> is_present (ps_block st) (of_nat (length g))"
| "thread_ok ctx bid d sent st (PDecode g) \<longleftrightarrow>
     decoded (ps_block st) = DECODE_CLAIMED \<and> length g = unat (ctx_n ctx) \<and> gathered st 0 g"
| "thread_ok ctx bid d sent st (PWrite g bytes) \<longleftrightarrow>
     decoded (ps_block st) = DECODE_CLAIMED \<and> length g = unat (ctx_n ctx) \<and> gathered st 0 g \<and> bytes = d"
| "thread_ok ctx bid d sent st (PFlush g) \<longleftrightarrow>
     decoded (ps_block st) = DECODE_CLAIMED \<and> length g = unat (ctx_n ctx) \<and> gathered st 0 g \<and>
     block_off (ctx_writer ctx) bid < unat (bw_file_size (ctx_writer ctx)) \<and>
     (\<forall>i<block_len (ctx_writer ctx) bid. cached (ps_file st) (block_off (ctx_writer ctx) bid + i) = d ! i)"
| "thread_ok ctx bid d sent st (PMark g) \<longleftrightarrow>
     decoded (ps_block st) = DECODE_CLAIMED \<and> length g = unat (ctx_n ctx) \<and> gathered st 0 g \<and>
     stored (ctx_writer ctx) bid d (ps_file st)"
| "thread_ok ctx bid d sent st (PRelease i g) \<longleftrightarrow>
     decoded (ps_block st) = DECODE_COMPLETE \<and> length g = unat (ctx_n ctx) \<and> gathered st i g"
| "thread_ok ctx bid d sent st (PClear i g) \<longleftrightarrow>
     decoded (ps_block st) = DECODE_COMPLETE \<and> length g = unat (ctx_n ctx) \<and> i < length g \<and> gathered st (i + 1) g \<and>
     is_present (ps_block st) (of_nat i)"
| "thread_ok ctx bid d sent st _ \<longleftrightarrow> True"

definition packet_inv :: "SessionContext \<Rightarrow> u32 \<Rightarrow> u8 list \<Rightarrow> u8 list list \<Rightarrow> PacketState \<Rightarrow> bool" where
  "packet_inv ctx bid d sent st \<longleftrightarrow>
     length (present_mask (ps_block st)) = 4 \<and> length (slot_idx (ps_block st)) = 255 \<and>
     ps_owner st kListEnd = Elsewhere \<and>
     (\<forall>t x. ps_owner st x = Hand t \<longleftrightarrow> x \<in> hand (ps_pc st t)) \<and>
     (\<forall>s x. ps_owner st x = Link s \<longleftrightarrow> linked st s = Some x) \<and>
     (\<forall>t u. t \<noteq> u \<longrightarrow> unlinked (ps_pc st t) \<inter> unlinked (ps_pc st u) = {}) \<and>
     (\<forall>t u. decoding (ps_pc st t) \<longrightarrow> decoding (ps_pc st u) \<longrightarrow> t = u) \<and>
     (\<forall>t. thread_ok ctx bid d sent st (ps_pc st t)) \<and>
     (\<forall>s x. linked st s = Some x \<longrightarrow> ps_mem st x = sent ! unat s) \<and>
     (decoded (ps_block st) \<noteq> DECODE_COMPLETE \<longrightarrow>
        (\<forall>s. is_present (ps_block st) s \<longrightarrow> (\<forall>t. s \<notin> unlinked (ps_pc st t)) \<longrightarrow> linked st s \<noteq> None)) \<and>
     (decoded (ps_block st) = DECODE_COMPLETE \<longrightarrow> stored (ctx_writer ctx) bid d (ps_file st))"

lemma packet_invD:
  assumes "packet_inv ctx bid d sent st"
  shows "length (present_mask (ps_block st)) = 4" "length (slot_idx (ps_block st)) = 255"
    and "ps_owner st kListEnd = Elsewhere"
    and "ps_owner st x = Hand t \<longleftrightarrow> x \<in> hand (ps_pc st t)"
    and "ps_owner st x = Link s \<longleftrightarrow> linked st s = Some x"
    and "t \<noteq> u \<Longrightarrow> unlinked (ps_pc st t) \<inter> unlinked (ps_pc st u) = {}"
    and "decoding (ps_pc st t) \<Longrightarrow> decoding (ps_pc st u) \<Longrightarrow> t = u"
    and "thread_ok ctx bid d sent st (ps_pc st t)"
    and "linked st s = Some x \<Longrightarrow> ps_mem st x = sent ! unat s"
    and "decoded (ps_block st) \<noteq> DECODE_COMPLETE \<Longrightarrow> is_present (ps_block st) s \<Longrightarrow> \<forall>t. s \<notin> unlinked (ps_pc st t) \<Longrightarrow>
      linked st s \<noteq> None"
    and "decoded (ps_block st) = DECODE_COMPLETE \<Longrightarrow> stored (ctx_writer ctx) bid d (ps_file st)"
  using assms unfolding packet_inv_def by blast+

lemma packet_invI:
  assumes "length (present_mask (ps_block st)) = 4" "length (slot_idx (ps_block st)) = 255"
    and "ps_owner st kListEnd = Elsewhere"
    and "\<And>t x. ps_owner st x = Hand t \<longleftrightarrow> x \<in> hand (ps_pc st t)"
    and "\<And>s x. ps_owner st x = Link s \<longleftrightarrow> linked st s = Some x"
    and "\<And>t u. t \<noteq> u \<Longrightarrow> unlinked (ps_pc st t) \<inter> unlinked (ps_pc st u) = {}"
    and "\<And>t u. decoding (ps_pc st t) \<Longrightarrow> decoding (ps_pc st u) \<Longrightarrow> t = u"
    and "\<And>t. thread_ok ctx bid d sent st (ps_pc st t)"
    and "\<And>s x. linked st s = Some x \<Longrightarrow> ps_mem st x = sent ! unat s"
    and "\<And>s. decoded (ps_block st) \<noteq> DECODE_COMPLETE \<Longrightarrow> is_present (ps_block st) s \<Longrightarrow> \<forall>t. s \<notin> unlinked (ps_pc st t) \<Longrightarrow>
      linked st s \<noteq> None"
    and "decoded (ps_block st) = DECODE_COMPLETE \<Longrightarrow> stored (ctx_writer ctx) bid d (ps_file st)"
  shows "packet_inv ctx bid d sent st"
  unfolding packet_inv_def using assms by blast

text \<open>What a thread's obligations depend on.\<close>

lemma gathered_mono: "gathered st i g \<Longrightarrow> (\<And>s y. linked st s = Some y \<Longrightarrow> linked st' s = Some y) \<Longrightarrow> gathered st' i g"
  by (simp add: gathered_def)

lemma thread_ok_cong:
  assumes "\<And>s y. decoding p \<Longrightarrow> linked st s = Some y \<Longrightarrow> linked st' s = Some y"
    and "decoding p \<Longrightarrow> decoded (ps_block st') = decoded (ps_block st) \<and> ps_file st' = ps_file st"
    and "\<And>s. is_present (ps_block st) s \<Longrightarrow> is_present (ps_block st') s" and "\<And>x. x \<in> hand p \<Longrightarrow> ps_mem st' x = ps_mem st x"
    and "thread_ok ctx bid d sent st p"
  shows "thread_ok ctx bid d sent st' p"
  using assms gathered_mono [of st _ _ st'] by (cases p) auto

lemma linked_same:
  assumes "\<And>s. is_present (ps_block st') s = is_present (ps_block st) s" and "\<And>s. slot_of (ps_block st') s = slot_of (ps_block st) s"
    and "\<And>u. unlinked (ps_pc st' u) = unlinked (ps_pc st u)"
  shows "linked st' = linked st"
  using assms by (simp add: linked_def fun_eq_iff)

lemma unlinked_present: "packet_inv ctx bid d sent st \<Longrightarrow> s \<in> unlinked (ps_pc st t) \<Longrightarrow> is_present (ps_block st) s"
  using packet_invD(8) [of ctx bid d sent st t] by (cases "ps_pc st t") auto

text \<open>
  A step of thread t that leaves the owners, the contents of slots and the linked symbols, and all of the entry
  but \<open>seen\<close>, as they are; the file may change in ways that every other thread tolerates.
\<close>

lemma inv_control:
  assumes inv: "packet_inv ctx bid d sent st" and pc: "ps_pc st' = (ps_pc st)(t := p)"
    and e: "ps_block st' = (ps_block st)\<lparr>seen := c\<rparr>" and same: "ps_owner st' = ps_owner st" "ps_mem st' = ps_mem st"
    and h: "hand p = hand (ps_pc st t)" "unlinked p = unlinked (ps_pc st t)" "decoding p \<Longrightarrow> decoding (ps_pc st t)"
    and ok: "linked st' = linked st \<Longrightarrow> thread_ok ctx bid d sent st' p"
    and others: "\<And>u. u \<noteq> t \<Longrightarrow> linked st' = linked st \<Longrightarrow> thread_ok ctx bid d sent st (ps_pc st u) \<Longrightarrow> thread_ok ctx bid d sent st' (ps_pc st u)"
    and fl: "decoded (ps_block st) = DECODE_COMPLETE \<Longrightarrow> stored (ctx_writer ctx) bid d (ps_file st) \<Longrightarrow>
       stored (ctx_writer ctx) bid d (ps_file st')"
  shows "packet_inv ctx bid d sent st'"
proof -
  note i = packet_invD [OF inv]
  have hu: "hand (ps_pc st' u) = hand (ps_pc st u)" "unlinked (ps_pc st' u) = unlinked (ps_pc st u)"
    "decoding (ps_pc st' u) \<Longrightarrow> decoding (ps_pc st u)" for u
    using h by (simp_all add: pc split: if_splits)
  have l: "linked st' = linked st" by (rule linked_same) (simp_all add: e hu)
  show ?thesis
  proof (rule packet_invI)
    show "thread_ok ctx bid d sent st' (ps_pc st' u)" for u
      using ok [OF l] others [OF _ l i(8)] by (simp add: pc)
  qed (use i hu fl in \<open>auto simp: e same l\<close>)
qed

lemma inv_goto:
  assumes inv: "packet_inv ctx bid d sent st"
    and h: "hand p = hand (ps_pc st t)" "unlinked p = unlinked (ps_pc st t)" "decoding p \<Longrightarrow> decoding (ps_pc st t)"
    and ok: "thread_ok ctx bid d sent st p"
  shows "packet_inv ctx bid d sent (pgoto t p st)"
proof (rule inv_control [OF inv _ _ _ _ h])
  have cong: "linked (pgoto t p st) = linked st \<Longrightarrow> thread_ok ctx bid d sent st q \<Longrightarrow> thread_ok ctx bid d sent (pgoto t p st) q" for q
    by (rule thread_ok_cong) simp_all
  show "linked (pgoto t p st) = linked st \<Longrightarrow> thread_ok ctx bid d sent (pgoto t p st) p" using cong ok by blast
  show "thread_ok ctx bid d sent (pgoto t p st) (ps_pc st u)"
    if "linked (pgoto t p st) = linked st" "thread_ok ctx bid d sent st (ps_pc st u)" for u using cong that by blast
  show "ps_block (pgoto t p st) = (ps_block st)\<lparr>seen := seen (ps_block st)\<rparr>" by simp
qed simp_all

text \<open>A slot changes hands; the block stays as it is.\<close>

lemma inv_owner:
  assumes inv: "packet_inv ctx bid d sent st" and own: "ps_owner st x = a" "\<forall>s. a \<noteq> Link s" "\<forall>s. b \<noteq> Link s" "x \<noteq> kListEnd"
    and p: "hand p = hand (ps_pc st t) - {x} \<union> (if b = Hand t then {x} else {})"
    and ab: "\<forall>u. u \<noteq> t \<longrightarrow> a \<noteq> Hand u \<and> b \<noteq> Hand u"
    and h: "unlinked p = unlinked (ps_pc st t)" "decoding p \<Longrightarrow> decoding (ps_pc st t)" and ok: "thread_ok ctx bid d sent st p"
  shows "packet_inv ctx bid d sent (pgoto t p (set_owner x b st))"
proof -
  note i = packet_invD [OF inv]
  let ?st = "pgoto t p (set_owner x b st)"
  have u: "unlinked (ps_pc ?st u) = unlinked (ps_pc st u)" "decoding (ps_pc ?st u) \<Longrightarrow> decoding (ps_pc st u)" for u
    using h by (simp_all split: if_splits)
  have l: "linked ?st = linked st" by (rule linked_same [OF _ _ u(1)]) simp_all
  have lx: "linked st s \<noteq> Some x" for s using i(5) [of x s] own by auto
  show ?thesis
  proof (rule packet_invI)
    show "ps_owner ?st y = Hand v \<longleftrightarrow> y \<in> hand (ps_pc ?st v)" for v y
      using i(4) [of y v] i(4) [of y t] i(4) [of x v] p ab own(1) by (cases "v = t"; cases "y = x") auto
    show "ps_owner ?st y = Link s \<longleftrightarrow> linked ?st s = Some y" for s y
      using i(5) [of y s] own(3) lx [of s] by (cases "y = x") (auto simp: l)
    show "thread_ok ctx bid d sent ?st (ps_pc ?st v)" for v
      using thread_ok_cong [of _ st ?st ctx bid d sent] ok i(8) [of v] l by simp
    show "ps_owner ?st kListEnd = Elsewhere" using i(3) own(4) by simp
    show "unlinked (ps_pc ?st v) \<inter> unlinked (ps_pc ?st w) = {}" if "v \<noteq> w" for v w unfolding u(1) by (rule i(6) [OF that])
    show "v = w" if "decoding (ps_pc ?st v)" "decoding (ps_pc ?st w)" for v w using i(7) u(2) that by blast
    show "ps_mem ?st y = sent ! unat s" if "linked ?st s = Some y" for s y using i(9) that by (simp add: l)
    show "linked ?st s \<noteq> None" if "decoded (ps_block ?st) \<noteq> DECODE_COMPLETE" "is_present (ps_block ?st) s"
      "\<forall>v. s \<notin> unlinked (ps_pc ?st v)" for s
      using i(10) [of s] that unfolding u(1) l by simp
  qed (use i(1,2,11) in simp_all)
qed


lemma others_idle:
  assumes inv: "packet_inv ctx bid d sent st" and t: "decoding (ps_pc st t)" "u \<noteq> t"
  shows "\<not> decoding (ps_pc st u)"
  using packet_invD(7) [OF inv] t by blast

lemma hand_owned: "packet_inv ctx bid d sent st \<Longrightarrow> x \<in> hand (ps_pc st t) \<Longrightarrow> ps_owner st x = Hand t"
  using packet_invD(4) by blast

lemma linked_owned: "packet_inv ctx bid d sent st \<Longrightarrow> linked st s = Some x \<Longrightarrow> ps_owner st x = Link s"
  using packet_invD(5) by blast

lemma inv_copy:
  assumes inv: "packet_inv ctx bid d sent st" and pc: "ps_pc st t = PCopy s p x"
  shows "packet_inv ctx bid d sent (pgoto t (PLoad s x) (st\<lparr>ps_mem := (ps_mem st)(x := p)\<rparr>))" (is "packet_inv _ _ _ _ ?st")
proof -
  note i = packet_invD [OF inv]
  have u: "hand (ps_pc ?st u) = hand (ps_pc st u)" "unlinked (ps_pc ?st u) = unlinked (ps_pc st u)"
    "decoding (ps_pc ?st u) = decoding (ps_pc st u)" for u
    using pc by simp_all
  have l: "linked ?st = linked st" by (rule linked_same [OF _ _ u(2)]) simp_all
  have x: "ps_owner st x = Hand t" using hand_owned [OF inv, of x t] pc by simp
  show ?thesis
  proof (rule packet_invI)
    show "ps_mem ?st y = sent ! unat s'" if "linked ?st s' = Some y" for s' y
      using that i(9) [of s' y] linked_owned [OF inv, of s' y] x unfolding l by auto
    show "thread_ok ctx bid d sent ?st (ps_pc ?st v)" for v
    proof (cases "v = t")
      case True
      then show ?thesis using i(8) [of t] pc by simp
    next
      case False
      have "ps_mem ?st y = ps_mem st y" if "y \<in> hand (ps_pc st v)" for y using hand_owned [OF inv that] x False by auto
      then have "thread_ok ctx bid d sent ?st (ps_pc st v)" using l by (intro thread_ok_cong [OF _ _ _ _ i(8) [of v]]) simp_all
      then show ?thesis using False by simp
    qed
    show "linked ?st s' \<noteq> None" if "decoded (ps_block ?st) \<noteq> DECODE_COMPLETE" "is_present (ps_block ?st) s'"
      "\<forall>v. s' \<notin> unlinked (ps_pc ?st v)" for s'
      using i(10) [of s'] that unfolding u(2) l by simp
    show "unlinked (ps_pc ?st v) \<inter> unlinked (ps_pc ?st w) = {}" if "v \<noteq> w" for v w unfolding u(2) by (rule i(6) [OF that])
    show "v = w" if "decoding (ps_pc ?st v)" "decoding (ps_pc ?st w)" for v w using i(7) that unfolding u(3) by blast
    show "ps_owner ?st y = Hand v \<longleftrightarrow> y \<in> hand (ps_pc ?st v)" for v y unfolding u(1) using i(4) by simp
    show "ps_owner ?st y = Link s' \<longleftrightarrow> linked ?st s' = Some y" for s' y unfolding l using i(5) by simp
  qed (use i(1-3,11) in simp_all)
qed

lemma inv_win:
  assumes inv: "packet_inv ctx bid d sent st" and pc: "ps_pc st t = PLoop s x old" and n: "ctx_n ctx \<le> MAX_N"
    and b: "\<not> old AND sym_bit s \<noteq> 0" and old: "present_mask (ps_block st) ! sym_word s = old"
  shows "packet_inv ctx bid d sent (pgoto t (PLink s x)
     (st\<lparr>ps_block := (ps_block st)\<lparr>present_mask := (present_mask (ps_block st))[sym_word s := old OR sym_bit s]\<rparr>\<rparr>))"
    (is "packet_inv _ _ _ _ ?st")
proof -
  note i = packet_invD [OF inv]
  have t: "s < ctx_n ctx" "ps_mem st x = sent ! unat s" using i(8) [of t] pc by simp_all
  have sN: "s < MAX_N" using t(1) n by simp
  have pres: "is_present (ps_block ?st) y \<longleftrightarrow> is_present (ps_block st) y \<or> y = s" for y
    using is_present_set [OF i(1) sN, of y] old by simp
  have new: "\<not> is_present (ps_block st) s" using b old by (simp add: is_present_def)
  have none: "s \<notin> unlinked (ps_pc st u)" for u using unlinked_present [OF inv] new by blast
  have u: "hand (ps_pc ?st u) = hand (ps_pc st u)" "decoding (ps_pc ?st u) = decoding (ps_pc st u)"
    "unlinked (ps_pc ?st u) = (if u = t then {s} else unlinked (ps_pc st u))" "unlinked (ps_pc st t) = {}" for u
    using pc by simp_all
  have slot: "slot_of (ps_block ?st) y = slot_of (ps_block st) y" for y by simp
  have l: "linked ?st = linked st"
  proof
    fix y show "linked ?st y = linked st y"
    proof (cases "y = s")
      case True
      then have "y \<in> unlinked (ps_pc ?st t)" by simp
      then show ?thesis using new True unfolding linked_def by auto
    next
      case False
      then have "(\<forall>v. y \<notin> unlinked (ps_pc ?st v)) \<longleftrightarrow> (\<forall>v. y \<notin> unlinked (ps_pc st v))" unfolding u(3) using u(4) by auto
      then show ?thesis unfolding linked_def pres slot using False by simp
    qed
  qed
  show ?thesis
  proof (rule packet_invI)
    show "length (present_mask (ps_block ?st)) = 4" "length (slot_idx (ps_block ?st)) = 255" using i(1,2) by simp_all
    show "thread_ok ctx bid d sent ?st (ps_pc ?st v)" for v
    proof (cases "v = t")
      case True
      then show ?thesis using t pres by simp
    next
      case False
      have "thread_ok ctx bid d sent ?st (ps_pc st v)"
      proof (rule thread_ok_cong [OF _ _ _ _ i(8) [of v]])
        show "is_present (ps_block ?st) y" if "is_present (ps_block st) y" for y using pres that by blast
      qed (use l in simp_all)
      then show ?thesis using False by simp
    qed
    show "linked ?st y \<noteq> None" if "decoded (ps_block ?st) \<noteq> DECODE_COMPLETE" "is_present (ps_block ?st) y"
      "\<forall>v. y \<notin> unlinked (ps_pc ?st v)" for y
    proof -
      have "y \<notin> unlinked (ps_pc ?st t)" using that(3) by blast
      then have "y \<noteq> s" by simp
      moreover have "\<forall>v. y \<notin> unlinked (ps_pc st v)" using that(3) u(3,4) by (metis empty_iff)
      ultimately show ?thesis using i(10) [of y] that(1,2) pres unfolding l by simp
    qed
    show "unlinked (ps_pc ?st v) \<inter> unlinked (ps_pc ?st w) = {}" if "v \<noteq> w" for v w unfolding u(3) using i(6) [OF that] none that by auto
    show "v = w" if "decoding (ps_pc ?st v)" "decoding (ps_pc ?st w)" for v w using i(7) that unfolding u(2) by blast
    show "ps_owner ?st y = Hand v \<longleftrightarrow> y \<in> hand (ps_pc ?st v)" for v y unfolding u(1) using i(4) by simp
    show "ps_owner ?st y = Link s' \<longleftrightarrow> linked ?st s' = Some y" for s' y unfolding l using i(5) by simp
    show "ps_mem ?st y = sent ! unat s'" if "linked ?st s' = Some y" for s' y using that i(9) unfolding l by simp
  qed (use i(3,11) in simp_all)
qed


text \<open>The link is stored: the slot passes from the thread to the symbol.\<close>

lemma inv_link:
  assumes inv: "packet_inv ctx bid d sent st" and pc: "ps_pc st t = PLink s x" and n: "ctx_n ctx \<le> MAX_N"
  shows "packet_inv ctx bid d sent (pgoto t PCount
     (set_owner x (Link s) (st\<lparr>ps_block := (ps_block st)\<lparr>slot_idx := (slot_idx (ps_block st))[unat s := x]\<rparr>\<rparr>)))"
    (is "packet_inv _ _ _ _ ?st")
proof -
  note i = packet_invD [OF inv]
  have t: "s < ctx_n ctx" "ps_mem st x = sent ! unat s" "is_present (ps_block st) s" using i(8) [of t] pc by simp_all
  have sN: "s < MAX_N" using t(1) n by simp
  have x: "ps_owner st x = Hand t" using hand_owned [OF inv, of x t] pc by simp
  then have xe: "x \<noteq> kListEnd" using i(3) by auto
  have slot: "slot_of (ps_block ?st) y = (if y = s then x else slot_of (ps_block st) y)" for y
    using slot_of_set [OF i(2) sN, of x y] by simp
  have pres: "is_present (ps_block ?st) y = is_present (ps_block st) y" for y by simp
  have u: "hand (ps_pc ?st u) = (if u = t then {} else hand (ps_pc st u))" "decoding (ps_pc ?st u) = decoding (ps_pc st u)"
    "unlinked (ps_pc ?st u) = (if u = t then {} else unlinked (ps_pc st u))" "unlinked (ps_pc st t) = {s}" "hand (ps_pc st t) = {x}" for u
    using pc by simp_all
  have only: "s \<notin> unlinked (ps_pc st u)" if "u \<noteq> t" for u using i(6) [OF that] u(4) by auto
  have free: "(\<forall>v. y \<notin> unlinked (ps_pc ?st v)) \<longleftrightarrow> y = s \<or> (\<forall>v. y \<notin> unlinked (ps_pc st v))" for y
    unfolding u(3) using only u(4) by (metis empty_iff singletonD)
  have none: "linked st s = None" using u(4) by (auto simp: linked_def)
  have l: "linked ?st = (linked st)(s \<mapsto> x)"
  proof
    fix y show "linked ?st y = ((linked st)(s \<mapsto> x)) y"
      unfolding linked_def [of ?st] free pres slot using t(3) xe by (cases "y = s") (simp_all add: linked_def)
  qed
  show ?thesis
  proof (rule packet_invI)
    show "length (present_mask (ps_block ?st)) = 4" "length (slot_idx (ps_block ?st)) = 255" using i(1,2) by simp_all
    show "thread_ok ctx bid d sent ?st (ps_pc ?st v)" for v
    proof (cases "v = t")
      case True
      then show ?thesis by simp
    next
      case False
      have "thread_ok ctx bid d sent ?st (ps_pc st v)"
        by (rule thread_ok_cong [OF _ _ _ _ i(8) [of v]]) (use none in \<open>auto simp: l\<close>)
      then show ?thesis using False by simp
    qed
    show "linked ?st y \<noteq> None" if "decoded (ps_block ?st) \<noteq> DECODE_COMPLETE" "is_present (ps_block ?st) y"
      "\<forall>v. y \<notin> unlinked (ps_pc ?st v)" for y
      using that(1,2) i(10) [of y] that(3) [unfolded free] unfolding l by auto
    show "unlinked (ps_pc ?st v) \<inter> unlinked (ps_pc ?st w) = {}" if "v \<noteq> w" for v w unfolding u(3) using i(6) [OF that] by auto
    show "v = w" if "decoding (ps_pc ?st v)" "decoding (ps_pc ?st w)" for v w using i(7) that unfolding u(2) by blast
    show "ps_owner ?st y = Hand v \<longleftrightarrow> y \<in> hand (ps_pc ?st v)" for v y
      unfolding u(1) using i(4) [of y v] i(4) [of x v] x u(5) by auto
    show "ps_owner ?st y = Link s' \<longleftrightarrow> linked ?st s' = Some y" for s' y
      unfolding l using i(5) [of y s'] i(5) [of x s'] i(5) [of y s] x none by (cases "y = x"; cases "s' = s") auto
    show "ps_mem ?st y = sent ! unat s'" if "linked ?st s' = Some y" for s' y
      using that i(9) [of s' y] t(2) unfolding l by (cases "s' = s") auto
  qed (use i(3,11) xe in simp_all)
qed

text \<open>A symbol is released: its slot is free again, and the cleared link leaves nothing to free twice.\<close>

lemma inv_release:
  assumes inv: "packet_inv ctx bid d sent st" and pc: "ps_pc st t = PRelease j g" and n: "ctx_n ctx \<le> MAX_N"
    and j: "j < unat (ctx_n ctx)" "g ! j \<noteq> None"
  shows "packet_inv ctx bid d sent (pgoto t (PClear j g) (set_owner (slot_of (ps_block st) (of_nat j)) Free st))"
    (is "packet_inv _ _ _ _ ?st")
proof -
  note i = packet_invD [OF inv]
  let ?s = "of_nat j :: u32"
  have t: "decoded (ps_block st) = DECODE_COMPLETE" "length g = unat (ctx_n ctx)" "gathered st j g" using i(8) [of t] pc by simp_all
  obtain x where gx: "g ! j = Some x" using j(2) by auto
  then have lx: "linked st ?s = Some x" using t(2,3) j(1) by (simp add: gathered_def)
  then have s: "is_present (ps_block st) ?s" "\<forall>v. ?s \<notin> unlinked (ps_pc st v)" "slot_of (ps_block st) ?s = x" "x \<noteq> kListEnd"
    by (auto simp: linked_def split: if_splits)
  have x: "ps_owner st x = Link ?s" by (rule linked_owned [OF inv lx])
  have u: "hand (ps_pc ?st u) = hand (ps_pc st u)" "decoding (ps_pc ?st u) = decoding (ps_pc st u)"
    "unlinked (ps_pc ?st u) = (if u = t then {?s} else unlinked (ps_pc st u))" "unlinked (ps_pc st t) = {}" for u
    using pc by simp_all
  have free: "(\<forall>v. y \<notin> unlinked (ps_pc ?st v)) \<longleftrightarrow> y \<noteq> ?s \<and> (\<forall>v. y \<notin> unlinked (ps_pc st v))" for y
    unfolding u(3) using u(4) by (metis empty_iff insert_iff)
  have l: "linked ?st = (linked st)(?s := None)"
  proof
    fix y show "linked ?st y = ((linked st)(?s := None)) y"
      unfolding linked_def [of ?st] free by (simp add: linked_def)
  qed
  have u32: "(of_nat m :: u32) \<noteq> ?s" if "j < m" "m < length g" for m
    using that t(2) j(1) n u32_of_nat_255 [of m j] by (auto simp: MAX_N_def word_le_nat_alt)
  show ?thesis
  proof (rule packet_invI)
    show "thread_ok ctx bid d sent ?st (ps_pc ?st v)" for v
    proof (cases "v = t")
      case True
      have "gathered ?st (j + 1) g" using t(3) u32 unfolding gathered_def l by auto
      then show ?thesis using True t j s(1) by simp
    next
      case False
      have "\<not> decoding (ps_pc st v)" using others_idle [OF inv _ False] pc by simp
      then have "thread_ok ctx bid d sent ?st (ps_pc st v)" by (intro thread_ok_cong [OF _ _ _ _ i(8) [of v]]) simp_all
      then show ?thesis using False by simp
    qed
    show "linked ?st y \<noteq> None" if "decoded (ps_block ?st) \<noteq> DECODE_COMPLETE" for y using that t(1) by simp
    show "unlinked (ps_pc ?st v) \<inter> unlinked (ps_pc ?st w) = {}" if "v \<noteq> w" for v w
      unfolding u(3) using i(6) [OF that] s(2) that by auto
    show "v = w" if "decoding (ps_pc ?st v)" "decoding (ps_pc ?st w)" for v w using i(7) that unfolding u(2) by blast
    show "ps_owner ?st y = Hand v \<longleftrightarrow> y \<in> hand (ps_pc ?st v)" for v y
      unfolding u(1) using i(4) [of y v] s(3) x by auto
    show "ps_owner ?st y = Link s' \<longleftrightarrow> linked ?st s' = Some y" for s' y
      unfolding l using i(5) [of y s'] i(5) [of x s'] i(5) [of y ?s] s(3) x by (cases "y = x"; cases "s' = ?s") auto
    show "ps_mem ?st y = sent ! unat s'" if "linked ?st s' = Some y" for s' y
      using that i(9) [of s' y] unfolding l by (auto split: if_splits)
  qed (use i(1-3,11) s(3,4) in simp_all)
qed

lemma inv_clear:
  assumes inv: "packet_inv ctx bid d sent st" and pc: "ps_pc st t = PClear j g" and n: "ctx_n ctx \<le> MAX_N"
  shows "packet_inv ctx bid d sent (pgoto t (PRelease (j + 1) g) (st\<lparr>ps_block := clear_slot (of_nat j) (ps_block st)\<rparr>))"
    (is "packet_inv _ _ _ _ ?st")
proof -
  note i = packet_invD [OF inv]
  let ?s = "of_nat j :: u32"
  have t: "decoded (ps_block st) = DECODE_COMPLETE" "length g = unat (ctx_n ctx)" "gathered st (j + 1) g" "j < length g"
    using i(8) [of t] pc by simp_all
  have "unat (ctx_n ctx) \<le> 255" using n by (simp add: MAX_N_def word_le_nat_alt)
  then have sN: "?s < MAX_N" using t(2,4) unat_of_nat_small [of j, where 'a = 32] by (simp add: MAX_N_less)
  have u: "hand (ps_pc ?st u) = hand (ps_pc st u)" "decoding (ps_pc ?st u) = decoding (ps_pc st u)"
    "unlinked (ps_pc ?st u) = (if u = t then {} else unlinked (ps_pc st u))" "unlinked (ps_pc st t) = {?s}" for u
    using pc by simp_all
  have free: "(\<forall>v. y \<notin> unlinked (ps_pc ?st v)) \<longleftrightarrow> y = ?s \<or> (\<forall>v. y \<notin> unlinked (ps_pc st v))" for y
    unfolding u(3) using i(6) [of _ t] u(4) by (metis disjoint_insert(1) empty_iff singletonD)
  have e: "is_present (ps_block ?st) y = is_present (ps_block st) y" "decoded (ps_block ?st) = decoded (ps_block st)"
    "slot_of (ps_block ?st) y = (if y = ?s then kListEnd else slot_of (ps_block st) y)" for y
    using slot_of_clear [OF i(2) sN, of y] by (simp_all add: clear_slot_def)
  have l: "linked ?st = linked st"
  proof
    fix y show "linked ?st y = linked st y"
      unfolding linked_def free e using u(4) by (cases "y = ?s") auto
  qed
  show ?thesis
  proof (rule packet_invI)
    show "length (present_mask (ps_block ?st)) = 4" "length (slot_idx (ps_block ?st)) = 255" using i(1,2) by (simp_all add: clear_slot_def)
    show "thread_ok ctx bid d sent ?st (ps_pc ?st v)" for v
    proof (cases "v = t")
      case True
      then show ?thesis using t e(2) gathered_mono [OF t(3), of ?st] l by simp
    next
      case False
      have "thread_ok ctx bid d sent ?st (ps_pc st v)"
        by (rule thread_ok_cong [OF _ _ _ _ i(8) [of v]]) (use l e in simp_all)
      then show ?thesis using False by simp
    qed
    show "linked ?st y \<noteq> None" if "decoded (ps_block ?st) \<noteq> DECODE_COMPLETE" for y using that t(1) e(2) by simp
    show "unlinked (ps_pc ?st v) \<inter> unlinked (ps_pc ?st w) = {}" if "v \<noteq> w" for v w unfolding u(3) using i(6) [OF that] by auto
    show "v = w" if "decoding (ps_pc ?st v)" "decoding (ps_pc ?st w)" for v w using i(7) that unfolding u(2) by blast
    show "ps_owner ?st y = Hand v \<longleftrightarrow> y \<in> hand (ps_pc ?st v)" for v y unfolding u(1) using i(4) by simp
    show "ps_owner ?st y = Link s' \<longleftrightarrow> linked ?st s' = Some y" for s' y unfolding l using i(5) by simp
    show "ps_mem ?st y = sent ! unat s'" if "linked ?st s' = Some y" for s' y using that i(9) unfolding l by simp
  qed (use i(3,11) e(2) in simp_all)
qed


text \<open>The decoder's own transitions.\<close>

lemma inv_claim:
  assumes inv: "packet_inv ctx bid d sent st" and pc: "ps_pc st t = PClaim" and c: "decoded (ps_block st) = DECODE_PENDING"
  shows "packet_inv ctx bid d sent (pgoto t (PGather []) (st\<lparr>ps_block := (ps_block st)\<lparr>decoded := DECODE_CLAIMED\<rparr>\<rparr>))"
    (is "packet_inv _ _ _ _ ?st")
proof -
  note i = packet_invD [OF inv]
  have nd: "\<not> decoding (ps_pc st u)" for u
    using i(8) [of u] c by (cases "ps_pc st u") (auto simp: decode_states)
  have u: "hand (ps_pc ?st u) = hand (ps_pc st u)" "unlinked (ps_pc ?st u) = unlinked (ps_pc st u)"
    "decoding (ps_pc ?st u) \<longleftrightarrow> u = t" for u
    using pc nd by simp_all
  have l: "linked ?st = linked st" by (rule linked_same [OF _ _ u(2)]) simp_all
  show ?thesis
  proof (rule packet_invI)
    show "thread_ok ctx bid d sent ?st (ps_pc ?st v)" for v
    proof (cases "v = t")
      case True
      then show ?thesis by (simp add: gathered_def)
    next
      case False
      have "thread_ok ctx bid d sent ?st (ps_pc st v)" using nd [of v] by (intro thread_ok_cong [OF _ _ _ _ i(8) [of v]]) simp_all
      then show ?thesis using False by simp
    qed
    show "linked ?st y \<noteq> None" if "decoded (ps_block ?st) \<noteq> DECODE_COMPLETE" "is_present (ps_block ?st) y"
      "\<forall>v. y \<notin> unlinked (ps_pc ?st v)" for y
      using that i(10) [of y] c unfolding u(2) l by (simp add: decode_states)
    show "unlinked (ps_pc ?st v) \<inter> unlinked (ps_pc ?st w) = {}" if "v \<noteq> w" for v w unfolding u(2) by (rule i(6) [OF that])
    show "v = w" if "decoding (ps_pc ?st v)" "decoding (ps_pc ?st w)" for v w using that unfolding u(3) by simp
    show "ps_owner ?st y = Hand v \<longleftrightarrow> y \<in> hand (ps_pc ?st v)" for v y unfolding u(1) using i(4) by simp
    show "ps_owner ?st y = Link s' \<longleftrightarrow> linked ?st s' = Some y" for s' y unfolding l using i(5) by simp
    show "ps_mem ?st y = sent ! unat s'" if "linked ?st s' = Some y" for s' y using that i(9) unfolding l by simp
  qed (use i(1-3) in \<open>simp_all add: decode_states\<close>)
qed

lemma inv_mark:
  assumes inv: "packet_inv ctx bid d sent st" and pc: "ps_pc st t = PMark g"
  shows "packet_inv ctx bid d sent (pgoto t (PRelease 0 g) (st\<lparr>ps_block := (ps_block st)\<lparr>decoded := DECODE_COMPLETE\<rparr>\<rparr>))"
    (is "packet_inv _ _ _ _ ?st")
proof -
  note i = packet_invD [OF inv]
  have t: "length g = unat (ctx_n ctx)" "gathered st 0 g" "stored (ctx_writer ctx) bid d (ps_file st)" using i(8) [of t] pc by simp_all
  have u: "hand (ps_pc ?st u) = hand (ps_pc st u)" "unlinked (ps_pc ?st u) = unlinked (ps_pc st u)"
    "decoding (ps_pc ?st u) = decoding (ps_pc st u)" for u
    using pc by simp_all
  have l: "linked ?st = linked st" by (rule linked_same [OF _ _ u(2)]) simp_all
  show ?thesis
  proof (rule packet_invI)
    show "thread_ok ctx bid d sent ?st (ps_pc ?st v)" for v
    proof (cases "v = t")
      case True
      then show ?thesis using t gathered_mono [OF t(2), of ?st] l by simp
    next
      case False
      have "\<not> decoding (ps_pc st v)" using others_idle [OF inv _ False] pc by simp
      then have "thread_ok ctx bid d sent ?st (ps_pc st v)" by (intro thread_ok_cong [OF _ _ _ _ i(8) [of v]]) simp_all
      then show ?thesis using False by simp
    qed
    show "unlinked (ps_pc ?st v) \<inter> unlinked (ps_pc ?st w) = {}" if "v \<noteq> w" for v w unfolding u(2) by (rule i(6) [OF that])
    show "v = w" if "decoding (ps_pc ?st v)" "decoding (ps_pc ?st w)" for v w using i(7) that unfolding u(3) by blast
    show "ps_owner ?st y = Hand v \<longleftrightarrow> y \<in> hand (ps_pc ?st v)" for v y unfolding u(1) using i(4) by simp
    show "ps_owner ?st y = Link s' \<longleftrightarrow> linked ?st s' = Some y" for s' y unfolding l using i(5) by simp
    show "ps_mem ?st y = sent ! unat s'" if "linked ?st s' = Some y" for s' y using that i(9) unfolding l by simp
  qed (use i(1-3) t(3) in simp_all)
qed

text \<open>The gathered arrays are part of the codeword, so the codec returns the data or fails.\<close>

lemma pointed_decodes:
  assumes inv: "packet_inv ctx bid (concat data) (sent_symbols (env_lib env) ctx data) st" and pc: "ps_pc st t = PDecode g"
    and cod: "ctx_coded env ctx data" and n: "ctx_n ctx \<le> MAX_N"
    and dec: "rs_decode (env_lib env) (ctx_codec ctx) (pointed_symbols (ps_mem st) g) (pointed_present g) = Some bytes"
  shows "bytes = concat data"
proof -
  note i = packet_invD [OF inv]
  have g: "length g = unat (ctx_n ctx)" "gathered st 0 g" using i(8) [of t] pc by simp_all
  have n255: "unat (ctx_n ctx) \<le> 255" using n by (simp add: MAX_N_def word_le_nat_alt)
  have "pointed_symbols (ps_mem st) g ! j = (data @ encode_for_testing (env_lib env) (ctx_codec ctx) data) ! j"
    if j: "j < unat (ctx_n ctx)" "pointed_present g ! j" for j
  proof -
    obtain x where x: "g ! j = Some x" using j n255 by (auto simp: pointed_present_def MAX_N_def)
    then have "linked st (of_nat j) = Some x" using g j(1) by (simp add: gathered_def)
    then have "ps_mem st x = sent_symbols (env_lib env) ctx data ! unat (of_nat j :: u32)" by (rule i(9))
    moreover have "unat (of_nat j :: u32) = j" using j(1) n255 by (simp add: unat_of_nat_small)
    ultimately show ?thesis using x j(1) g(1) n255 by (simp add: pointed_symbols_def MAX_N_def sent_symbols_def)
  qed
  then show ?thesis
    using rs_code.decoded_is_data [OF ctx_coding_suits(1) [OF cod], of "pointed_present g" "pointed_symbols (ps_mem st) g" bytes] dec
    unfolding ctx_coding_suits(2) [OF cod] by (simp add: ctx_coding_def)
qed


lemma block_bytes_length:
  assumes "ctx_coded env ctx data"
  shows "length (concat data) = unat (bw_block_bytes (ctx_writer ctx))"
  using assms length_concat_rows [of data "unat (ctx_symbol_bytes ctx)"] by (simp add: ctx_coded_def)

lemma inv_write:
  assumes inv: "packet_inv ctx bid (concat data) sent st" and pc: "ps_pc st t = PWrite g bytes" and cod: "ctx_coded env ctx data"
    and w: "write_block (ctx_writer ctx) bid bytes (ps_file st) = (ok, f)"
  shows "packet_inv ctx bid (concat data) sent (pgoto t (if ok then PFlush g else PIdle) (st\<lparr>ps_file := f\<rparr>))" (is "packet_inv _ _ _ _ ?st")
proof -
  note t = packet_invD(8) [OF inv, of t, unfolded pc, simplified]
  have "cached f (block_off (ctx_writer ctx) bid + i) = concat data ! i" if "ok" "i < block_len (ctx_writer ctx) bid" for i
    using w that t block_bytes_length [OF cod]
    by (auto simp: write_block_cases mem_write_def block_len_def min_def split: if_splits)
  moreover have "block_off (ctx_writer ctx) bid < unat (bw_file_size (ctx_writer ctx))" if "ok"
    using w that by (auto simp: write_block_cases split: if_splits)
  ultimately have own: "thread_ok ctx bid (concat data) sent ?st (if ok then PFlush g else PIdle)" if "linked ?st = linked st"
    using t gathered_mono [of st 0 g ?st] that by (cases ok) simp_all
  show ?thesis
  proof (rule inv_control [OF inv, of _ t])
    show "ps_block ?st = (ps_block st)\<lparr>seen := seen (ps_block st)\<rparr>" by simp
    show "thread_ok ctx bid (concat data) sent ?st (ps_pc st u)" if "u \<noteq> t" "thread_ok ctx bid (concat data) sent st (ps_pc st u)" for u
      using others_idle [OF inv _ that(1)] pc by (intro thread_ok_cong [OF _ _ _ _ that(2)]) simp_all
  qed (use own t in \<open>simp_all add: pc decode_states\<close>)
qed

lemma inv_flush:
  assumes inv: "packet_inv ctx bid d sent st" and pc: "ps_pc st t = PFlush g"
    and w: "flush_block os (ctx_writer ctx) bid (ps_file st) = (ok, f)"
  shows "packet_inv ctx bid d sent (pgoto t (if ok then PMark g else PIdle) (st\<lparr>ps_file := f\<rparr>))" (is "packet_inv _ _ _ _ ?st")
proof -
  note t = packet_invD(8) [OF inv, of t, unfolded pc, simplified]
  have "stored (ctx_writer ctx) bid d f" if "ok"
  proof -
    have "flush_block os (ctx_writer ctx) bid (ps_file st) = (True, f)" using w that by simp
    from flush_range [OF this] t obtain lo where "cached f = cached (ps_file st)" "lo \<le> block_off (ctx_writer ctx) bid"
      "\<forall>a. durable f a = (if lo \<le> a \<and> a < block_off (ctx_writer ctx) bid + block_len (ctx_writer ctx) bid
         then cached (ps_file st) a else durable (ps_file st) a)" by blast
    then show ?thesis using t by (simp add: stored_def)
  qed
  then have own: "thread_ok ctx bid d sent ?st (if ok then PMark g else PIdle)" if "linked ?st = linked st"
    using t gathered_mono [of st 0 g ?st] that by (cases ok) simp_all
  show ?thesis
  proof (rule inv_control [OF inv, of _ t])
    show "ps_block ?st = (ps_block st)\<lparr>seen := seen (ps_block st)\<rparr>" by simp
    show "thread_ok ctx bid d sent ?st (ps_pc st u)" if "u \<noteq> t" "thread_ok ctx bid d sent st (ps_pc st u)" for u
      using others_idle [OF inv _ that(1)] pc by (intro thread_ok_cong [OF _ _ _ _ that(2)]) simp_all
  qed (use own t in \<open>simp_all add: pc decode_states\<close>)
qed

lemma inv_other_file:
  assumes inv: "packet_inv ctx bid d sent st" and f: "same_block_bytes (ctx_writer ctx) bid (ps_file st) f"
  shows "packet_inv ctx bid d sent (st\<lparr>ps_file := f\<rparr>)" (is "packet_inv _ _ _ _ ?st")
proof -
  have st: "stored (ctx_writer ctx) bid d (ps_file st) \<Longrightarrow> stored (ctx_writer ctx) bid d f"
    using f unfolding same_block_bytes_def stored_def Let_def by metis
  have ok: "thread_ok ctx bid d sent ?st p" if "linked ?st = linked st" "thread_ok ctx bid d sent st p" for p
    using that st f gathered_mono [of st _ _ ?st] by (cases p) (auto simp: same_block_bytes_def Let_def)
  show ?thesis
  proof (rule inv_control [OF inv, of _ 0 "ps_pc st 0"])
    show "ps_block ?st = (ps_block st)\<lparr>seen := seen (ps_block st)\<rparr>" by simp
    show "linked ?st = linked st \<Longrightarrow> thread_ok ctx bid d sent ?st (ps_pc st 0)" using ok packet_invD(8) [OF inv] by blast
    show "linked ?st = linked st \<Longrightarrow> thread_ok ctx bid d sent st (ps_pc st u) \<Longrightarrow> thread_ok ctx bid d sent ?st (ps_pc st u)" for u
      using ok by blast
  qed (use st in simp_all)
qed

lemma inv_other_write:
  assumes inv: "packet_inv ctx bid d sent st" and x: "ps_owner st x = Elsewhere"
  shows "packet_inv ctx bid d sent (st\<lparr>ps_mem := (ps_mem st)(x := bytes)\<rparr>)" (is "packet_inv _ _ _ _ ?st")
proof -
  note i = packet_invD [OF inv]
  have l: "linked ?st = linked st" by (rule linked_same) simp_all
  show ?thesis
  proof (rule packet_invI)
    show "thread_ok ctx bid d sent ?st (ps_pc ?st v)" for v
    proof -
      have "ps_mem ?st y = ps_mem st y" if "y \<in> hand (ps_pc st v)" for y using hand_owned [OF inv that] x by auto
      then have "thread_ok ctx bid d sent ?st (ps_pc st v)" using l by (intro thread_ok_cong [OF _ _ _ _ i(8) [of v]]) simp_all
      then show ?thesis by simp
    qed
    show "ps_mem ?st y = sent ! unat s" if "linked ?st s = Some y" for s y
      using that i(9) [of s y] linked_owned [OF inv, of s y] x unfolding l by auto
    show "linked ?st s \<noteq> None" if "decoded (ps_block ?st) \<noteq> DECODE_COMPLETE" "is_present (ps_block ?st) s"
      "\<forall>v. s \<notin> unlinked (ps_pc ?st v)" for s using that i(10) [of s] unfolding l by simp
    show "unlinked (ps_pc ?st v) \<inter> unlinked (ps_pc ?st w) = {}" if "v \<noteq> w" for v w using i(6) [OF that] by simp
    show "v = w" if "decoding (ps_pc ?st v)" "decoding (ps_pc ?st w)" for v w using i(7) that by simp
    show "ps_owner ?st y = Link s \<longleftrightarrow> linked ?st s = Some y" for s y unfolding l using i(5) by simp
  qed (use i(1-4,11) in simp_all)
qed


section \<open>Every step keeps the invariant\<close>

lemma inv_move:
  assumes inv: "packet_inv ctx bid (concat data) (sent_symbols (env_lib env) ctx data) st" (is "packet_inv _ _ ?d ?sent _")
    and cod: "ctx_coded env ctx data" and n: "ctx_n ctx \<le> MAX_N"
    and careful: "\<not> reads_unpublished t st" and step: "thread_step env ctx bid t slot st = Some st'"
  shows "packet_inv ctx bid ?d ?sent st'"
proof -
  note i = packet_invD [OF inv] and ok = packet_invD(8) [OF inv, of t]
  note go = inv_goto [OF inv, of _ t]
  show ?thesis
  proof (cases "ps_pc st t")
    case (PAlloc s p)
    show ?thesis
    proof (cases slot)
      case (Some x)
      then have x: "ps_owner st x = Free" and st': "st' = pgoto t (PCopy s p x) (set_owner x (Hand t) st)"
        using step PAlloc by (auto simp: thread_step_def Let_def split: if_splits)
      moreover have "x \<noteq> kListEnd" using x i(3) by auto
      ultimately show ?thesis unfolding st' using PAlloc ok by (intro inv_owner [OF inv x]) auto
    next
      case None
      then show ?thesis using step PAlloc go [of PIdle] by (simp add: thread_step_def Let_def)
    qed
  next
    case (PDrop x)
    have x: "ps_owner st x = Hand t" using hand_owned [OF inv, of x t] PDrop by simp
    moreover have "x \<noteq> kListEnd" using x i(3) by auto
    moreover have "st' = pgoto t PIdle (set_owner x Free st)" using step PDrop by (simp add: thread_step_def Let_def)
    ultimately show ?thesis using PDrop by (auto intro!: inv_owner [OF inv x])
  next
    case (PLoop s x old)
    then show ?thesis using step ok inv_win [OF inv PLoop n]
      by (auto simp: thread_step_def Let_def intro!: go split: if_splits)
  next
    case PCount
    show ?thesis
    proof (rule inv_control [OF inv, of _ t PSeen])
      show "thread_ok ctx bid ?d ?sent st' (ps_pc st u)" if "linked st' = linked st" "thread_ok ctx bid ?d ?sent st (ps_pc st u)" for u
        using that step PCount by (intro thread_ok_cong [OF _ _ _ _ that(2)]) (simp_all add: thread_step_def Let_def, auto)
    qed (use step PCount in \<open>auto simp: thread_step_def Let_def\<close>)
  next
    case (PGather g)
    then show ?thesis using step ok
      by (auto simp: thread_step_def Let_def gathered_def nth_append less_Suc_eq_le intro!: go split: if_splits)
  next
    case (PPoint g)
    let ?s = "of_nat (length g) :: u32"
    have g: "decoded (ps_block st) = DECODE_CLAIMED" "length g < unat (ctx_n ctx)" "gathered st 0 g" "is_present (ps_block st) ?s"
      using ok PPoint by simp_all
    have "?s \<notin> unlinked (ps_pc st u)" for u
    proof
      assume u: "?s \<in> unlinked (ps_pc st u)"
      then consider x where "ps_pc st u = PLink ?s x" | j h where "ps_pc st u = PClear j h" by (cases "ps_pc st u") auto
      then show False
      proof cases
        case 1
        then show ?thesis using careful PPoint unfolding reads_unpublished_def by blast
      next
        case 2
        then show ?thesis using i(8) [of u] g(1) by (simp add: decode_states)
      qed
    qed
    then have "linked st ?s = Some (slot_of (ps_block st) ?s)"
      using i(10) [of ?s] g(1,4) by (auto simp: linked_def decode_states split: if_splits)
    then have "gathered st 0 (g @ [Some (slot_of (ps_block st) ?s)])"
      using g(3) by (auto simp: gathered_def nth_append less_Suc_eq)
    moreover have "st' = pgoto t (PGather (g @ [Some (slot_of (ps_block st) ?s)])) st"
      using step PPoint by (simp add: thread_step_def Let_def)
    ultimately show ?thesis using g PPoint by (auto intro!: go)
  next
    case (PDecode g)
    show ?thesis
      using step ok PDecode pointed_decodes [OF inv PDecode cod n]
      by (auto simp: thread_step_def Let_def intro!: go split: option.splits)
  next
    case (PWrite g bytes)
    obtain r f where w: "write_block (ctx_writer ctx) bid bytes (ps_file st) = (r, f)" by fastforce
    then show ?thesis using step PWrite inv_write [OF inv PWrite cod w] by (simp add: thread_step_def Let_def)
  next
    case (PFlush g)
    obtain r f where w: "flush_block (env_os env) (ctx_writer ctx) bid (ps_file st) = (r, f)" by fastforce
    then show ?thesis using step PFlush inv_flush [OF inv PFlush w] by (simp add: thread_step_def Let_def)
  next
    case PClaim
    then show ?thesis using step inv_claim [OF inv PClaim]
      by (auto simp: thread_step_def Let_def try_claim_decode_def intro!: go split: if_splits)
  next
    case (PMark g)
    then show ?thesis using step ok inv_mark [OF inv PMark]
      by (auto simp: thread_step_def Let_def mark_decode_complete_def intro!: go split: if_splits)
  next
    case (PRelease j g)
    then show ?thesis using step ok inv_release [OF inv PRelease n]
      by (auto simp: thread_step_def Let_def gathered_def intro!: go split: if_splits)
  next
    case (PCopy s p x)
    then show ?thesis using step inv_copy [OF inv PCopy] by (simp add: thread_step_def Let_def)
  next
    case (PLink s x)
    then show ?thesis using step inv_link [OF inv PLink n] by (simp add: thread_step_def Let_def)
  next
    case (PClear j g)
    then show ?thesis using step inv_clear [OF inv PClear n] by (simp add: thread_step_def Let_def)
  qed (use step ok in \<open>auto simp: thread_step_def Let_def intro!: go split: if_splits\<close>)
qed


lemma packet_reachable_inv:
  assumes "packet_reachable careful env ctx bid (sent_symbols (env_lib env) ctx data) st" and "careful"
    and "ctx_coded env ctx data" and "ctx_n ctx \<le> MAX_N"
  shows "packet_inv ctx bid (concat data) (sent_symbols (env_lib env) ctx data) st"
  using assms
proof (induction rule: packet_reachable.induct)
  case (start own mem f)
  have "\<not> is_present zero_block s" for s using links_zero_block by (auto simp: links_def fun_eq_iff split: if_splits)
  then have l: "linked \<lparr>ps_block = zero_block, ps_owner = own, ps_mem = mem, ps_file = f, ps_pc = (\<lambda>_. PIdle)\<rparr> s = None" for s
    by (simp add: linked_def)
  have "own x \<noteq> Hand t" "own x \<noteq> Link s" for x t s using start(1) by (metis owner.distinct)+
  moreover have "decoded zero_block = DECODE_PENDING" by (simp add: zero_block_def decode_states)
  moreover have "length (present_mask zero_block) = 4" "length (slot_idx zero_block) = 255"
    using block_wf_zero by (simp_all add: block_wf_def)
  ultimately show ?case
    using start(2) l \<open>\<And>s. \<not> is_present zero_block s\<close> by (intro packet_invI) (simp_all add: decode_states)
next
  case (arrive st t s)
  then show ?case by (intro inv_goto) simp_all
next
  case (move st t slot st')
  have "\<not> reads_unpublished t st" using move.hyps(2) move.prems(1) by blast
  then show ?case by (rule inv_move [OF move.IH [OF move.prems] move.prems(2,3) _ move.hyps(3)])
next
  case (other_alloc st x)
  then have inv: "packet_inv ctx bid (concat data) (sent_symbols (env_lib env) ctx data) st" by simp
  have "x \<notin> hand (ps_pc st 0)" "x \<noteq> kListEnd" using packet_invD(3,4) [OF inv] other_alloc(2) by (metis owner.distinct)+
  then have "packet_inv ctx bid (concat data) (sent_symbols (env_lib env) ctx data) (pgoto 0 (ps_pc st 0) (set_owner x Elsewhere st))"
    using packet_invD(8) [OF inv, of 0] by (intro inv_owner [OF inv other_alloc(2)]) simp_all
  then show ?case by (simp add: pgoto_def set_owner_def)
next
  case (other_free st x)
  then have inv: "packet_inv ctx bid (concat data) (sent_symbols (env_lib env) ctx data) st" by simp
  have "x \<notin> hand (ps_pc st 0)" using packet_invD(4) [OF inv] other_free(2) by (metis owner.distinct)
  then have "packet_inv ctx bid (concat data) (sent_symbols (env_lib env) ctx data) (pgoto 0 (ps_pc st 0) (set_owner x Free st))"
    using packet_invD(8) [OF inv, of 0] other_free(3) by (intro inv_owner [OF inv other_free(2)]) simp_all
  then show ?case by (simp add: pgoto_def set_owner_def)
qed (simp_all add: inv_other_write inv_other_file)

section \<open>Properties\<close>

text \<open>A slot is in one place: free, elsewhere, in the hands of one handler, or held by one symbol of the block.\<close>

definition one_place :: "PacketState \<Rightarrow> u32 \<Rightarrow> bool" where
  "one_place st x \<longleftrightarrow>
     (case ps_owner st x of
        Hand t \<Rightarrow> {u. x \<in> hand (ps_pc st u)} = {t} \<and> {s. linked st s = Some x} = {}
      | Link s \<Rightarrow> {u. x \<in> hand (ps_pc st u)} = {} \<and> {s. linked st s = Some x} = {s}
      | _ \<Rightarrow> {u. x \<in> hand (ps_pc st u)} = {} \<and> {s. linked st s = Some x} = {})"

text \<open>
  C6: handlers of one block in any number of processes, access by access.  In every interleaving, with other
  sessions allocating, writing and freeing slots and writing and syncing the rest of the file at any time: as
  long as no decoder reads the link of a symbol between its registration's two stores (\<open>PacketRefine\<close> shows why
  that is needed), every slot is in one place, so none leaks and none is freed twice; at most one thread
  decodes; and once the block is complete its bytes are the sender's, in the cached and the durable file.
  When all handlers have returned, the slots of the block are those its entry links, where the purge finds them.
\<close>

theorem racing_packets_safe:
  assumes "packet_reachable True env ctx bid (sent_symbols (env_lib env) ctx data) st"
    and "ctx_coded env ctx data" and "ctx_n ctx \<le> MAX_N"
  shows "(\<forall>x. one_place st x) \<and> (\<forall>t u. decoding (ps_pc st t) \<longrightarrow> decoding (ps_pc st u) \<longrightarrow> t = u) \<and>
     (decoded (ps_block st) = DECODE_COMPLETE \<longrightarrow> stored (ctx_writer ctx) bid (concat data) (ps_file st)) \<and>
     ((\<forall>t. ps_pc st t = PIdle) \<longrightarrow>
        (\<forall>x s. ps_owner st x = Link s \<longleftrightarrow> links (ps_block st) s = Some x \<and> x \<noteq> SLOT_IDX_FREE))"
proof (intro conjI)
  note inv = packet_reachable_inv [OF assms(1) _ assms(2,3), simplified]
  note i = packet_invD [OF inv]
  have "{u. x \<in> hand (ps_pc st u)} = {u. ps_owner st x = Hand u}" "{s. linked st s = Some x} = {s. ps_owner st x = Link s}" for x
    using i(4,5) by simp_all
  then have "one_place st x" for x unfolding one_place_def by (cases "ps_owner st x") (simp_all add: singleton_conv2)
  then show "\<forall>x. one_place st x" by blast
  show "\<forall>t u. decoding (ps_pc st t) \<longrightarrow> decoding (ps_pc st u) \<longrightarrow> t = u" using i(7) by blast
  show "decoded (ps_block st) = DECODE_COMPLETE \<longrightarrow> stored (ctx_writer ctx) bid (concat data) (ps_file st)" using i(11) by blast
  show "(\<forall>t. ps_pc st t = PIdle) \<longrightarrow> (\<forall>x s. ps_owner st x = Link s \<longleftrightarrow> links (ps_block st) s = Some x \<and> x \<noteq> SLOT_IDX_FREE)"
    unfolding i(5) by (auto simp: linked_def links_def split: if_splits)
qed


section \<open>Schedules\<close>

text \<open>A schedule says which packet arrives where, which thread moves next and which slot the allocator hands out.\<close>

datatype action = Arrive nat u32 | Move nat "u32 option"

definition careful_step :: "nat list \<Rightarrow> nat \<Rightarrow> PacketState \<Rightarrow> bool" where
  "careful_step threads t st =
     (case ps_pc st t of
        PPoint g \<Rightarrow> list_all (\<lambda>u. case ps_pc st u of PLink s x \<Rightarrow> s \<noteq> of_nat (length g) | _ \<Rightarrow> True) threads
      | _ \<Rightarrow> True)"

fun run_schedule :: "bool \<Rightarrow> nat list \<Rightarrow> Env \<Rightarrow> SessionContext \<Rightarrow> u32 \<Rightarrow> u8 list list \<Rightarrow> action list \<Rightarrow> PacketState \<Rightarrow> PacketState option"
where
  "run_schedule careful threads env ctx bid sent [] st = Some st"
| "run_schedule careful threads env ctx bid sent (Arrive t s # as) st =
     (if t \<in> set threads \<and> ps_pc st t = PIdle \<and> s < ctx_n ctx
      then run_schedule careful threads env ctx bid sent as (pgoto t (PState s (sent ! unat s)) st) else None)"
| "run_schedule careful threads env ctx bid sent (Move t slot # as) st =
     (if t \<in> set threads \<and> (careful \<longrightarrow> careful_step threads t st)
      then (case thread_step env ctx bid t slot st of None \<Rightarrow> None
            | Some st' \<Rightarrow> run_schedule careful threads env ctx bid sent as st')
      else None)"

lemma thread_step_others:
  assumes "thread_step env ctx bid t slot st = Some st'" and "u \<noteq> t"
  shows "ps_pc st' u = ps_pc st u"
  using assms by (cases "ps_pc st t") (auto simp: thread_step_def Let_def split: option.splits prod.splits bool.splits if_splits)

lemma run_reachable:
  assumes "run_schedule careful threads env ctx bid sent as st = Some st'" and "packet_reachable careful env ctx bid sent st"
    and "\<forall>u. u \<notin> set threads \<longrightarrow> ps_pc st u = PIdle"
  shows "packet_reachable careful env ctx bid sent st'"
  using assms
proof (induction as arbitrary: st)
  case (Cons a as)
  show ?case
  proof (cases a)
    case (Arrive t s)
    then show ?thesis
      using Cons.prems Cons.IH [of "pgoto t (PState s (sent ! unat s)) st"] packet_reachable.arrive [OF Cons.prems(2), of t s]
      by (auto split: if_splits)
  next
    case (Move t slot)
    then obtain st1 where t: "t \<in> set threads" "careful \<longrightarrow> careful_step threads t st"
      and st1: "thread_step env ctx bid t slot st = Some st1"
      and run: "run_schedule careful threads env ctx bid sent as st1 = Some st'"
      using Cons.prems(1) by (auto split: if_splits option.splits)
    have "\<not> reads_unpublished t st" if c: "careful_step threads t st"
    proof
      assume "reads_unpublished t st"
      then obtain g u x where g: "ps_pc st t = PPoint g" "ps_pc st u = PLink (of_nat (length g)) x" unfolding reads_unpublished_def by blast
      then have "u \<in> set threads" using Cons.prems(3) by (metis ppc.distinct(13))
      then show False using c g by (auto simp: careful_step_def list_all_iff)
    qed
    then have "packet_reachable careful env ctx bid sent st1"
      using t(2) by (intro packet_reachable.move [OF Cons.prems(2) _ st1]) blast
    moreover have "\<forall>u. u \<notin> set threads \<longrightarrow> ps_pc st1 u = PIdle" using thread_step_others [OF st1] t(1) Cons.prems(3) by metis
    ultimately show ?thesis by (rule Cons.IH [OF run])
  qed
qed simp

text \<open>A session of one data symbol and one parity symbol; slot 0 belongs to another session.\<close>

definition pair_env :: Env where
  "pair_env = \<lparr>env_mgr = attached_mgr, env_lib = isal_1_1, env_os = os_ok\<rparr>"

definition pair_ctx :: SessionContext where
  "pair_ctx = \<lparr>ctx_session_idx = 0, ctx_k = 1, ctx_n = 2, ctx_symbol_bytes = 1, ctx_codec = new_codec isal_1_1 1 2 1,
     ctx_writer = \<lparr>bw_fd = 4, bw_mapped = True, bw_file_size = 1, bw_block_bytes = 1, bw_path = ''/d''\<rparr>\<rparr>"

definition pair_start :: PacketState where
  "pair_start = \<lparr>ps_block = zero_block, ps_owner = (\<lambda>x. if x = 5 \<or> x = 7 then Free else Elsewhere),
     ps_mem = (\<lambda>x. if x = 0 then [9] else []), ps_file = \<lparr>cached = (\<lambda>_. 0), durable = (\<lambda>_. 0)\<rparr>, ps_pc = (\<lambda>_. PIdle)\<rparr>"

definition moves :: "nat \<Rightarrow> nat \<Rightarrow> action list" where
  "moves t m = replicate m (Move t (Some (if t = 0 then 7 else 5)))"

lemma pair_coded: "ctx_coded pair_env pair_ctx [[1]]" "sent_symbols (env_lib pair_env) pair_ctx [[1]] = [[1], [1]]"
proof -
  show "ctx_coded pair_env pair_ctx [[1]]"
    using isal_1_1_documented isal_1_1_cauchy by (simp add: ctx_coded_def pair_env_def pair_ctx_def)
  show "sent_symbols (env_lib pair_env) pair_ctx [[1]] = [[1], [1]]"
    by (simp add: sent_symbols_def pair_env_def pair_ctx_def encode_for_testing_def new_codec_def isal_1_1_def mat_apply_def Let_def)
qed

text \<open>Its block entries during the runs below, by the word of presence bits, the links, \<open>seen\<close> and \<open>decoded\<close>.\<close>

definition pair_entry :: "u64 \<Rightarrow> u32 list \<Rightarrow> u32 \<Rightarrow> u32 \<Rightarrow> BlockEntry" where
  "pair_entry m sl c dec = \<lparr>present_mask = [m, 0, 0, 0], seen = c, decoded = dec, slot_idx = sl\<rparr>"

lemma pair_entry_sel:
  "present_mask (pair_entry m sl c dec) = [m, 0, 0, 0]" "seen (pair_entry m sl c dec) = c" "decoded (pair_entry m sl c dec) = dec"
  "(pair_entry m sl c dec)\<lparr>present_mask := [m', 0, 0, 0]\<rparr> = pair_entry m' sl c dec"
  "(pair_entry m sl c dec)\<lparr>seen := c'\<rparr> = pair_entry m sl c' dec" "(pair_entry m sl c dec)\<lparr>decoded := dec'\<rparr> = pair_entry m sl c dec'"
  "slot_idx (pair_entry m sl c dec) = sl" "(pair_entry m sl c dec)\<lparr>slot_idx := sl'\<rparr> = pair_entry m sl' c dec"
  "clear_slot 0 (pair_entry m sl c dec) = pair_entry m (array_write sl 0 0xFFFFFFFF) c dec"
  "clear_slot 1 (pair_entry m sl c dec) = pair_entry m (array_write sl 1 0xFFFFFFFF) c dec"
  by (simp_all add: pair_entry_def clear_slot_def MAX_N_less kListEnd_eq)

lemma pair_present: "is_present (pair_entry m sl c dec) 0 \<longleftrightarrow> m AND 1 \<noteq> 0" "is_present (pair_entry m sl c dec) 1 \<longleftrightarrow> m AND 2 \<noteq> 0"
  by (auto simp: pair_entry_def is_present_def MAX_N_def sym_word_def sym_bit_def word_le_nat_alt)

lemma pair_slots: "slot_of (pair_entry m sl c dec) 0 = sl ! 0" "slot_of (pair_entry m sl c dec) 1 = sl ! 1"
  by (simp_all add: pair_entry_def slot_of_def MAX_N_less)

lemma pair_bits: "sym_word 0 = 0" "sym_word 1 = 0" "sym_bit 0 = 1" "sym_bit 1 = 2"
  by (simp_all add: sym_word_def sym_bit_def)

lemma zero_pair: "zero_block = pair_entry 0 (replicate 255 0) 0 DECODE_PENDING"
  by (simp add: zero_block_def pair_entry_def decode_states) (simp add: eval_nat_numeral)

lemma moves_step:
  "moves t (numeral v) = Move t (Some (if t = 0 then 7 else 5)) # moves t (pred_numeral v)" "moves t 0 = []"
  "moves t (Suc m) = Move t (Some (if t = 0 then 7 else 5)) # moves t m"
  by (simp_all add: moves_def numeral_eq_Suc)

lemma pair_sel:
  "ctx_n pair_ctx = 2" "ctx_k pair_ctx = 1" "ctx_codec pair_ctx = new_codec isal_1_1 1 2 1" "env_lib pair_env = isal_1_1"
  "write_block (ctx_writer pair_ctx) 0 [b] f = (True, f\<lparr>cached := (cached f)(0 := b)\<rparr>)"
  "flush_block (env_os pair_env) (ctx_writer pair_ctx) 0 f = (True, f\<lparr>durable := (durable f)(0 := cached f 0)\<rparr>)"
  by (auto simp: pair_ctx_def pair_env_def write_block_def flush_block_def msync_def os_ok_def mem_write_def Let_def fun_eq_iff)

lemma pair_decode:
  "rs_decode isal_1_1 (new_codec isal_1_1 1 2 1) (pointed_symbols mem (Some x # g)) (pointed_present (Some x # g)) = Some (take 1 (mem x))"
  by (simp add: rs_decode_def new_codec_def Let_def pointed_present_def pointed_symbols_def MAX_N_def)

lemmas pair_eval = pair_entry_sel pair_present pair_slots pair_bits pair_sel pair_decode moves_step thread_step_def
  try_claim_decode_def mark_decode_complete_def decode_states

text \<open>
  Two packets of one block at two receivers, the first of which has stored its link before the second decodes: both
  slots are free again.
\<close>

theorem racing_packets_safe_witness:
  "\<exists>st. packet_reachable True pair_env pair_ctx 0 (sent_symbols (env_lib pair_env) pair_ctx [[1]]) st \<and>
     (\<forall>t. ps_pc st t = PIdle) \<and> stored (ctx_writer pair_ctx) 0 [1] (ps_file st) \<and> one_place st 5 \<and>
     ps_owner st 5 = Free \<and> ps_owner st 7 = Free"
proof -
  let ?run = "run_schedule True [0, 1] pair_env pair_ctx 0 (sent_symbols (env_lib pair_env) pair_ctx [[1]])
       (Arrive 1 0 # moves 1 7 @ Arrive 0 1 # moves 0 24 @ moves 1 3) pair_start"
  obtain st where st: "?run = Some st" "ps_pc st 0 = PIdle" "ps_pc st 1 = PIdle" "\<forall>t. t \<noteq> 0 \<longrightarrow> t \<noteq> 1 \<longrightarrow> ps_pc st t = PIdle"
    "decoded (ps_block st) = DECODE_COMPLETE" "ps_owner st 5 = Free" "ps_owner st 7 = Free"
    unfolding pair_coded(2) pair_start_def zero_pair by (simp add: pair_eval careful_step_def)
  have "packet_reachable True pair_env pair_ctx 0 (sent_symbols (env_lib pair_env) pair_ctx [[1]]) pair_start"
    unfolding pair_start_def by (rule packet_reachable.start) (simp_all add: kListEnd_eq)
  then have r: "packet_reachable True pair_env pair_ctx 0 (sent_symbols (env_lib pair_env) pair_ctx [[1]]) st"
    by (rule run_reachable [OF st(1)]) (simp add: pair_start_def)
  have n: "ctx_n pair_ctx \<le> MAX_N" by (simp add: pair_sel MAX_N_def)
  note safe = racing_packets_safe [OF r pair_coded(1) n]
  have "\<forall>t. ps_pc st t = PIdle" using st(2-4) by metis
  moreover have "stored (ctx_writer pair_ctx) 0 [1] (ps_file st)" using safe st(5) by simp
  ultimately show ?thesis using r safe st(6,7) by blast
qed

end
