(* ===== verification/PacketRefine.thy ===== *)
theory PacketRefine
  imports PacketRace
begin

text \<open>
  The steps of \<open>PacketRace\<close> are those of \<open>handle_data_packet\<close>: a handler that runs without interruption has, access
  by access, the effect the sequential definition of \<open>Pipeline\<close> gives it on the segment and the file.  The last
  section runs one handler between the two stores of another's registration.
\<close>

section \<open>The segment as a packet state\<close>

text \<open>
  What a packet state shows of a world, for the block entry at a: the entry itself, the free list fl, the first
  \<open>symbol_bytes\<close> bytes of every slot in use (the bytes of free slots hold the list) and the session's file.
\<close>

definition pview :: "SessionContext \<Rightarrow> nat \<Rightarrow> u32 list \<Rightarrow> World \<Rightarrow> PacketState \<Rightarrow> bool" where
  "pview ctx a fl w st \<longleftrightarrow>
     ps_block st = blocks (shm w) a \<and> (\<forall>x. ps_owner st x = Free \<longleftrightarrow> x \<in> set fl) \<and>
     (\<forall>x. x \<notin> set fl \<longrightarrow> ps_mem st x = read_slot x (unat (ctx_symbol_bytes ctx)) (shm w)) \<and>
     ps_file st = files w (bw_path (ctx_writer ctx))"

text \<open>The packet state of a world in which thread 0 is about to take a step and no other handler runs.\<close>

definition world_view :: "SessionContext \<Rightarrow> nat \<Rightarrow> u32 list \<Rightarrow> ppc \<Rightarrow> World \<Rightarrow> PacketState" where
  "world_view ctx a fl p w =
     \<lparr>ps_block = blocks (shm w) a, ps_owner = (\<lambda>x. if x \<in> set fl then Free else Elsewhere),
      ps_mem = (\<lambda>x. read_slot x (unat (ctx_symbol_bytes ctx)) (shm w)), ps_file = files w (bw_path (ctx_writer ctx)),
      ps_pc = (\<lambda>t. if t = 0 then p else PIdle)\<rparr>"

lemma pview_world_view [simp]: "pview ctx a fl w (world_view ctx a fl p w)"
  by (simp add: pview_def world_view_def)

text \<open>Thread t moves, the others stand still.\<close>

definition alone :: "Env \<Rightarrow> SessionContext \<Rightarrow> u32 \<Rightarrow> nat \<Rightarrow> PacketState \<Rightarrow> PacketState \<Rightarrow> bool" where
  "alone env ctx bid t = rtranclp (\<lambda>st st'. \<exists>slot. thread_step env ctx bid t slot st = Some st')"

lemma alone_refl [simp]: "alone env ctx bid t st st"
  by (simp add: alone_def)

lemma alone_step: "thread_step env ctx bid t slot st = Some st1 \<Longrightarrow> alone env ctx bid t st1 st2 \<Longrightarrow> alone env ctx bid t st st2"
  unfolding alone_def by (rule converse_rtranclp_into_rtranclp [of _ st st1]) auto

lemma alone_trans: "alone env ctx bid t st st1 \<Longrightarrow> alone env ctx bid t st1 st2 \<Longrightarrow> alone env ctx bid t st st2"
  unfolding alone_def by (rule rtranclp_trans)

lemma pgoto_pgoto [simp]: "pgoto t p (pgoto t q st) = pgoto t p st"
  by (simp add: pgoto_def)

lemma pview_pgoto [simp]: "pview ctx a fl w (pgoto t p st) = pview ctx a fl w st"
  by (simp add: pview_def)

lemma pviewD:
  assumes "pview ctx a fl w st"
  shows "ps_block st = blocks (shm w) a" and "ps_owner st x = Free \<longleftrightarrow> x \<in> set fl"
    and "x \<notin> set fl \<Longrightarrow> ps_mem st x = read_slot x (unat (ctx_symbol_bytes ctx)) (shm w)"
    and "ps_file st = files w (bw_path (ctx_writer ctx))"
  using assms by (simp_all add: pview_def)

section \<open>The loops of the decoder\<close>

definition block_ptrs :: "SessionContext \<Rightarrow> BlockEntry \<Rightarrow> u32 option list" where
  "block_ptrs ctx e = map (\<lambda>s. links e (of_nat s)) [0..<unat (ctx_n ctx)]"

lemma gather_alone:
  assumes "ps_pc st t = PGather (map (\<lambda>s. links (ps_block st) (of_nat s)) [0..<i])" and "i \<le> unat (ctx_n ctx)"
  shows "alone env ctx bid t st (pgoto t (PDecode (block_ptrs ctx (ps_block st))) st)"
  using assms
proof (induction "unat (ctx_n ctx) - i" arbitrary: st i)
  case 0
  then show ?case by (intro alone_step [where slot = None, OF _ alone_refl]) (simp add: thread_step_def block_ptrs_def)
next
  case (Suc m)
  let ?g = "map (\<lambda>s. links (ps_block st) (of_nat s)) [0..<i]" and ?next = "map (\<lambda>s. links (ps_block st) (of_nat s)) [0..<Suc i]"
  have i: "i < unat (ctx_n ctx)" "m = unat (ctx_n ctx) - Suc i" using Suc.hyps(2) by simp_all
  have ih: "alone env ctx bid t (pgoto t (PGather ?next) st) (pgoto t (PDecode (block_ptrs ctx (ps_block st))) st)"
    using Suc.hyps(1) [of "Suc i" "pgoto t (PGather ?next) st"] i by simp
  have "alone env ctx bid t st (pgoto t (PGather ?next) st)"
  proof (cases "is_present (ps_block st) (of_nat i)")
    case True
    have "thread_step env ctx bid t None st = Some (pgoto t (PPoint ?g) st)"
      "thread_step env ctx bid t None (pgoto t (PPoint ?g) st) = Some (pgoto t (PGather ?next) st)"
      using Suc.prems(1) i(1) True by (simp_all add: thread_step_def links_def)
    then show ?thesis by (blast intro: alone_step alone_refl)
  next
    case False
    then have "thread_step env ctx bid t None st = Some (pgoto t (PGather ?next) st)"
      using Suc.prems(1) i(1) by (simp add: thread_step_def links_def)
    then show ?thesis by (blast intro: alone_step alone_refl)
  qed
  then show ?case using ih by (rule alone_trans)
qed

lemma pointed_gather:
  assumes inv: "shm_hand mgr (shm w) fl []" and be: "block_entry sidx bid (shm w) = Some a"
    and dc: "decoded (blocks (shm w) a) \<noteq> DECODE_COMPLETE" and v: "pview ctx a fl w st"
  shows "pointed_symbols (ps_mem st) (block_ptrs ctx (blocks (shm w) a)) =
       gather_symbols (ctx_n ctx) (unat (ctx_symbol_bytes ctx)) (blocks (shm w) a) (shm w)"
    and "pointed_present (block_ptrs ctx (blocks (shm w) a)) = gather_present (ctx_n ctx) (blocks (shm w) a)"
proof -
  let ?e = "blocks (shm w) a"
  have "ps_mem st (slot_of ?e s) = read_slot (slot_of ?e s) (unat (ctx_symbol_bytes ctx)) (shm w)" if p: "is_present ?e s" for s
  proof -
    have "slot_of ?e s \<noteq> kListEnd"
      using block_entry_Some(6) [OF inv be] dc p unfolding block_ok_def links_def by (metis option.inject)
    then have "slot_of ?e s \<notin> set fl" using held_link [OF inv be p] inv by (auto simp: shm_hand_def)
    then show ?thesis by (rule pviewD(3) [OF v])
  qed
  then show "pointed_symbols (ps_mem st) (block_ptrs ctx ?e) = gather_symbols (ctx_n ctx) (unat (ctx_symbol_bytes ctx)) ?e (shm w)"
    by (auto simp: pointed_symbols_def gather_symbols_def block_ptrs_def links_def split: if_splits)
  show "pointed_present (block_ptrs ctx ?e) = gather_present (ctx_n ctx) ?e"
    by (auto simp: pointed_present_def gather_present_def block_ptrs_def links_def split: if_splits)
qed

lemma release_symbol_view:
  assumes v: "pview ctx a fl w st" and inv: "shm_hand mgr (shm w) fl []" and be: "block_entry sidx bid (shm w) = Some a"
    and s: "s < MAX_N" "links (blocks (shm w) a) s = Some x" "x \<noteq> kListEnd" and dc: "decoded (blocks (shm w) a) = DECODE_COMPLETE"
    and sb: "unat (ctx_symbol_bytes ctx) \<le> 1536"
  shows "pview ctx a (x # fl) (w\<lparr>shm := release_symbol mgr a s (shm w)\<rparr>)
       (set_owner x Free st\<lparr>ps_block := clear_slot s (blocks (shm w) a)\<rparr>)"
proof -
  have p: "slot_of (blocks (shm w) a) s = x" using s(2) by (simp add: links_def split: if_splits)
  have "read_slot y (unat (ctx_symbol_bytes ctx)) (release_symbol mgr a s (shm w)) = read_slot y (unat (ctx_symbol_bytes ctx)) (shm w)"
    if "y \<noteq> x" for y
    using same_slots_free [of x "{y}" "shm w" mgr] that sb by (simp add: same_slots_def release_symbol_eq Let_def p read_slot_def)
  then show ?thesis
    using v release_symbol_hand(2) [OF inv be s dc] by (auto simp: pview_def set_owner_def)
qed

lemma release_alone:
  assumes "shm_hand mgr (shm w) fl []" and "block_entry sidx bid' (shm w) = Some a"
    and "decoded (blocks (shm w) a) = DECODE_COMPLETE" and "pview ctx a fl w st" and "ps_pc st t = PRelease i g"
    and "\<forall>j. i \<le> j \<longrightarrow> j < unat (ctx_n ctx) \<longrightarrow> present ! j \<longrightarrow> (\<exists>x. links (blocks (shm w) a) (of_nat j) = Some x \<and> x \<noteq> kListEnd)"
    and present: "\<forall>j<unat (ctx_n ctx). g ! j = None \<longleftrightarrow> \<not> present ! j" and i: "i \<le> unat (ctx_n ctx)"
    and n: "unat (ctx_n ctx) \<le> 255" and sb: "unat (ctx_symbol_bytes ctx) \<le> 1536"
    and w': "w' = w\<lparr>shm := fold (\<lambda>s seg. if present ! s then release_symbol mgr a (of_nat s) seg else seg) [i..<unat (ctx_n ctx)] (shm w)\<rparr>"
  shows "\<exists>st' fl'. alone env ctx bid t st st' \<and> ps_pc st' = (ps_pc st)(t := PIdle) \<and> shm_hand mgr (shm w') fl' [] \<and> pview ctx a fl' w' st'"
  using assms(1-6) i w'
proof (induction "unat (ctx_n ctx) - i" arbitrary: w fl st i)
  case 0
  have "thread_step env ctx bid t None st = Some (pgoto t PIdle st)" using 0 by (simp add: thread_step_def)
  moreover have "pview ctx a fl w' (pgoto t PIdle st)" "shm_hand mgr (shm w') fl' [] = shm_hand mgr (shm w) fl' []" for fl' using 0 by simp_all
  ultimately show ?case using 0 by (intro exI [of _ "pgoto t PIdle st"] exI [of _ fl]) (auto intro: alone_step)
next
  case (Suc m)
  note prems = Suc.prems
  have i: "i < unat (ctx_n ctx)" "m = unat (ctx_n ctx) - Suc i" "[i..<unat (ctx_n ctx)] = i # [Suc i..<unat (ctx_n ctx)]"
    using Suc.hyps(2) by (simp_all add: upt_conv_Cons)
  show ?case
  proof (cases "present ! i")
    case False
    let ?st = "pgoto t (PRelease (i + 1) g) st"
    have "thread_step env ctx bid t None st = Some ?st" using prems(5) i(1) False present by (simp add: thread_step_def)
    moreover have "\<exists>st' fl'. alone env ctx bid t ?st st' \<and> ps_pc st' = (ps_pc ?st)(t := PIdle) \<and> shm_hand mgr (shm w') fl' [] \<and> pview ctx a fl' w' st'"
      by (rule Suc.hyps(1) [of "Suc i" w fl]) (use prems i False in simp_all)
    ultimately show ?thesis by (auto intro: alone_step)
  next
    case True
    then obtain x where x: "links (blocks (shm w) a) (of_nat i) = Some x" "x \<noteq> kListEnd" using prems(6) i(1) by auto
    let ?s = "of_nat i :: u32" and ?w = "w\<lparr>shm := release_symbol mgr a (of_nat i) (shm w)\<rparr>"
    let ?st = "pgoto t (PRelease (i + 1) g) (set_owner x Free st\<lparr>ps_block := clear_slot (of_nat i) (blocks (shm w) a)\<rparr>)"
    have sN: "?s < MAX_N" using i(1) n by (simp add: MAX_N_less unat_of_nat_small)
    note rel = release_symbol_hand [OF prems(1,2) sN x prems(3)]
    note view = release_symbol_view [OF prems(4,1,2) sN x prems(3) sb]
    have len: "length (slot_idx (blocks (shm w) a)) = 255"
      using block_entry_Some(6) [OF prems(1,2)] by (simp add: block_ok_def block_wf_def)
    have "slot_of (blocks (shm w) a) ?s = x" using x(1) by (simp add: links_def split: if_splits)
    then have steps: "thread_step env ctx bid t None st = Some (pgoto t (PClear i g) (set_owner x Free st))"
      "thread_step env ctx bid t None (pgoto t (PClear i g) (set_owner x Free st)) = Some ?st"
      using prems(5) i(1) True present pviewD(1) [OF prems(4)] by (simp_all add: thread_step_def pgoto_def set_owner_def)
    have other: "links (clear_slot ?s (blocks (shm w) a)) (of_nat j) = links (blocks (shm w) a) (of_nat j)"
      if "i < j" "j < unat (ctx_n ctx)" for j
      using that n u32_of_nat_255 [of j i] by (auto simp: links_clear [OF len sN])
    have "\<exists>st' fl'. alone env ctx bid t ?st st' \<and> ps_pc st' = (ps_pc ?st)(t := PIdle) \<and> shm_hand mgr (shm w') fl' [] \<and> pview ctx a fl' w' st'"
    proof (rule Suc.hyps(1) [of "Suc i" ?w "x # fl"])
      show "\<forall>j. Suc i \<le> j \<longrightarrow> j < unat (ctx_n ctx) \<longrightarrow> present ! j \<longrightarrow> (\<exists>x. links (blocks (shm ?w) a) (of_nat j) = Some x \<and> x \<noteq> kListEnd)"
        using prems(6) other by (simp add: rel(2))
      show "block_entry sidx bid' (shm ?w) = Some a" using prems(2) block_entry_frame [OF rel(3)] by simp
    qed (use prems rel view i True in simp_all)
    then show ?thesis using alone_step [OF steps(1) alone_step [OF steps(2)]] by fastforce
  qed
qed

section \<open>The decoder\<close>

lemma pview_file:
  "pview ctx a fl w st \<Longrightarrow> pview ctx a fl (w\<lparr>files := (files w)(bw_path (ctx_writer ctx) := f)\<rparr>) (st\<lparr>ps_file := f\<rparr>)"
  by (simp add: pview_def)

lemma pview_block:
  "pview ctx a fl w st \<Longrightarrow> pview ctx a fl (set_block a e w) (st\<lparr>ps_block := e\<rparr>)"
  by (simp add: pview_def read_slot_def)

lemma decoder_alone:
  assumes inv: "shm_hand (env_mgr env) (shm w) fl []" and be: "block_entry sidx bid' (shm w) = Some a"
    and cl: "decoded (blocks (shm w) a) = DECODE_CLAIMED" and v: "pview ctx a fl w st" and pc: "ps_pc st t = PGather []"
    and n: "ctx_n ctx \<le> MAX_N" and sb: "unat (ctx_symbol_bytes ctx) \<le> 1536"
    and dw: "decode_and_write_block env ctx bid a w = (r, w')"
  shows "\<exists>st' fl'. alone env ctx bid t st st' \<and> ps_pc st' = (ps_pc st)(t := PIdle) \<and>
     shm_hand (env_mgr env) (shm w') fl' [] \<and> pview ctx a fl' w' st'"
proof -
  let ?e = "blocks (shm w) a" and ?path = "bw_path (ctx_writer ctx)"
  let ?g = "block_ptrs ctx ?e" and ?present = "gather_present (ctx_n ctx) ?e"
  define wf where "wf = (\<lambda>f. w\<lparr>files := (files w)(?path := f)\<rparr>)"
  define sf where "sf = (\<lambda>f p. pgoto t p (st\<lparr>ps_file := f\<rparr>))"
  have n255: "unat (ctx_n ctx) \<le> 255" using n by (simp add: MAX_N_def word_le_nat_alt)
  have dc: "decoded ?e \<noteq> DECODE_COMPLETE" using cl by (simp add: decode_states)
  note ptrs = pointed_gather [OF inv be dc v]
  note vd = pviewD [OF v]
  let ?st1 = "pgoto t (PDecode ?g) st"
  have to1: "alone env ctx bid t st ?st1"
    using gather_alone [of st t 0 ctx env bid] pc vd(1) by simp
  have vf: "pview ctx a fl (wf f) (sf f p)" for f p using pview_file [OF v] by (simp add: wf_def sf_def)
  have fin: ?thesis if "alone env ctx bid t ?st1 st'" "ps_pc st' = (ps_pc st)(t := PIdle)" "shm_hand (env_mgr env) (shm w') fl' []"
    "pview ctx a fl' w' st'" for st' fl'
    using that alone_trans [OF to1] by blast
  show ?thesis
  proof (cases "rs_decode (env_lib env) (ctx_codec ctx) (gather_symbols (ctx_n ctx) (unat (ctx_symbol_bytes ctx)) ?e (shm w)) ?present")
    case None
    then have "w' = w" "thread_step env ctx bid t None ?st1 = Some (pgoto t PIdle st)"
      using dw ptrs by (simp_all add: decode_and_write_block_def Let_def thread_step_def)
    then show ?thesis using v inv by (intro fin [of "pgoto t PIdle st"]) (auto intro: alone_step)
  next
    case (Some bytes)
    have s1: "thread_step env ctx bid t None ?st1 = Some (pgoto t (PWrite ?g bytes) st)"
      using Some ptrs by (simp add: thread_step_def)
    obtain ok f where wr: "write_block (ctx_writer ctx) bid bytes (files w ?path) = (ok, f)" by fastforce
    have s2: "thread_step env ctx bid t None (pgoto t (PWrite ?g bytes) st) = Some (sf f (if ok then PFlush ?g else PIdle))"
      using wr vd(4) by (simp add: thread_step_def sf_def pgoto_def)
    obtain ok' f' where fs: "flush_block (env_os env) (ctx_writer ctx) bid f = (ok', f')" by fastforce
    have s3: "thread_step env ctx bid t None (sf f (PFlush ?g)) = Some (sf f' (if ok' then PMark ?g else PIdle))"
      using fs by (simp add: thread_step_def sf_def pgoto_def)
    let ?d = "?e\<lparr>decoded := DECODE_COMPLETE\<rparr>" and ?w4 = "set_block a (?e\<lparr>decoded := DECODE_COMPLETE\<rparr>) (wf f')"
    let ?st4 = "pgoto t (PRelease 0 ?g) (sf f' PIdle\<lparr>ps_block := ?d\<rparr>)"
    have mark: "mark_decode_complete ?e = (True, ?d)" using cl by (simp add: mark_decode_complete_def)
    have s4: "thread_step env ctx bid t None (sf f' (PMark ?g)) = Some ?st4"
      using mark vd(1) by (simp add: thread_step_def sf_def pgoto_def)
    note res = dw [unfolded decode_and_write_block_def Let_def Some option.case wr prod.case]
    show ?thesis
    proof (cases "ok \<and> ok'")
      case False
      let ?f = "if ok then f' else f"
      have "w' = wf ?f" using False res fs by (cases ok) (simp_all add: wf_def)
      moreover have "alone env ctx bid t ?st1 (sf ?f PIdle)"
        using False alone_step [OF s1 alone_step [OF s2]] alone_step [OF s3] by (cases ok) simp_all
      ultimately show ?thesis using inv vf [of ?f PIdle] by (intro fin [of "sf ?f PIdle" fl]) (simp_all add: wf_def sf_def)
    next
      case True
      have w': "w' = ?w4\<lparr>shm := fold (\<lambda>s seg. if ?present ! s then release_symbol (env_mgr env) a (of_nat s) seg else seg)
           [0..<unat (ctx_n ctx)] (shm ?w4)\<rparr>"
        using res True fs mark by (simp add: wf_def)
      have "\<exists>st' fl'. alone env ctx bid t ?st4 st' \<and> ps_pc st' = (ps_pc ?st4)(t := PIdle) \<and> shm_hand (env_mgr env) (shm w') fl' [] \<and> pview ctx a fl' w' st'"
      proof (rule release_alone [where w = ?w4 and fl = fl and g = ?g, OF _ _ _ _ _ _ _ _ n255 sb w'])
        show "shm_hand (env_mgr env) (shm ?w4) fl []" using hand_decoded [OF inv be, of DECODE_COMPLETE] by (simp add: wf_def)
        show "block_entry sidx bid' (shm ?w4) = Some a" using be block_entry_frame [of "shm ?w4" "shm w"] by (simp add: wf_def)
        show "pview ctx a fl ?w4 ?st4" using pview_block [OF vf] by simp
        show "\<forall>j. 0 \<le> j \<longrightarrow> j < unat (ctx_n ctx) \<longrightarrow> ?present ! j \<longrightarrow> (\<exists>x. links (blocks (shm ?w4) a) (of_nat j) = Some x \<and> x \<noteq> kListEnd)"
          using block_entry_Some(6) [OF inv be] dc n255 unfolding block_ok_def
          by (auto simp: wf_def gather_present_nth) (metis links_def option.inject)
        show "\<forall>j<unat (ctx_n ctx). ?g ! j = None \<longleftrightarrow> \<not> ?present ! j" using n255 by (auto simp: block_ptrs_def gather_present_nth links_def)
      qed simp_all
      then obtain st' fl' where st': "alone env ctx bid t ?st4 st'" "ps_pc st' = (ps_pc ?st4)(t := PIdle)"
        "shm_hand (env_mgr env) (shm w') fl' []" "pview ctx a fl' w' st'" by blast
      have s23: "thread_step env ctx bid t None (pgoto t (PWrite ?g bytes) st) = Some (sf f (PFlush ?g))"
        "thread_step env ctx bid t None (sf f (PFlush ?g)) = Some (sf f' (PMark ?g))"
        using s2 s3 True by simp_all
      have "alone env ctx bid t ?st1 st'"
        by (rule alone_step [OF s1 alone_step [OF s23(1) alone_step [OF s23(2) alone_step [OF s4 st'(1)]]]])
      moreover have "ps_pc st' = (ps_pc st)(t := PIdle)" using st'(2) by (simp add: sf_def)
      ultimately show ?thesis by (rule fin [OF _ _ st'(3,4)])
    qed
  qed
qed

section \<open>The handler\<close>

lemma register_alone:
  assumes v: "pview ctx a fl w st" and pc: "ps_pc st t = PAlloc s p" and fl: "fl = x # fl'" and dist: "distinct fl"
    and ok: "block_wf (blocks (shm w) a)" and np: "\<not> is_present (blocks (shm w) a) s" and s: "s < MAX_N"
    and len: "length p = unat (ctx_symbol_bytes ctx)" and sb: "unat (ctx_symbol_bytes ctx) \<le> 1536"
    and al: "alloc_slot (env_mgr env) (shm w) = (x, seg)" and w1: "w1 = registered_world env s p a w"
    and ar: "arena (shm w1) = mem_write (slot_addr x) p (arena (shm w))"
  shows "\<exists>st1. alone env ctx bid t st (pgoto t PSeen st1) \<and> ps_pc st1 = ps_pc st \<and> pview ctx a fl' w1 st1"
proof -
  let ?e = "blocks (shm w) a" and ?w = "sym_word s" and ?b = "sym_bit s"
  let ?old = "present_mask ?e ! ?w"
  let ?e1 = "?e\<lparr>present_mask := (present_mask ?e)[?w := ?old OR ?b]\<rparr>"
  let ?e2 = "?e1\<lparr>slot_idx := (slot_idx ?e1)[unat s := x]\<rparr>" let ?e3 = "?e2\<lparr>seen := seen ?e2 + 1\<rparr>"
  define sta where "sta = set_owner x (Hand t) st"
  define stb where "stb = sta\<lparr>ps_mem := (ps_mem st)(x := p)\<rparr>"
  define stc where "stc = stb\<lparr>ps_block := ?e1\<rparr>"
  define std where "std = set_owner x (Link s) (stc\<lparr>ps_block := ?e2\<rparr>)"
  define ste where "ste = std\<lparr>ps_block := ?e3\<rparr>"
  note defs = sta_def stb_def stc_def std_def ste_def
  note vd = pviewD [OF v]
  have bit: "?old AND ?b = 0" using np s by (simp add: is_present_def not_le)
  have s1: "thread_step env ctx bid t (Some x) st = Some (pgoto t (PCopy s p x) sta)"
    using pc vd(2) fl by (simp add: thread_step_def sta_def)
  have s2: "thread_step env ctx bid t None (pgoto t (PCopy s p x) sta) = Some (pgoto t (PLoad s x) stb)"
    by (simp add: thread_step_def defs pgoto_def set_owner_def)
  have s3: "thread_step env ctx bid t None (pgoto t (PLoad s x) stb) = Some (pgoto t (PLoop s x ?old) stb)"
    using vd(1) by (simp add: thread_step_def defs)
  have s4: "thread_step env ctx bid t None (pgoto t (PLoop s x ?old) stb) = Some (pgoto t (PLink s x) stc)"
    using vd(1) bit by (simp add: thread_step_def defs pgoto_def set_owner_def Let_def)
  have s5: "thread_step env ctx bid t None (pgoto t (PLink s x) stc) = Some (pgoto t PCount std)"
    by (simp add: thread_step_def defs pgoto_def set_owner_def)
  have s6: "thread_step env ctx bid t None (pgoto t PCount std) = Some (pgoto t PSeen ste)"
    by (simp add: thread_step_def defs pgoto_def set_owner_def)
  have "alone env ctx bid t st (pgoto t PSeen ste)"
    using alone_step [OF s1 alone_step [OF s2 alone_step [OF s3 alone_step [OF s4 alone_step [OF s5 alone_step [OF s6 alone_refl]]]]]] .
  moreover have "ps_pc ste = ps_pc st" by (simp add: defs)
  moreover have "pview ctx a fl' w1 ste"
  proof -
    have "blocks (shm w1) a = ?e3" using s bit ok by (simp add: w1 registered_world_def al register_symbol_def Let_def not_le block_wf_def)
    moreover have "read_slot y (unat (ctx_symbol_bytes ctx)) (shm w1) = (if y = x then p else read_slot y (unat (ctx_symbol_bytes ctx)) (shm w))" for y
      using len sb by (simp add: read_slot_def ar read_slot_other)
    moreover have "files w1 = files w" by (simp add: w1 registered_world_def al)
    ultimately show ?thesis using vd fl dist by (auto simp: pview_def defs)
  qed
  ultimately show ?thesis by blast
qed

text \<open>A new symbol: registration, and the decode when the handler wins it.\<close>

lemma new_symbol_alone:
  assumes inv: "shm_inv (env_mgr env) (shm w) fl" and ctx: "contexts w sid = Some ctx" and fit: "ctx_fits (shm w) ctx"
    and v: "valid_packet ctx bid s p a w" and view: "pview ctx a fl w st" and pc: "ps_pc st t = PAlloc s p"
    and new: "decoded (blocks (shm w) a) \<noteq> DECODE_COMPLETE" "\<not> is_present (blocks (shm w) a) s"
    and al: "alloc_slot (env_mgr env) (shm w) = (x, seg)" "x \<noteq> kListEnd"
    and hp: "handle_data_packet env sid bid s p w = (r, w')"
  shows "\<exists>st' fl'. alone env ctx bid t st st' \<and> ps_pc st' = (ps_pc st)(t := PIdle) \<and>
     shm_inv (env_mgr env) (shm w') fl' \<and> pview ctx a fl' w' st'"
proof -
  let ?e = "blocks (shm w) a"
  have n: "ctx_n ctx \<le> MAX_N" and sb: "unat (ctx_symbol_bytes ctx) \<le> 1536"
    using fit by (simp_all add: ctx_fits_def SLOT_SIZE_def word_le_nat_alt)
  have s: "s < MAX_N" using v n by (auto simp: valid_packet_def)
  have hand: "shm_hand (env_mgr env) (shm w) fl []" using inv by (simp add: shm_inv_def)
  have be: "block_entry (ctx_session_idx ctx) bid (shm w) = Some a" using v by (simp add: valid_packet_def)
  define w1 where "w1 = registered_world env s p a w"
  note rw = registered_world_hand [OF inv fit v new al w1_def]
  obtain fl' where fl': "fl = x # fl'" and h1: "shm_hand (env_mgr env) (shm w1) fl' []" using rw(2) by blast
  let ?e1 = "blocks (shm w1) a"
  have be1: "block_entry (ctx_session_idx ctx) bid (shm w1) = Some a" using be block_entry_frame [OF rw(3)] by simp
  have "block_wf ?e" "distinct fl" "length p = unat (ctx_symbol_bytes ctx)"
    using block_entry_Some(6) [OF hand be] hand v by (simp_all add: block_ok_def shm_hand_def valid_packet_def)
  then obtain st1 where to_seen: "alone env ctx bid t st (pgoto t PSeen st1)" and pc1: "ps_pc st1 = ps_pc st"
    and v1: "pview ctx a fl' w1 st1"
    using register_alone [OF view pc fl' _ _ new(2) s _ sb al(1) w1_def rw(8)] by blast
  note vd1 = pviewD [OF v1]
  have step: "handle_data_packet env sid bid s p w =
     (if seen ?e1 \<ge> ctx_k ctx \<and> decoded ?e1 = DECODE_PENDING
      then (case decode_and_write_block env ctx bid a (set_block a (?e1\<lparr>decoded := DECODE_CLAIMED\<rparr>) w1) of
              (True, w) \<Rightarrow> ((BlockDecoded, Some bid), w) | (False, w) \<Rightarrow> ((RegisteredOnly, None), w))
      else ((RegisteredOnly, None), w1))"
    by (rule packet_registered [OF ctx v new _ _ w1_def refl]) (use rw(1) al in simp_all)
  have seen_step: "thread_step env ctx bid t None (pgoto t PSeen st1) = Some (pgoto t (if seen ?e1 \<ge> ctx_k ctx then PClaim else PIdle) st1)"
    using vd1(1) by (simp add: thread_step_def)
  show ?thesis
  proof (cases "seen ?e1 \<ge> ctx_k ctx \<and> decoded ?e1 = DECODE_PENDING")
    case True
    define w3 where "w3 = set_block a (?e1\<lparr>decoded := DECODE_CLAIMED\<rparr>) w1"
    let ?st3 = "pgoto t (PGather []) (st1\<lparr>ps_block := ?e1\<lparr>decoded := DECODE_CLAIMED\<rparr>\<rparr>)"
    have c: "thread_step env ctx bid t None (pgoto t PSeen st1) = Some (pgoto t PClaim st1)"
      "thread_step env ctx bid t None (pgoto t PClaim st1) = Some ?st3"
      using True vd1(1) seen_step by (simp_all add: thread_step_def try_claim_decode_def)
    have to3: "alone env ctx bid t st ?st3" by (rule alone_trans [OF to_seen alone_step [OF c(1) alone_step [OF c(2) alone_refl]]])
    have w3: "shm_hand (env_mgr env) (shm w3) fl' []" "decoded (blocks (shm w3) a) = DECODE_CLAIMED"
      using hand_decoded [OF h1 be1, of DECODE_CLAIMED] True by (simp_all add: w3_def decode_states)
    have be3: "block_entry (ctx_session_idx ctx) bid (shm w3) = Some a"
      using be1 block_entry_frame [of "shm w3" "shm w1"] by (simp add: w3_def)
    have v3: "pview ctx a fl' w3 ?st3" using pview_block [OF v1] by (simp add: w3_def)
    obtain b w4 where dw: "decode_and_write_block env ctx bid a w3 = (b, w4)" by fastforce
    have "w' = w4" using hp step True dw by (auto simp: w3_def [symmetric] split: bool.splits)
    with decoder_alone [OF w3(1) be3 w3(2) v3 _ n sb dw, of t] pc1 show ?thesis
      using alone_trans [OF to3] by (fastforce simp: shm_inv_def)
  next
    case False
    then have "w' = w1" using hp step by auto
    moreover have "thread_step env ctx bid t None (pgoto t PClaim st1) = Some (pgoto t PIdle st1)" if "seen ?e1 \<ge> ctx_k ctx"
      using that False vd1(1) by (simp add: thread_step_def try_claim_decode_def)
    then have "alone env ctx bid t (pgoto t PSeen st1) (pgoto t PIdle st1)"
      using alone_step [OF seen_step] alone_step [of env ctx bid t None "pgoto t PClaim st1"] by (cases "seen ?e1 \<ge> ctx_k ctx") simp_all
    then have "alone env ctx bid t st (pgoto t PIdle st1)" by (rule alone_trans [OF to_seen])
    ultimately show ?thesis using h1 v1 pc1
      by (intro exI [of _ "pgoto t PIdle st1"] exI [of _ fl']) (simp add: shm_inv_def)
  qed
qed

text \<open>
  C7: the access-level steps are the handler's.  Take a world with the ownership invariant, a packet the session
  accepts, and a packet state that shows this world.  A handler that starts there and runs alone, access by
  access, returns in a state that shows exactly the world \<open>handle_data_packet\<close> computes: the same block entry, the
  same slots free, the same bytes in every slot in use and the same file, cached and durable, on every branch
  (late and duplicate packets, an exhausted arena, a registration, a decode with its failures).
\<close>

theorem handler_runs_its_steps:
  assumes "shm_inv (env_mgr env) (shm w) fl" and "contexts w sid = Some ctx" and "ctx_fits (shm w) ctx"
    and "valid_packet ctx bid s p a w" and "pview ctx a fl w st" and "ps_pc st t = PState s p"
    and "handle_data_packet env sid bid s p w = (r, w')"
  shows "\<exists>st' fl'. alone env ctx bid t st st' \<and> ps_pc st' = (ps_pc st)(t := PIdle) \<and>
     shm_inv (env_mgr env) (shm w') fl' \<and> pview ctx a fl' w' st'"
proof -
  note inv = assms(1) and ctx = assms(2) and fit = assms(3) and v = assms(4) and view = assms(5) and pc = assms(6) and hp = assms(7)
  let ?e = "blocks (shm w) a"
  note vd = pviewD [OF view]
  obtain x seg where al: "alloc_slot (env_mgr env) (shm w) = (x, seg)" by fastforce
  let ?to = "\<lambda>st st'. alone env ctx bid t st st'"
  have idle: "?thesis" if "?to st (pgoto t PIdle st)" "w' = w"
    using that inv view by (intro exI [of _ "pgoto t PIdle st"] exI [of _ fl]) simp
  consider "decoded ?e = DECODE_COMPLETE" | "decoded ?e \<noteq> DECODE_COMPLETE" "is_present ?e s"
    | "decoded ?e \<noteq> DECODE_COMPLETE" "\<not> is_present ?e s" by blast
  then show ?thesis
  proof cases
    case 1
    then have "thread_step env ctx bid t None st = Some (pgoto t PIdle st)" using pc vd(1) by (simp add: thread_step_def)
    then show ?thesis using 1 packet_duplicate [OF ctx v, of env] hp idle [OF alone_step [OF _ alone_refl]] by simp
  next
    case 2
    then have "thread_step env ctx bid t None st = Some (pgoto t (PPresent s p) st)"
      "thread_step env ctx bid t None (pgoto t (PPresent s p) st) = Some (pgoto t PIdle st)"
      using pc vd(1) by (simp_all add: thread_step_def)
    then show ?thesis using 2 packet_duplicate [OF ctx v, of env] hp idle [OF alone_step [OF _ alone_step [OF _ alone_refl]]] by simp
  next
    case 3
    have "thread_step env ctx bid t None st = Some (pgoto t (PPresent s p) st)"
      "thread_step env ctx bid t None (pgoto t (PPresent s p) st) = Some (pgoto t (PAlloc s p) st)"
      using 3 pc vd(1) by (simp_all add: thread_step_def)
    then have to_alloc: "?to st (pgoto t (PAlloc s p) st)" by (blast intro: alone_step alone_refl)
    show ?thesis
    proof (cases "x = kListEnd")
      case True
      then have "fl = []" using hand_alloc_fail [OF inv] al by simp
      then have "seg = shm w" using alloc_slot_empty [of "shm w" "env_mgr env"] shm_invD(2) [OF inv] al by simp
      then have "w' = w" using packet_exhausted [OF ctx v 3, of env seg] True al hp by simp
      moreover have "thread_step env ctx bid t None (pgoto t (PAlloc s p) st) = Some (pgoto t PIdle st)" by (simp add: thread_step_def)
      ultimately show ?thesis using idle [OF alone_trans [OF to_alloc alone_step [OF _ alone_refl]]] by simp
    next
      case False
      have "alloc_slot (env_mgr env) (shm w) = (x, seg)" "x \<noteq> kListEnd" using al False by simp_all
      with new_symbol_alone [OF inv ctx fit v _ _ 3 _ _ hp, of "pgoto t (PAlloc s p) st" t] view
      show ?thesis using alone_trans [OF to_alloc] by fastforce
    qed
  qed
qed

text \<open>The second symbol of block 0 of the demo session, access by access: the block is decoded.\<close>

theorem handler_runs_its_steps_witness:
  "\<exists>w' st'. handle_data_packet demo_env ''s1'' 0 2 [121, 2, 141] demo1 = ((BlockDecoded, Some 0), w') \<and>
     alone demo_env demo_ctx 0 0 (world_view demo_ctx 0 [1, 2] (PState 2 [121, 2, 141]) demo1) st' \<and>
     ps_pc st' 0 = PIdle \<and> ps_block st' = blocks (shm w') 0 \<and> ps_file st' = files w' ''/d''"
proof -
  let ?st = "world_view demo_ctx 0 [1, 2] (PState 2 [121, 2, 141]) demo1"
  obtain w' where w': "handle_data_packet demo_env ''s1'' 0 2 [121, 2, 141] demo1 = ((BlockDecoded, Some 0), w')"
    using demo_decodes by blast
  have "valid_packet demo_ctx 0 2 [121, 2, 141] 0 demo1" using demo1_entry by (simp add: valid_packet_def)
  moreover have "shm_inv (env_mgr demo_env) (shm demo1) [1, 2]" "contexts demo1 ''s1'' = Some demo_ctx" "ps_pc ?st 0 = PState 2 [121, 2, 141]"
    using demo1_state(1,3) by (simp_all add: world_view_def)
  ultimately obtain st' fl' where "alone demo_env demo_ctx 0 0 ?st st'" "ps_pc st' = (ps_pc ?st)(0 := PIdle)" "pview demo_ctx 0 fl' w' st'"
    using handler_runs_its_steps [of demo_env demo1 "[1, 2]" "''s1''" demo_ctx 0 2 "[121, 2, 141]" 0 ?st 0 _ w'] demo1_fits w' by auto
  then show ?thesis using w' by (intro exI [of _ w'] exI [of _ st']) (simp add: pview_def)
qed

section \<open>An unpublished link\<close>

lemma alone_reachable:
  assumes "alone env ctx bid t st st'" and "packet_reachable False env ctx bid sent st"
  shows "packet_reachable False env ctx bid sent st'"
  using assms unfolding alone_def by (induction rule: rtranclp_induct) (auto intro: packet_reachable.move)

text \<open>The release loop frees what the links read at the time, whoever owns it.\<close>

lemma release_loop_alone:
  assumes "ps_pc st t = PRelease i g" and "i \<le> unat (ctx_n ctx)" and "unat (ctx_n ctx) \<le> 255" and "length (slot_idx (ps_block st)) = 255"
  shows "\<exists>st'. alone env ctx bid t st st' \<and> ps_pc st' = (ps_pc st)(t := PIdle) \<and> ps_file st' = ps_file st \<and>
     decoded (ps_block st') = decoded (ps_block st) \<and> (\<forall>x. ps_owner st x = Free \<longrightarrow> ps_owner st' x = Free) \<and>
     (\<forall>j. i \<le> j \<longrightarrow> j < unat (ctx_n ctx) \<longrightarrow> g ! j \<noteq> None \<longrightarrow> ps_owner st' (slot_of (ps_block st) (of_nat j)) = Free)"
  using assms(1,2,4)
proof (induction "unat (ctx_n ctx) - i" arbitrary: st i)
  case 0
  then have "thread_step env ctx bid t None st = Some (pgoto t PIdle st)" by (simp add: thread_step_def)
  then show ?case using 0 by (intro exI [of _ "pgoto t PIdle st"]) (auto intro: alone_step)
next
  case (Suc m)
  have i: "i < unat (ctx_n ctx)" "m = unat (ctx_n ctx) - Suc i" using Suc.hyps(2) by simp_all
  have iN: "(of_nat i :: u32) < MAX_N" using i(1) assms(3) by (simp add: MAX_N_less unat_of_nat_small)
  define st1 where "st1 = (if g ! i = None then pgoto t (PRelease (Suc i) g) st
     else pgoto t (PRelease (Suc i) g) (set_owner (slot_of (ps_block st) (of_nat i)) Free st
        \<lparr>ps_block := clear_slot (of_nat i) (ps_block st)\<rparr>))"
  have to1: "alone env ctx bid t st st1"
  proof (cases "g ! i = None")
    case True
    then have "thread_step env ctx bid t None st = Some st1" using Suc.prems(1) i(1) by (simp add: thread_step_def st1_def)
    then show ?thesis by (blast intro: alone_step alone_refl)
  next
    case False
    then obtain y where "g ! i = Some y" by blast
    then have "thread_step env ctx bid t None st = Some (pgoto t (PClear i g) (set_owner (slot_of (ps_block st) (of_nat i)) Free st))"
      "thread_step env ctx bid t None (pgoto t (PClear i g) (set_owner (slot_of (ps_block st) (of_nat i)) Free st)) = Some st1"
      using Suc.prems(1) i(1) by (simp_all add: thread_step_def st1_def pgoto_def set_owner_def)
    then show ?thesis by (blast intro: alone_step alone_refl)
  qed
  have st1: "ps_pc st1 = (ps_pc st)(t := PRelease (Suc i) g)" "ps_file st1 = ps_file st"
    "decoded (ps_block st1) = decoded (ps_block st)" "length (slot_idx (ps_block st1)) = 255"
    "ps_owner st x = Free \<Longrightarrow> ps_owner st1 x = Free"
    "g ! i \<noteq> None \<Longrightarrow> ps_owner st1 (slot_of (ps_block st) (of_nat i)) = Free" for x
    using Suc.prems(3) by (auto simp: st1_def)
  have keep: "slot_of (ps_block st1) (of_nat j) = slot_of (ps_block st) (of_nat j)" if "i < j" "j < unat (ctx_n ctx)" for j
    using that assms(3) u32_of_nat_255 [of j i] slot_of_clear [OF Suc.prems(3) iN] by (auto simp: st1_def)
  obtain st' where st': "alone env ctx bid t st1 st'" "ps_pc st' = (ps_pc st1)(t := PIdle)" "ps_file st' = ps_file st1"
    "decoded (ps_block st') = decoded (ps_block st1)" "\<forall>x. ps_owner st1 x = Free \<longrightarrow> ps_owner st' x = Free"
    "\<forall>j. Suc i \<le> j \<longrightarrow> j < unat (ctx_n ctx) \<longrightarrow> g ! j \<noteq> None \<longrightarrow> ps_owner st' (slot_of (ps_block st1) (of_nat j)) = Free"
    using Suc.hyps(1) [OF i(2), of st1] st1 i(1) by auto
  have "ps_owner st' (slot_of (ps_block st) (of_nat j)) = Free" if "i \<le> j" "j < unat (ctx_n ctx)" "g ! j \<noteq> None" for j
  proof (cases "j = i")
    case True
    then show ?thesis using st1(6) st'(5) that(3) by simp
  next
    case False
    then have j: "Suc i \<le> j" using that(1) by simp
    have "ps_owner st' (slot_of (ps_block st1) (of_nat j)) = Free" using st'(6) j that(2,3) by blast
    then show ?thesis using keep [of j] j that(2) by simp
  qed
  then show ?case using alone_trans [OF to1 st'(1)] st' st1 by (intro exI [of _ st']) simp
qed

text \<open>A decoder that has what it needs, from its claim to its return, over any contents of the slots.\<close>

lemma decode_any_alone:
  assumes pc: "ps_pc st t = PGather []" and n: "unat (ctx_n ctx) \<le> 255" and cl: "decoded (ps_block st) = DECODE_CLAIMED"
    and g: "g = block_ptrs ctx (ps_block st)" and len: "length (slot_idx (ps_block st)) = 255"
    and rs: "rs_decode (env_lib env) (ctx_codec ctx) (pointed_symbols (ps_mem st) g) (pointed_present g) = Some bytes"
    and wr: "write_block (ctx_writer ctx) bid bytes (ps_file st) = (True, f)"
    and fs: "flush_block (env_os env) (ctx_writer ctx) bid f = (True, f')"
  shows "\<exists>st'. alone env ctx bid t st st' \<and> ps_pc st' = (ps_pc st)(t := PIdle) \<and> ps_file st' = f' \<and>
     decoded (ps_block st') = DECODE_COMPLETE \<and>
     (\<forall>j<unat (ctx_n ctx). g ! j \<noteq> None \<longrightarrow> ps_owner st' (slot_of (ps_block st) (of_nat j)) = Free)"
proof -
  let ?at = "\<lambda>p f. pgoto t p (st\<lparr>ps_file := f\<rparr>)"
  let ?st4 = "pgoto t (PRelease 0 g) (st\<lparr>ps_file := f', ps_block := (ps_block st)\<lparr>decoded := DECODE_COMPLETE\<rparr>\<rparr>)"
  have s0: "alone env ctx bid t st (pgoto t (PDecode g) st)" using gather_alone [of st t 0 ctx env bid] pc by (simp add: g)
  have s1: "thread_step env ctx bid t None (pgoto t (PDecode g) st) = Some (pgoto t (PWrite g bytes) st)"
    using rs by (simp add: thread_step_def)
  have s2: "thread_step env ctx bid t None (pgoto t (PWrite g bytes) st) = Some (?at (PFlush g) f)"
    using wr by (simp add: thread_step_def pgoto_def)
  have s3: "thread_step env ctx bid t None (?at (PFlush g) f) = Some (?at (PMark g) f')"
    using fs by (simp add: thread_step_def pgoto_def)
  have s4: "thread_step env ctx bid t None (?at (PMark g) f') = Some ?st4"
    using cl by (simp add: thread_step_def pgoto_def mark_decode_complete_def)
  obtain st' where st': "alone env ctx bid t ?st4 st'" "ps_pc st' = (ps_pc ?st4)(t := PIdle)" "ps_file st' = ps_file ?st4"
    "decoded (ps_block st') = decoded (ps_block ?st4)"
    "\<forall>j. 0 \<le> j \<longrightarrow> j < unat (ctx_n ctx) \<longrightarrow> g ! j \<noteq> None \<longrightarrow> ps_owner st' (slot_of (ps_block ?st4) (of_nat j)) = Free"
    using release_loop_alone [of ?st4 t 0 g ctx env bid] n len by auto
  have "alone env ctx bid t st st'"
    by (rule alone_trans [OF s0 alone_step [OF s1 alone_step [OF s2 alone_step [OF s3 alone_step [OF s4 st'(1)]]]]])
  then show ?thesis using st'(2-5) by (intro exI [of _ st']) simp
qed

text \<open>
  C28: a decoder that reads an unpublished link decodes a foreign slot and frees it.  Let one handler be
  about to set the presence bit of symbol s, whose link still reads the 0 of the zeroed entry, and let another
  be past its registration, k symbols being counted and the block not claimed.  If the first is stopped between
  its two stores (the bit is set, the link is not) and the second goes on, it claims the block, takes the
  contents of slot 0 for symbol s, whoever slot 0 belongs to, and whenever the codec, the write and the sync
  succeed on them, what they give is durable in the file as the block, the block is marked complete, and
  slot 0 is free.
\<close>

theorem unpublished_link_corrupts_block:
  assumes "ps_pc st u = PLoad s y" and "ps_pc st t = PSeen" and "t \<noteq> u"
    and "length (present_mask (ps_block st)) = 4" and "length (slot_idx (ps_block st)) = 255"
    and "s < ctx_n ctx" and "ctx_n ctx \<le> MAX_N" and "\<not> is_present (ps_block st) s" and "slot_of (ps_block st) s = 0"
    and "ctx_k ctx \<le> seen (ps_block st)" and "decoded (ps_block st) = DECODE_PENDING"
    and "g = (block_ptrs ctx (ps_block st))[unat s := Some 0]"
    and "rs_decode (env_lib env) (ctx_codec ctx) (pointed_symbols (ps_mem st) g) (pointed_present g) = Some bytes"
    and "write_block (ctx_writer ctx) bid bytes (ps_file st) = (True, f)"
    and "flush_block (env_os env) (ctx_writer ctx) bid f = (True, f')"
    and "unat (bw_block_bytes (ctx_writer ctx)) \<le> length bytes"
  shows "\<exists>st1 st'. alone env ctx bid u st st1 \<and> ps_pc st1 u = PLink s y \<and>
     alone env ctx bid t st1 st' \<and> ps_pc st' = (ps_pc st1)(t := PIdle) \<and>
     decoded (ps_block st') = DECODE_COMPLETE \<and> ps_owner st' 0 = Free \<and>
     (\<forall>i<block_len (ctx_writer ctx) bid. durable (ps_file st') (block_off (ctx_writer ctx) bid + i) = bytes ! i)"
proof -
  let ?e = "ps_block st"
  have n: "unat (ctx_n ctx) \<le> 255" and sN: "s < MAX_N" and sn: "unat s < unat (ctx_n ctx)"
    using assms(6,7) by (auto simp: MAX_N_def word_le_nat_alt word_less_nat_alt)
  let ?old = "present_mask ?e ! sym_word s"
  define e1 where "e1 = ?e\<lparr>present_mask := (present_mask ?e)[sym_word s := ?old OR sym_bit s]\<rparr>"
  have bit: "?old AND sym_bit s = 0" using assms(8) sN by (simp add: is_present_def not_le)
  define st1 where "st1 = pgoto u (PLink s y) (st\<lparr>ps_block := e1\<rparr>)"
  have u1: "thread_step env ctx bid u None st = Some (pgoto u (PLoop s y ?old) st)" using assms(1) by (simp add: thread_step_def)
  have u2: "thread_step env ctx bid u None (pgoto u (PLoop s y ?old) st) = Some st1"
    using bit by (simp add: thread_step_def st1_def e1_def pgoto_def Let_def)
  have to1: "alone env ctx bid u st st1" by (rule alone_step [OF u1 alone_step [OF u2 alone_refl]])
  define st2 where "st2 = pgoto t (PGather []) (st1\<lparr>ps_block := e1\<lparr>decoded := DECODE_CLAIMED\<rparr>\<rparr>)"
  have t1: "thread_step env ctx bid t None st1 = Some (pgoto t PClaim st1)"
    using assms(2,3,10) by (simp add: thread_step_def st1_def e1_def)
  have t2: "thread_step env ctx bid t None (pgoto t PClaim st1) = Some st2"
    using assms(11) by (simp add: thread_step_def st2_def st1_def try_claim_decode_def pgoto_def e1_def)
  have links: "links (e1\<lparr>decoded := DECODE_CLAIMED\<rparr>) r = (if r = s then Some 0 else links ?e r)" for r
    using is_present_set [OF assms(4) sN, of r] assms(8,9) by (simp add: links_def e1_def)
  have g: "g = block_ptrs ctx (ps_block st2)"
  proof (rule nth_equalityI)
    show "length g = length (block_ptrs ctx (ps_block st2))" by (simp add: assms(12) block_ptrs_def)
    fix j assume "j < length g"
    then have j: "j < unat (ctx_n ctx)" by (simp add: assms(12) block_ptrs_def)
    have "of_nat j = s \<longleftrightarrow> j = unat s" using j n by (auto simp: unat_of_nat_small)
    then show "g ! j = block_ptrs ctx (ps_block st2) ! j"
      using j links [of "of_nat j"] by (simp add: assms(12) block_ptrs_def st2_def nth_list_update)
  qed
  have same: "ps_pc st2 t = PGather []" "decoded (ps_block st2) = DECODE_CLAIMED" "length (slot_idx (ps_block st2)) = 255"
    "ps_mem st2 = ps_mem st" "ps_file st2 = ps_file st" "slot_of (ps_block st2) s = 0"
    using assms(5,9) by (simp_all add: st2_def st1_def e1_def)
  obtain st' where st': "alone env ctx bid t st2 st'" "ps_pc st' = (ps_pc st2)(t := PIdle)" "ps_file st' = f'"
    "decoded (ps_block st') = DECODE_COMPLETE"
    "\<forall>j<unat (ctx_n ctx). g ! j \<noteq> None \<longrightarrow> ps_owner st' (slot_of (ps_block st2) (of_nat j)) = Free"
    using decode_any_alone [OF same(1) n same(2) g same(3), unfolded same(4,5), OF assms(13-15)] by blast
  have "g ! unat s \<noteq> None" using sn by (simp add: assms(12) block_ptrs_def)
  then have "ps_owner st' 0 = Free" using st'(5) sn same(6) by fastforce
  moreover have "alone env ctx bid t st1 st'" by (rule alone_step [OF t1 alone_step [OF t2 st'(1)]])
  moreover have "durable (ps_file st') (block_off (ctx_writer ctx) bid + i) = bytes ! i" if "i < block_len (ctx_writer ctx) bid" for i
    using write_flush_durable_lemma [OF assms(14,15,16) that] by (simp add: st'(3))
  ultimately show ?thesis using to1 st'(2,4) assms(3)
    by (intro exI [of _ st1] exI [of _ st']) (simp add: st2_def, simp add: st1_def)
qed

text \<open>
  Two symbols of one block at two receivers; slot 0 holds another session's data.  From a start of the two
  handlers such a state is reached, and the block's byte is durably 9 where the sender's is 1.
\<close>

theorem unpublished_link_corrupts_block_witness:
  "\<exists>st'. packet_reachable False pair_env pair_ctx 0 (sent_symbols (env_lib pair_env) pair_ctx [[1]]) st' \<and>
     decoded (ps_block st') = DECODE_COMPLETE \<and> durable (ps_file st') 0 = 9 \<and>
     ps_owner pair_start 0 = Elsewhere \<and> ps_owner st' 0 = Free"
proof -
  obtain st where run: "run_schedule False [0, 1] pair_env pair_ctx 0 (sent_symbols (env_lib pair_env) pair_ctx [[1]])
       (Arrive 1 0 # moves 1 4 @ Arrive 0 1 # moves 0 8) pair_start = Some st"
    and pc: "ps_pc st 1 = PLoad 0 5" "ps_pc st 0 = PSeen"
    and e: "ps_block st = pair_entry 2 ((replicate 255 0)[1 := 7]) 1 DECODE_PENDING" and mem: "ps_mem st 0 = [9]"
    unfolding pair_coded(2) pair_start_def zero_pair by (simp add: pair_eval)
  have "packet_reachable False pair_env pair_ctx 0 (sent_symbols (env_lib pair_env) pair_ctx [[1]]) pair_start"
    unfolding pair_start_def by (rule packet_reachable.start) (simp_all add: kListEnd_eq)
  then have reach: "packet_reachable False pair_env pair_ctx 0 (sent_symbols (env_lib pair_env) pair_ctx [[1]]) st"
    by (rule run_reachable [OF run]) (simp add: pair_start_def)
  have ptrs: "(block_ptrs pair_ctx (ps_block st))[unat 0 := Some 0] = [Some 0, Some 7]"
    by (simp add: e block_ptrs_def pair_sel links_def pair_present pair_slots upt_rec)
  let ?f = "(ps_file st)\<lparr>cached := (cached (ps_file st))(0 := 9)\<rparr>"
  have rs: "rs_decode (env_lib pair_env) (ctx_codec pair_ctx) (pointed_symbols (ps_mem st) [Some 0, Some 7])
      (pointed_present [Some 0, Some 7]) = Some [9]"
    by (simp add: pair_sel pair_decode mem)
  have len: "length (slot_idx (ps_block st)) = 255" "length (present_mask (ps_block st)) = 4" by (simp_all add: e pair_entry_sel)
  have small: "unat (bw_block_bytes (ctx_writer pair_ctx)) \<le> length [9 :: u8]" by (simp add: pair_ctx_def)
  obtain st1 st' where st': "alone pair_env pair_ctx 0 1 st st1" "alone pair_env pair_ctx 0 0 st1 st'"
    "decoded (ps_block st') = DECODE_COMPLETE" "ps_owner st' 0 = Free"
    "\<forall>i<block_len (ctx_writer pair_ctx) 0. durable (ps_file st') (block_off (ctx_writer pair_ctx) 0 + i) = [9] ! i"
    using unpublished_link_corrupts_block [OF pc _ len(2,1), of pair_ctx _ pair_env "[9]" 0 ?f, OF _ _ _ _ _ _ _ ptrs [symmetric] rs _ _ small]
    by (simp add: e pair_sel pair_entry_sel pair_present pair_slots MAX_N_def) blast
  have "packet_reachable False pair_env pair_ctx 0 (sent_symbols (env_lib pair_env) pair_ctx [[1]]) st'"
    by (rule alone_reachable [OF st'(2) alone_reachable [OF st'(1) reach]])
  moreover have "durable (ps_file st') 0 = 9" using st'(5) by (simp add: pair_ctx_def block_len_def block_off_def)
  moreover have "ps_owner pair_start 0 = Elsewhere" by (simp add: pair_start_def)
  ultimately show ?thesis using st'(3,4) by blast
qed

end
