(* ===== verification/RxEnvelope.thy ===== *)
theory RxEnvelope
  imports FrameDispatcher Pipeline
begin

text \<open>
  \<^verbatim>\<open>src/receiver/rx_envelope.cpp\<close>: the control-plane messages.  The generated protobuf class
  \<^verbatim>\<open>RxEnvelope\<close> is modelled by its \<open>oneof\<close>, one constructor per case with the fields the receiver writes or
  reads; \<open>SerializeToString\<close> and \<open>ParseFromString\<close> are parameters (\<open>envelope_codec\<close>), as is the build's
  protocol hash.
\<close>

record Stats =
  stat_pkts_ok :: u64
  stat_crc_fail :: u64
  stat_bad_magic :: u64
  stat_unparsable :: u64
  stat_duplicates :: u64
  stat_no_session :: u64
  stat_arena_exhausted :: u64

record ReceiverStats =
  rs_receiver_id :: u32
  rs_counters :: Stats
  rs_kernel_drops :: u64
  rs_arena_high_water_pct :: u32

datatype 'x Envelope =
    EnvUnset
  | EnvSessionOpen SessionOpen
  | EnvPurgeSession string string
  | EnvConfig
  | EnvHeartbeat u32 u64
  | EnvReceiverHello u32 u32 u32 "u8 list"
  | EnvManifestSeen u32 "'x Manifest"
  | EnvBlockDecoded string u32 "u32 list"
  | EnvReceiverStats ReceiverStats

datatype RxEnvelopeCase = CaseUnset | CaseSessionOpen | CasePurgeSession | CaseConfig | CaseHeartbeat
  | CaseOtherReceiverOriginated

text \<open>\<open>ParseFromString\<close> clears the message first and returns whether the bytes parsed.\<close>

record 'x envelope_codec =
  serialize :: "'x Envelope \<Rightarrow> u8 list"
  parse_envelope :: "u8 list \<Rightarrow> bool \<times> 'x Envelope"
  proto_hash :: "u8 list"

definition build_receiver_hello :: "'x envelope_codec \<Rightarrow> u32 \<Rightarrow> u32 \<Rightarrow> u16 \<Rightarrow> u8 list" where
  "build_receiver_hello cd receiver_id pid listen_port =
     serialize cd (EnvReceiverHello receiver_id pid (ucast listen_port) (proto_hash cd))"

definition build_heartbeat :: "'x envelope_codec \<Rightarrow> u32 \<Rightarrow> u64 \<Rightarrow> u8 list" where
  "build_heartbeat cd process_id timestamp_unix_ms = serialize cd (EnvHeartbeat process_id timestamp_unix_ms)"

definition build_manifest_seen :: "'x envelope_codec \<Rightarrow> u32 \<Rightarrow> 'x Manifest \<Rightarrow> u8 list" where
  "build_manifest_seen cd receiver_id manifest = serialize cd (EnvManifestSeen receiver_id manifest)"

definition build_receiver_stats :: "'x envelope_codec \<Rightarrow> ReceiverStats \<Rightarrow> u8 list" where
  "build_receiver_stats cd stats = serialize cd (EnvReceiverStats stats)"

definition build_block_decoded :: "'x envelope_codec \<Rightarrow> string \<Rightarrow> u32 \<Rightarrow> u32 list \<Rightarrow> u8 list" where
  "build_block_decoded cd session_id receiver_id block_ids =
     serialize cd (EnvBlockDecoded session_id receiver_id block_ids)"

fun msg_case :: "'x Envelope \<Rightarrow> RxEnvelopeCase" where
  "msg_case (EnvSessionOpen _) = CaseSessionOpen"
| "msg_case (EnvPurgeSession _ _) = CasePurgeSession"
| "msg_case EnvConfig = CaseConfig"
| "msg_case (EnvHeartbeat _ _) = CaseHeartbeat"
| "msg_case (EnvReceiverHello _ _ _ _) = CaseOtherReceiverOriginated"
| "msg_case (EnvManifestSeen _ _) = CaseOtherReceiverOriginated"
| "msg_case (EnvBlockDecoded _ _ _) = CaseOtherReceiverOriginated"
| "msg_case (EnvReceiverStats _) = CaseOtherReceiverOriginated"
| "msg_case EnvUnset = CaseUnset"

text \<open>The result is the return value, \<open>*out_envelope\<close> and \<open>*out_case\<close> afterwards.\<close>

definition parse_incoming ::
  "'x envelope_codec \<Rightarrow> u8 list \<Rightarrow> RxEnvelopeCase \<Rightarrow> bool \<times> 'x Envelope \<times> RxEnvelopeCase" where
  "parse_incoming cd raw out_case =
     (case parse_envelope cd raw of
        (False, env) \<Rightarrow> (False, env, out_case)
      | (True, env) \<Rightarrow> (True, env, msg_case env))"

text \<open>Documented behaviour of the serializer: what it writes parses back.\<close>

definition codec_roundtrips :: "'x envelope_codec \<Rightarrow> bool" where
  "codec_roundtrips cd \<longleftrightarrow> (\<forall>env. parse_envelope cd (serialize cd env) = (True, env))"

lemma parse_own_messages:
  assumes "codec_roundtrips cd"
  shows "parse_incoming cd (build_receiver_hello cd rid pid port) c =
      (True, EnvReceiverHello rid pid (ucast port) (proto_hash cd), CaseOtherReceiverOriginated)"
    and "parse_incoming cd (build_manifest_seen cd rid mf) c = (True, EnvManifestSeen rid mf, CaseOtherReceiverOriginated)"
    and "parse_incoming cd (build_block_decoded cd sid rid ids) c =
      (True, EnvBlockDecoded sid rid ids, CaseOtherReceiverOriginated)"
    and "parse_incoming cd (build_receiver_stats cd st) c = (True, EnvReceiverStats st, CaseOtherReceiverOriginated)"
  using assms by (simp_all add: codec_roundtrips_def parse_incoming_def build_receiver_hello_def build_manifest_seen_def
      build_block_decoded_def build_receiver_stats_def)

end
