(* ===== verification/MainLoop.thy ===== *)
theory MainLoop
  imports RxEnvelope
begin

text \<open>
  \<^verbatim>\<open>src/receiver/main.cpp\<close>: the event loop's handlers.  A datagram or control message is its bytes;
  \<open>uds.send\<close> appends to \<open>rx_sent\<close> (the loop ignores its result); \<open>poll\<close>, the clock and the pid are inputs.
  Log output is left out.
\<close>

section \<open>State\<close>

record 'x EarlySession =
  es_manifest :: "'x Manifest"
  es_buffered :: "(u32 \<times> u32 \<times> u8 list) list"

record 'x Receiver =
  rx_world :: World
  rx_early :: "string \<rightharpoonup> 'x EarlySession"
  rx_frame :: "'x Frame"
  rx_stats :: Stats
  rx_sent :: "u8 list list"

record 'x Config =
  cf_cpu :: cpu
  cf_parse :: "u8 list \<Rightarrow> bool \<times> 'x Frame"
  cf_env :: Env
  cf_codec :: "'x envelope_codec"
  cf_receiver_id :: u32
  cf_pid :: u32

definition kMaxBufferedPerSession :: nat where
  "kMaxBufferedPerSession = 8192"

definition send :: "u8 list \<Rightarrow> 'x Receiver \<Rightarrow> 'x Receiver" where
  "send msg rx = rx\<lparr>rx_sent := rx_sent rx @ [msg]\<rparr>"

section \<open>UDP data plane\<close>

fun count_outcome :: "DataPacketOutcome \<Rightarrow> Stats \<Rightarrow> Stats" where
  "count_outcome Duplicate s = s\<lparr>stat_duplicates := stat_duplicates s + 1\<rparr>"
| "count_outcome UnknownSession s = s\<lparr>stat_no_session := stat_no_session s + 1\<rparr>"
| "count_outcome ArenaExhausted s = s\<lparr>stat_arena_exhausted := stat_arena_exhausted s + 1\<rparr>"
| "count_outcome _ s = s"

definition decoded_id :: "u32 option \<Rightarrow> u32" where
  "decoded_id out = (case out of None \<Rightarrow> 0 | Some b \<Rightarrow> b)"

definition on_data :: "'x Config \<Rightarrow> DataPacket \<Rightarrow> 'x Receiver \<Rightarrow> 'x Receiver" where
  "on_data cf dp rx =
     (case handle_data_packet (cf_env cf) (dp_session_id dp) (dp_block_id dp) (dp_symbol_id dp) (dp_payload dp) (rx_world rx) of
        ((outcome, out), w) \<Rightarrow>
          let rx = rx\<lparr>rx_world := w, rx_stats := count_outcome outcome (rx_stats rx)\<rparr>
          in if outcome = BlockDecoded then
               send (build_block_decoded (cf_codec cf) (dp_session_id dp) (cf_receiver_id cf) [decoded_id out]) rx
             else if outcome = UnknownSession then
               (case rx_early rx (dp_session_id dp) of
                  None \<Rightarrow> rx
                | Some es \<Rightarrow>
                    if length (es_buffered es) < kMaxBufferedPerSession then
                      rx\<lparr>rx_early := (rx_early rx)(dp_session_id dp \<mapsto>
                         es\<lparr>es_buffered := es_buffered es @ [(dp_block_id dp, dp_symbol_id dp, dp_payload dp)]\<rparr>)\<rparr>
                    else rx)
             else rx)"

definition on_manifest :: "'x Config \<Rightarrow> 'x Manifest \<Rightarrow> 'x Receiver \<Rightarrow> 'x Receiver" where
  "on_manifest cf mf rx =
     (if rx_early rx (mf_session_id mf) = None then
        send (build_manifest_seen (cf_codec cf) (cf_receiver_id cf) mf)
          (rx\<lparr>rx_early := (rx_early rx)(mf_session_id mf \<mapsto> \<lparr>es_manifest = mf, es_buffered = []\<rparr>)\<rparr>)
      else rx)"

fun count_invalid :: "FrameDecodeResult \<Rightarrow> Stats \<Rightarrow> Stats" where
  "count_invalid FrameBadMagic s = s\<lparr>stat_bad_magic := stat_bad_magic s + 1\<rparr>"
| "count_invalid FrameCrcFail s = s\<lparr>stat_crc_fail := stat_crc_fail s + 1\<rparr>"
| "count_invalid FrameUnparsable s = s\<lparr>stat_unparsable := stat_unparsable s + 1\<rparr>"
| "count_invalid FrameOk s = s"

definition on_datagram :: "'x Config \<Rightarrow> u8 list \<Rightarrow> 'x Receiver \<Rightarrow> 'x Receiver" where
  "on_datagram cf datagram rx =
     (case decode_frame (cf_cpu cf) (cf_parse cf) (Some datagram) (rx_frame rx) of
        (result, frame) \<Rightarrow>
          let rx = rx\<lparr>rx_frame := frame\<rparr>
          in if result \<noteq> FrameOk then rx\<lparr>rx_stats := count_invalid result (rx_stats rx)\<rparr>
             else
               let rx = rx\<lparr>rx_stats := (rx_stats rx)\<lparr>stat_pkts_ok := stat_pkts_ok (rx_stats rx) + 1\<rparr>\<rparr>
               in case frame of
                    FrameData dp \<Rightarrow> on_data cf dp rx
                  | FrameManifest mf \<Rightarrow> on_manifest cf mf rx
                  | FrameEnd \<Rightarrow> rx
                  | MsgNotSet \<Rightarrow> rx)"

section \<open>UDS control plane\<close>

fun count_replayed :: "DataPacketOutcome \<Rightarrow> Stats \<Rightarrow> Stats" where
  "count_replayed Duplicate s = s\<lparr>stat_duplicates := stat_duplicates s + 1\<rparr>"
| "count_replayed ArenaExhausted s = s\<lparr>stat_arena_exhausted := stat_arena_exhausted s + 1\<rparr>"
| "count_replayed _ s = s"

definition replay_one :: "'x Config \<Rightarrow> string \<Rightarrow> u32 \<times> u32 \<times> u8 list \<Rightarrow> 'x Receiver \<Rightarrow> 'x Receiver" where
  "replay_one cf session_id dg rx =
     (case dg of (block_id, symbol_id, payload) \<Rightarrow>
        case handle_data_packet (cf_env cf) session_id block_id symbol_id payload (rx_world rx) of
          ((outcome, out), w) \<Rightarrow>
            let rx = rx\<lparr>rx_world := w, rx_stats := count_replayed outcome (rx_stats rx)\<rparr>
            in if outcome = BlockDecoded then
                 send (build_block_decoded (cf_codec cf) session_id (cf_receiver_id cf) [decoded_id out]) rx
               else rx)"

definition on_session_open :: "'x Config \<Rightarrow> SessionOpen \<Rightarrow> 'x Receiver \<Rightarrow> 'x Receiver" where
  "on_session_open cf so rx =
     (case handle_session_open (cf_env cf) so (so_file_size so) (rx_world rx) of
        (False, w) \<Rightarrow> rx\<lparr>rx_world := w\<rparr>
      | (True, w) \<Rightarrow>
          let rx = rx\<lparr>rx_world := w\<rparr>
          in case rx_early rx (so_session_id so) of
               None \<Rightarrow> rx
             | Some es \<Rightarrow>
                 let rx = fold (replay_one cf (so_session_id so)) (es_buffered es) rx
                 in rx\<lparr>rx_early := (rx_early rx)(so_session_id so := None)\<rparr>)"

definition on_purge :: "'x Config \<Rightarrow> string \<Rightarrow> 'x Receiver \<Rightarrow> 'x Receiver" where
  "on_purge cf session_id rx =
     rx\<lparr>rx_world := purge_session (cf_env cf) session_id (rx_world rx),
        rx_early := (rx_early rx)(session_id := None)\<rparr>"

definition on_control :: "'x Config \<Rightarrow> u8 list option \<Rightarrow> 'x Receiver \<Rightarrow> 'x Receiver" where
  "on_control cf raw rx =
     (case raw of None \<Rightarrow> rx
      | Some bytes \<Rightarrow>
          (case parse_incoming (cf_codec cf) bytes CaseUnset of
             (False, _, _) \<Rightarrow> rx
           | (True, envelope, kase) \<Rightarrow>
               (case (kase, envelope) of
                  (CaseSessionOpen, EnvSessionOpen so) \<Rightarrow> on_session_open cf so rx
                | (CasePurgeSession, EnvPurgeSession session_id reason) \<Rightarrow> on_purge cf session_id rx
                | _ \<Rightarrow> rx)))"

section \<open>Heartbeat\<close>

text \<open>
  \<open>100.0 * high_water / slot_count\<close> truncated to an integer: with 32-bit operands the double quotient
  never rounds up to the next integer, so it is the integer quotient.
\<close>

definition high_water_pct :: "ShmManager \<Rightarrow> Segment \<Rightarrow> u32" where
  "high_water_pct mgr seg =
     (if \<not> header_ptr mgr \<or> slot_count (hdr seg) = 0 then 0
      else of_nat (100 * unat (high_water_used_count mgr seg) div unat (slot_count (hdr seg))))"

definition on_heartbeat :: "'x Config \<Rightarrow> u64 \<Rightarrow> 'x Receiver \<Rightarrow> 'x Receiver" where
  "on_heartbeat cf now_ms rx =
     (let rx = send (build_heartbeat (cf_codec cf) (cf_pid cf) now_ms) rx;
          stats = \<lparr>rs_receiver_id = cf_receiver_id cf, rs_counters = rx_stats rx, rs_kernel_drops = 0,
                   rs_arena_high_water_pct = high_water_pct (env_mgr (cf_env cf)) (shm (rx_world rx))\<rparr>
      in send (build_receiver_stats (cf_codec cf) stats) rx)"

section \<open>Frames of the handlers\<close>

lemma send_sel [simp]:
  "rx_world (send m rx) = rx_world rx" "rx_early (send m rx) = rx_early rx" "rx_frame (send m rx) = rx_frame rx"
  "rx_stats (send m rx) = rx_stats rx" "rx_sent (send m rx) = rx_sent rx @ [m]"
  by (simp_all add: send_def)

definition frames_counted :: "Stats \<Rightarrow> u64" where
  "frames_counted s = stat_pkts_ok s + stat_crc_fail s + stat_bad_magic s + stat_unparsable s"

lemma frames_counted_other [simp]:
  "frames_counted (s\<lparr>stat_no_session := x\<rparr>) = frames_counted s"
  "frames_counted (s\<lparr>stat_duplicates := x\<rparr>) = frames_counted s"
  "frames_counted (s\<lparr>stat_arena_exhausted := x\<rparr>) = frames_counted s"
  by (simp_all add: frames_counted_def)

lemma count_outcome_frames [simp]: "frames_counted (count_outcome out s) = frames_counted s"
  by (cases out) (simp_all add: frames_counted_def)

lemma on_data_frames [simp]: "frames_counted (rx_stats (on_data cf dp rx)) = frames_counted (rx_stats rx)"
  by (simp add: on_data_def Let_def split: prod.splits option.splits)

lemma on_manifest_stats [simp]: "rx_stats (on_manifest cf mf rx) = rx_stats rx"
  by (simp add: on_manifest_def)

lemma on_datagram_frames:
  "frames_counted (rx_stats (on_datagram cf d rx)) = frames_counted (rx_stats rx) + 1"
proof -
  obtain result frame where dec: "decode_frame (cf_cpu cf) (cf_parse cf) (Some d) (rx_frame rx) = (result, frame)" by fastforce
  show ?thesis
    by (cases result; cases frame) (simp_all add: on_datagram_def dec Let_def, simp_all add: frames_counted_def)
qed

text \<open>The contexts of the pipeline do not change with data packets.\<close>

lemma set_block_contexts [simp]: "contexts (set_block a e w) = contexts w"
  by simp

lemma decode_and_write_contexts [simp]: "contexts (snd (decode_and_write_block env ctx bid a w)) = contexts w"
  by (simp add: decode_and_write_block_def Let_def split: option.splits prod.splits bool.splits)

lemma handle_data_packet_contexts [simp]: "contexts (snd (handle_data_packet env sid bid symid payload w)) = contexts w"
proof -
  have "contexts w' = contexts v" if "decode_and_write_block env ctx bid a v = (r, w')" for ctx a v r w'
    using decode_and_write_contexts [of env ctx bid a v] that by simp
  then show ?thesis
    unfolding handle_data_packet_eq Let_def
    by (auto split: option.splits prod.splits bool.splits if_splits)
qed

text \<open>Replaying touches neither the early-data table nor the count of packets without a session.\<close>

definition add_no_session :: "u64 \<Rightarrow> 'x Receiver \<Rightarrow> 'x Receiver" where
  "add_no_session c rx = rx\<lparr>rx_stats := (rx_stats rx)\<lparr>stat_no_session := stat_no_session (rx_stats rx) + c\<rparr>\<rparr>"

lemma add_no_session_sel [simp]:
  "rx_world (add_no_session c rx) = rx_world rx" "rx_early (add_no_session c rx) = rx_early rx"
  by (simp_all add: add_no_session_def)

lemma count_replayed_no_session:
  "count_replayed out (s\<lparr>stat_no_session := c\<rparr>) = (count_replayed out s)\<lparr>stat_no_session := c\<rparr>"
  "stat_no_session (count_replayed out s) = stat_no_session s"
  by (cases out; simp)+

lemma replay_commute:
  "replay_one cf sid dg (add_no_session c (rx\<lparr>rx_early := m\<rparr>)) = add_no_session c ((replay_one cf sid dg rx)\<lparr>rx_early := m\<rparr>)"
  by (simp add: replay_one_def add_no_session_def Let_def send_def count_replayed_no_session split: prod.splits)

lemma fold_replay_commute:
  "fold (replay_one cf sid) dgs (add_no_session c (rx\<lparr>rx_early := m\<rparr>)) =
   add_no_session c ((fold (replay_one cf sid) dgs rx)\<lparr>rx_early := m\<rparr>)"
  by (induction dgs arbitrary: rx) (simp_all add: replay_commute)

lemma fold_replay_commute_early:
  "fold (replay_one cf sid) dgs (rx\<lparr>rx_early := m\<rparr>) = (fold (replay_one cf sid) dgs rx)\<lparr>rx_early := m\<rparr>"
  using fold_replay_commute [of cf sid dgs 0 m rx] by (simp add: add_no_session_def)

definition early_packet :: "string \<Rightarrow> u32 \<times> u32 \<times> u8 list \<Rightarrow> DataPacket" where
  "early_packet sid dg = (case dg of (block_id, symbol_id, payload) \<Rightarrow>
     \<lparr>dp_session_id = sid, dp_block_id = block_id, dp_symbol_id = symbol_id, dp_payload = payload\<rparr>)"

lemma early_buffering:
  assumes "contexts (rx_world rx) sid = None" and "rx_early rx sid = Some es"
    and "length (es_buffered es) + length dgs \<le> kMaxBufferedPerSession"
  shows "fold (on_data cf) (map (early_packet sid) dgs) rx =
     add_no_session (of_nat (length dgs))
       (rx\<lparr>rx_early := (rx_early rx)(sid \<mapsto> es\<lparr>es_buffered := es_buffered es @ dgs\<rparr>)\<rparr>)"
  using assms
proof (induction dgs arbitrary: rx es)
  case Nil
  then show ?case by (simp add: add_no_session_def fun_upd_idem)
next
  case (Cons dg dgs)
  let ?es = "es\<lparr>es_buffered := es_buffered es @ [dg]\<rparr>"
  let ?rx = "add_no_session 1 (rx\<lparr>rx_early := (rx_early rx)(sid \<mapsto> ?es)\<rparr>)"
  have "on_data cf (early_packet sid dg) rx = ?rx"
    using Cons.prems
    by (simp add: on_data_def early_packet_def packet_rejected(1) Let_def add_no_session_def split: prod.splits)
  moreover have "fold (on_data cf) (map (early_packet sid) dgs) ?rx = add_no_session (of_nat (length dgs))
       (?rx\<lparr>rx_early := (rx_early ?rx)(sid \<mapsto> ?es\<lparr>es_buffered := es_buffered ?es @ dgs\<rparr>)\<rparr>)"
    using Cons.prems by (intro Cons.IH) (simp_all add: add_no_session_def)
  moreover have "(rx_early ?rx)(sid \<mapsto> ?es\<lparr>es_buffered := es_buffered ?es @ dgs\<rparr>) =
     (rx_early rx)(sid \<mapsto> es\<lparr>es_buffered := es_buffered es @ dg # dgs\<rparr>)"
    by (simp add: add_no_session_def)
  ultimately show ?case by (simp add: add_no_session_def algebra_simps del: fun_upd_apply)
qed

lemma known_session_outcome:
  assumes "contexts w sid \<noteq> None" and "handle_data_packet env sid bid symid payload w = ((outcome, out), w')"
  shows "outcome \<noteq> UnknownSession"
  using assms unfolding handle_data_packet_eq Let_def
  by (auto split: option.splits prod.splits bool.splits if_splits)

lemma on_data_open_session:
  assumes "contexts (rx_world rx) sid \<noteq> None"
  shows "on_data cf (early_packet sid dg) rx = replay_one cf sid dg rx"
    and "contexts (rx_world (replay_one cf sid dg rx)) = contexts (rx_world rx)"
proof -
  obtain b s p where dg: "dg = (b, s, p)" by (cases dg)
  obtain outcome out w where h: "handle_data_packet (cf_env cf) sid b s p (rx_world rx) = ((outcome, out), w)"
    by (metis surj_pair)
  note ne = known_session_outcome [OF assms h]
  have "count_outcome outcome st = count_replayed outcome st" for st using ne by (cases outcome) simp_all
  then show "on_data cf (early_packet sid dg) rx = replay_one cf sid dg rx"
    using ne by (simp add: on_data_def replay_one_def early_packet_def dg h Let_def)
  have "contexts w = contexts (rx_world rx)"
    using handle_data_packet_contexts [of "cf_env cf" sid b s p "rx_world rx"] by (simp add: h)
  then show "contexts (rx_world (replay_one cf sid dg rx)) = contexts (rx_world rx)"
    by (simp add: replay_one_def dg h Let_def)
qed

lemma fold_on_data_open_session:
  "contexts (rx_world rx) sid \<noteq> None \<Longrightarrow>
   fold (on_data cf) (map (early_packet sid) dgs) rx = fold (replay_one cf sid) dgs rx"
  by (induction dgs arbitrary: rx) (simp_all add: on_data_open_session)

lemma opened_context:
  "handle_session_open env so fs w = (True, w') \<Longrightarrow> contexts w' (so_session_id so) \<noteq> None"
  by (auto simp: handle_session_open_def Let_def split: if_splits option.splits prod.splits bool.splits)

section \<open>Properties\<close>

text \<open>
  Every datagram is counted exactly once.  Over a batch of any datagrams, valid or not, the counters
  of accepted frames, bad magic, CRC failures and unparsable frames together grow by the number of
  datagrams.
\<close>

theorem every_datagram_counted:
  "frames_counted (rx_stats (fold (on_datagram cf) batch rx)) = frames_counted (rx_stats rx) + of_nat (length batch)"
  by (induction batch arbitrary: rx) (simp_all add: on_datagram_frames algebra_simps)

definition buffers_bounded :: "'x Receiver \<Rightarrow> bool" where
  "buffers_bounded rx \<longleftrightarrow> (\<forall>sid es. rx_early rx sid = Some es \<longrightarrow> length (es_buffered es) \<le> kMaxBufferedPerSession)"

lemma on_datagram_bounded: "buffers_bounded rx \<Longrightarrow> buffers_bounded (on_datagram cf d rx)"
proof -
  assume b: "buffers_bounded rx"
  have data: "buffers_bounded (on_data cf dp r)" if "buffers_bounded r" for dp r
    using that unfolding on_data_def Let_def buffers_bounded_def
    by (auto split: prod.splits option.splits if_splits)
  have man: "buffers_bounded (on_manifest cf mf r)" if "buffers_bounded r" for mf r
    using that by (auto simp: on_manifest_def buffers_bounded_def)
  have other: "buffers_bounded (r\<lparr>rx_frame := f\<rparr>) = buffers_bounded r" "buffers_bounded (r\<lparr>rx_stats := st\<rparr>) = buffers_bounded r"
    for r :: "'a Receiver" and f st by (simp_all add: buffers_bounded_def)
  obtain result frame where dec: "decode_frame (cf_cpu cf) (cf_parse cf) (Some d) (rx_frame rx) = (result, frame)" by fastforce
  show "buffers_bounded (on_datagram cf d rx)"
    using b by (cases frame) (simp_all add: on_datagram_def dec Let_def other data man)
qed

lemma replay_early [simp]: "rx_early (replay_one cf sid dg rx) = rx_early rx"
  by (simp add: replay_one_def Let_def split: prod.splits)

lemma fold_replay_early [simp]: "rx_early (fold (replay_one cf sid) dgs rx) = rx_early rx"
  by (induction dgs arbitrary: rx) simp_all

lemma on_control_bounded: "buffers_bounded rx \<Longrightarrow> buffers_bounded (on_control cf raw rx)"
proof -
  assume b: "buffers_bounded rx"
  have "buffers_bounded (on_session_open cf so rx)" for so
    using b by (auto simp: on_session_open_def Let_def buffers_bounded_def split: prod.splits bool.splits option.splits)
  moreover have "buffers_bounded (on_purge cf sid rx)" for sid using b by (auto simp: on_purge_def buffers_bounded_def)
  ultimately show ?thesis
    using b by (auto simp: on_control_def split: option.splits prod.splits bool.splits RxEnvelopeCase.splits Envelope.splits)
qed

lemma on_heartbeat_bounded: "buffers_bounded (on_heartbeat cf t rx) = buffers_bounded rx"
  by (simp add: on_heartbeat_def Let_def buffers_bounded_def)

definition demo_frame :: "unit Frame" where
  "demo_frame = FrameData \<lparr>dp_session_id = ''s1'', dp_block_id = 0, dp_symbol_id = 1, dp_payload = [7, 8, 9]\<rparr>"

definition demo_codec :: "unit envelope_codec" where
  "demo_codec = \<lparr>serialize = (\<lambda>env. case env of EnvManifestSeen _ _ \<Rightarrow> [1] | EnvBlockDecoded _ _ _ \<Rightarrow> [2] | _ \<Rightarrow> [0]),
     parse_envelope = (\<lambda>raw. (raw = [9], if raw = [9] then EnvSessionOpen demo_open else EnvUnset)), proto_hash = []\<rparr>"

definition demo_cfg :: "unit Config" where
  "demo_cfg = \<lparr>cf_cpu = intel_cpu, cf_parse = (\<lambda>b. (True, demo_frame)), cf_env = demo_env, cf_codec = demo_codec,
     cf_receiver_id = 1, cf_pid = 2\<rparr>"

definition demo_manifest :: "unit Manifest" where
  "demo_manifest = \<lparr>mf_session_id = ''s1'', mf_rest = ()\<rparr>"

definition demo_rx :: "unit Receiver" where
  "demo_rx = \<lparr>rx_world = start_world, rx_early = [''s1'' \<mapsto> \<lparr>es_manifest = demo_manifest, es_buffered = []\<rparr>],
     rx_frame = MsgNotSet, rx_stats = \<lparr>stat_pkts_ok = 0, stat_crc_fail = 0, stat_bad_magic = 0, stat_unparsable = 0,
       stat_duplicates = 0, stat_no_session = 0, stat_arena_exhausted = 0\<rparr>, rx_sent = []\<rparr>"

text \<open>
  C21: early data is not lost.  For a session whose Manifest is known, receiving up to 8192 data packets
  before the SessionOpen and replaying them when it succeeds leaves the same segment, files, contexts,
  messages to the manager, buffers and counters as receiving the SessionOpen first and the packets
  afterwards, except that each early packet was also counted once as without a session.
\<close>

theorem early_data_equivalence:
  assumes "contexts (rx_world rx) (so_session_id so) = None"
    and "rx_early rx (so_session_id so) = Some \<lparr>es_manifest = mf, es_buffered = []\<rparr>"
    and "length dgs \<le> kMaxBufferedPerSession"
    and "fst (handle_session_open (cf_env cf) so (so_file_size so) (rx_world rx))"
  shows "on_session_open cf so (fold (on_data cf) (map (early_packet (so_session_id so)) dgs) rx) =
     add_no_session (of_nat (length dgs))
       (fold (on_data cf) (map (early_packet (so_session_id so)) dgs) (on_session_open cf so rx))"
proof -
  let ?sid = "so_session_id so"
  obtain w' where ho: "handle_session_open (cf_env cf) so (so_file_size so) (rx_world rx) = (True, w')"
    using assms(4) by (cases "handle_session_open (cf_env cf) so (so_file_size so) (rx_world rx)") simp
  let ?rx = "rx\<lparr>rx_world := w', rx_early := (rx_early rx)(?sid := None)\<rparr>"
  have opened: "on_session_open cf so rx = ?rx" by (simp add: on_session_open_def ho assms(2) Let_def)
  have "fold (on_data cf) (map (early_packet ?sid) dgs) ?rx = fold (replay_one cf ?sid) dgs ?rx"
    using opened_context [OF ho] by (intro fold_on_data_open_session) simp
  moreover have "rx_early (fold (replay_one cf ?sid) dgs ?rx) = (rx_early rx)(?sid := None)" by simp
  moreover
  let ?m = "(rx_early rx)(?sid \<mapsto> \<lparr>es_manifest = mf, es_buffered = dgs\<rparr>)" and ?c = "of_nat (length dgs) :: u64"
  have "fold (on_data cf) (map (early_packet ?sid) dgs) rx = add_no_session ?c (rx\<lparr>rx_early := ?m\<rparr>)"
    using early_buffering [OF assms(1,2), of dgs cf] assms(3) by simp
  moreover have "on_session_open cf so (add_no_session ?c (rx\<lparr>rx_early := ?m\<rparr>)) =
     (fold (replay_one cf ?sid) dgs (add_no_session ?c (?rx\<lparr>rx_early := ?m\<rparr>)))\<lparr>rx_early := (rx_early rx)(?sid := None)\<rparr>"
  proof -
    have swap: "(add_no_session ?c (rx\<lparr>rx_early := ?m\<rparr>))\<lparr>rx_world := w'\<rparr> = add_no_session ?c (?rx\<lparr>rx_early := ?m\<rparr>)"
      by (simp add: add_no_session_def)
    show ?thesis unfolding on_session_open_def add_no_session_sel swap Let_def by (simp add: ho swap)
  qed
  ultimately show ?thesis
    by (simp only: opened fold_replay_commute fold_replay_commute_early [of _ _ _ _ "rx\<lparr>rx_world := w'\<rparr>"])
      (simp add: add_no_session_def)
qed

lemma demo_open_succeeds: "fst (handle_session_open demo_env demo_open 11 start_world)"
  by (simp add: demo_opens)

text \<open>
  The announcement of a session is sent once until the session opens, and again after.  A resent
  Manifest is ignored while its early-data entry exists; a successful SessionOpen erases that entry, so
  the next resend of the same Manifest sends ManifestSeen to the manager again.
\<close>

theorem manifest_resend_after_open:
  assumes "fst (handle_session_open (cf_env cf) so (so_file_size so) (rx_world rx))"
    and "rx_early rx (so_session_id so) \<noteq> None" and "mf_session_id mf = so_session_id so"
  shows "on_manifest cf mf rx = rx \<and>
         rx_sent (on_manifest cf mf (on_session_open cf so rx)) =
         rx_sent (on_session_open cf so rx) @ [build_manifest_seen (cf_codec cf) (cf_receiver_id cf) mf]"
proof -
  have "rx_early (on_session_open cf so rx) (so_session_id so) = None"
    using assms(1,2) by (auto simp: on_session_open_def Let_def split: prod.splits bool.splits)
  then show ?thesis using assms(2,3) by (auto simp: on_manifest_def)
qed

theorem early_data_equivalence_witness:
  "on_session_open demo_cfg demo_open (fold (on_data demo_cfg) (map (early_packet ''s1'') [(0, 1, [7, 8, 9])]) demo_rx) =
   add_no_session 1 (fold (on_data demo_cfg) (map (early_packet ''s1'') [(0, 1, [7, 8, 9])]) (on_session_open demo_cfg demo_open demo_rx))"
  using early_data_equivalence [of demo_rx demo_open demo_manifest "[(0, 1, [7, 8, 9])]" demo_cfg] demo_open_succeeds
  by (simp add: demo_rx_def demo_cfg_def demo_open_def start_world_def kMaxBufferedPerSession_def)

theorem manifest_resend_after_open_witness:
  "on_manifest demo_cfg demo_manifest demo_rx = demo_rx \<and>
   rx_sent (on_manifest demo_cfg demo_manifest (on_session_open demo_cfg demo_open demo_rx)) =
     rx_sent (on_session_open demo_cfg demo_open demo_rx) @ [[1]]"
  using manifest_resend_after_open [of demo_cfg demo_open demo_rx demo_manifest] demo_open_succeeds
  by (simp add: demo_rx_def demo_cfg_def demo_open_def demo_manifest_def demo_codec_def build_manifest_seen_def)

end
