(* ===== verification/UdpReceiver.thy ===== *)
theory UdpReceiver
  imports FrameDispatcher
begin

text \<open>
  \<^verbatim>\<open>src/receiver/udp_receiver.cpp\<close>: the UDP socket and its fixed buffer pool.  A pointer into the pool is
  an offset into \<open>buffers\<close>; the \<open>iovec\<close> array is a list of (offset, length).  The results of the system
  calls are parameters: \<open>udp_os\<close> for those of \<open>bind\<close>, and for \<open>recvmmsg\<close> either its \<open>errno\<close> or the
  datagrams it takes off the socket's queue, which the call copies into the iovecs, cut to their
  lengths.  A socket address is a type parameter.
\<close>

section \<open>State\<close>

definition MAX_DATAGRAM_SIZE :: nat where "MAX_DATAGRAM_SIZE = 2048"
definition RECV_BATCH_SIZE :: nat where "RECV_BATCH_SIZE = 64"
definition sizeof_sockaddr_in :: u32 where "sizeof_sockaddr_in = 16"
definition EAGAIN :: int where "EAGAIN = 11"
definition EWOULDBLOCK :: int where "EWOULDBLOCK = 11"
definition O_NONBLOCK :: u32 where "O_NONBLOCK = 2048"

record 'a ReceivedDatagram =
  rd_data :: nat
  rd_len :: nat
  rd_src_addr :: 'a

record 'a UdpReceiver =
  udp_fd :: int
  local_port :: u16
  buffers :: "u8 list"
  iovecs :: "(nat \<times> nat) list"
  msg_len :: "nat list"
  msg_namelen :: "u32 list"
  src_addrs :: "'a list"

record udp_os =
  os_socket :: int
  os_reuseaddr :: bool
  os_rcvbuf :: bool
  os_inet_pton :: "string \<Rightarrow> int"
  os_bind :: "u16 \<Rightarrow> bool"
  os_getsockname :: "u16 option"

datatype 'a recvmmsg_result = RecvErrno int | Received "(u8 list \<times> 'a) list"

section \<open>Operations\<close>

definition udp_close :: "'a UdpReceiver \<Rightarrow> 'a UdpReceiver" where
  "udp_close u =
     (let u = (if udp_fd u \<ge> 0 then u\<lparr>udp_fd := -1\<rparr> else u)
      in u\<lparr>local_port := 0, buffers := [], iovecs := [], msg_len := [], msg_namelen := [], src_addrs := []\<rparr>)"

text \<open>\<open>any_addr\<close> is the value-initialised \<open>sockaddr_in\<close>.\<close>

definition udp_bind :: "udp_os \<Rightarrow> 'a \<Rightarrow> u16 \<Rightarrow> string \<Rightarrow> 'a UdpReceiver \<Rightarrow> bool \<times> 'a UdpReceiver" where
  "udp_bind os any_addr port bind_addr u =
     (let u = udp_close u; u = u\<lparr>udp_fd := os_socket os\<rparr>
      in if udp_fd u < 0 then (False, u)
      else if \<not> os_reuseaddr os then (False, u\<lparr>udp_fd := -1\<rparr>)
      else
        let warned = \<not> os_rcvbuf os
        in if os_inet_pton os bind_addr \<noteq> 1 then (False, u\<lparr>udp_fd := -1\<rparr>)
        else if \<not> os_bind os port then (False, u\<lparr>udp_fd := -1\<rparr>)
        else case os_getsockname os of
          None \<Rightarrow> (False, u\<lparr>udp_fd := -1\<rparr>)
        | Some bound \<Rightarrow>
            (True, u\<lparr>local_port := bound,
               buffers := replicate (RECV_BATCH_SIZE * MAX_DATAGRAM_SIZE) 0,
               iovecs := map (\<lambda>i. (i * MAX_DATAGRAM_SIZE, MAX_DATAGRAM_SIZE)) [0..<RECV_BATCH_SIZE],
               msg_len := replicate RECV_BATCH_SIZE 0,
               msg_namelen := replicate RECV_BATCH_SIZE sizeof_sockaddr_in,
               src_addrs := replicate RECV_BATCH_SIZE any_addr\<rparr>))"

text \<open>What \<open>recvmmsg\<close> stores for the datagram it delivers as message i.\<close>

definition deliver :: "nat \<times> u8 list \<times> 'a \<Rightarrow> 'a UdpReceiver \<Rightarrow> 'a UdpReceiver" where
  "deliver m u =
     (case m of (i, bytes, src) \<Rightarrow>
        case iovecs u ! i of (base, len) \<Rightarrow>
          u\<lparr>buffers := buf_put (buffers u) base (take len bytes), msg_len := (msg_len u)[i := length (take len bytes)],
            msg_namelen := (msg_namelen u)[i := sizeof_sockaddr_in], src_addrs := (src_addrs u)[i := src]\<rparr>)"

text \<open>
  The result is the count, the caller's array (None for a null pointer) and the new state.  The code stores
  \<open>out[i]\<close> unchecked for each datagram, so an array shorter than the batch is destroyed.
\<close>

definition receive_batch ::
  "'a recvmmsg_result \<Rightarrow> 'a ReceivedDatagram list option \<Rightarrow> 'a UdpReceiver \<Rightarrow>
   int \<times> 'a ReceivedDatagram list option \<times> 'a UdpReceiver" where
  "receive_batch call out u =
     (case out of None \<Rightarrow> (-1, out, u) | Some o_arr \<Rightarrow>
      if udp_fd u < 0 then (-1, out, u)
      else
        let u = u\<lparr>msg_namelen := replicate RECV_BATCH_SIZE sizeof_sockaddr_in\<rparr>
        in case call of
             RecvErrno e \<Rightarrow> if e = EAGAIN \<or> e = EWOULDBLOCK then (0, out, u) else (-1, out, u)
           | Received ms \<Rightarrow>
               let u = fold deliver (enumerate 0 ms) u; n = length ms
               in (int n, Some (fold (\<lambda>i arr. array_write arr i \<lparr>rd_data = fst (iovecs u ! i), rd_len = msg_len u ! i,
                                                                 rd_src_addr = src_addrs u ! i\<rparr>) [0..<n] o_arr), u))"

text \<open>\<open>fcntl\<close>'s results are parameters; the result is the return value and the flags handed to \<open>F_SETFL\<close>.\<close>

definition set_nonblocking :: "int \<Rightarrow> u32 \<Rightarrow> bool \<Rightarrow> bool \<Rightarrow> bool \<times> u32 option" where
  "set_nonblocking fd flags setfl_ok enable =
     (if fd < 0 then (False, None)
      else if sint flags < 0 then (False, None)
      else
        let new_flags = (if enable then flags OR O_NONBLOCK else flags AND NOT O_NONBLOCK)
        in (setfl_ok, Some new_flags))"

text \<open>The bytes a datagram's \<open>data\<close> and \<open>len\<close> denote.\<close>

definition datagram_bytes :: "'a UdpReceiver \<Rightarrow> 'a ReceivedDatagram \<Rightarrow> u8 list" where
  "datagram_bytes u d = buf_get (buffers u) (rd_data d) (rd_len d)"

section \<open>The pool\<close>

text \<open>What a successful \<open>bind\<close> sets up and every call keeps: 64 disjoint spans of 2048 bytes.\<close>

definition udp_ready :: "'a UdpReceiver \<Rightarrow> bool" where
  "udp_ready u \<longleftrightarrow> udp_fd u \<ge> 0 \<and> length (buffers u) = RECV_BATCH_SIZE * MAX_DATAGRAM_SIZE \<and>
     iovecs u = map (\<lambda>i. (i * MAX_DATAGRAM_SIZE, MAX_DATAGRAM_SIZE)) [0..<RECV_BATCH_SIZE] \<and>
     length (msg_len u) = RECV_BATCH_SIZE \<and> length (src_addrs u) = RECV_BATCH_SIZE"

lemmas udp_sizes = MAX_DATAGRAM_SIZE_def RECV_BATCH_SIZE_def

lemma udp_bind_ready: "udp_bind os any_addr port addr v = (True, u) \<Longrightarrow> udp_ready u"
  by (auto simp: udp_bind_def udp_ready_def udp_sizes Let_def not_less split: if_splits option.splits)

lemma deliver_ready:
  assumes "udp_ready u" and "i < RECV_BATCH_SIZE"
  shows "udp_ready (deliver (i, bs, src) u)"
    and "buf_get (buffers (deliver (i, bs, src) u)) (i * MAX_DATAGRAM_SIZE) (min MAX_DATAGRAM_SIZE (length bs)) =
         take MAX_DATAGRAM_SIZE bs"
    and "msg_len (deliver (i, bs, src) u) ! i = min MAX_DATAGRAM_SIZE (length bs)"
    and "src_addrs (deliver (i, bs, src) u) ! i = src"
proof -
  have io: "iovecs u ! i = (i * MAX_DATAGRAM_SIZE, MAX_DATAGRAM_SIZE)" using assms by (simp add: udp_ready_def)
  have fits: "i * MAX_DATAGRAM_SIZE + min MAX_DATAGRAM_SIZE (length bs) \<le> length (buffers u)"
    using assms by (simp add: udp_ready_def udp_sizes)
  show "udp_ready (deliver (i, bs, src) u)"
    using assms fits by (simp add: deliver_def io udp_ready_def min.commute)
  show "buf_get (buffers (deliver (i, bs, src) u)) (i * MAX_DATAGRAM_SIZE) (min MAX_DATAGRAM_SIZE (length bs)) =
         take MAX_DATAGRAM_SIZE bs"
    using fits by (simp add: deliver_def io buf_get_put_same min.commute)
  show "msg_len (deliver (i, bs, src) u) ! i = min MAX_DATAGRAM_SIZE (length bs)"
    "src_addrs (deliver (i, bs, src) u) ! i = src"
    using assms by (simp_all add: deliver_def io udp_ready_def min.commute)
qed

lemma deliver_other:
  assumes "udp_ready u" and "i < RECV_BATCH_SIZE" and "j < RECV_BATCH_SIZE" and "i \<noteq> j" and "n \<le> MAX_DATAGRAM_SIZE"
  shows "buf_get (buffers (deliver (i, bs, src) u)) (j * MAX_DATAGRAM_SIZE) n = buf_get (buffers u) (j * MAX_DATAGRAM_SIZE) n"
    and "msg_len (deliver (i, bs, src) u) ! j = msg_len u ! j"
    and "src_addrs (deliver (i, bs, src) u) ! j = src_addrs u ! j"
proof -
  have io: "iovecs u ! i = (i * MAX_DATAGRAM_SIZE, MAX_DATAGRAM_SIZE)" using assms by (simp add: udp_ready_def)
  have "i * MAX_DATAGRAM_SIZE + MAX_DATAGRAM_SIZE \<le> j * MAX_DATAGRAM_SIZE \<or> j * MAX_DATAGRAM_SIZE + MAX_DATAGRAM_SIZE \<le> i * MAX_DATAGRAM_SIZE"
    using assms(4) by (simp add: udp_sizes) arith
  then show "buf_get (buffers (deliver (i, bs, src) u)) (j * MAX_DATAGRAM_SIZE) n = buf_get (buffers u) (j * MAX_DATAGRAM_SIZE) n"
    using assms by (auto simp: deliver_def io udp_ready_def udp_sizes intro!: buf_get_put_other)
  show "msg_len (deliver (i, bs, src) u) ! j = msg_len u ! j" "src_addrs (deliver (i, bs, src) u) ! j = src_addrs u ! j"
    using assms(4) by (simp_all add: deliver_def io)
qed

definition span_holds :: "'a UdpReceiver \<Rightarrow> nat \<Rightarrow> u8 list \<times> 'a \<Rightarrow> bool" where
  "span_holds u i m \<longleftrightarrow>
     buf_get (buffers u) (i * MAX_DATAGRAM_SIZE) (min MAX_DATAGRAM_SIZE (length (fst m))) = take MAX_DATAGRAM_SIZE (fst m) \<and>
     msg_len u ! i = min MAX_DATAGRAM_SIZE (length (fst m)) \<and> src_addrs u ! i = snd m"

lemma deliver_all:
  assumes "udp_ready u" and "k + length ms \<le> RECV_BATCH_SIZE" and "\<forall>i<k. span_holds u i (h i)"
  shows "udp_ready (fold deliver (enumerate k ms) u) \<and>
     (\<forall>i<k. span_holds (fold deliver (enumerate k ms) u) i (h i)) \<and>
     (\<forall>i<length ms. span_holds (fold deliver (enumerate k ms) u) (k + i) (ms ! i))"
  using assms
proof (induction ms arbitrary: u k h)
  case (Cons m ms)
  obtain bs src where m: "m = (bs, src)" by (cases m)
  let ?u = "deliver (k, m) u"
  have k: "k < RECV_BATCH_SIZE" using Cons.prems(2) by simp
  note here = deliver_ready [OF Cons.prems(1) k, of bs src, folded m]
  have at: "span_holds ?u k m" using here by (simp add: span_holds_def m)
  have old: "span_holds ?u i (h i)" if "i < k" for i
  proof -
    have was: "span_holds u i (h i)" using Cons.prems(3) that by blast
    have "i < RECV_BATCH_SIZE" "k \<noteq> i" using that k by simp_all
    note other = deliver_other [OF Cons.prems(1) k this, of "min MAX_DATAGRAM_SIZE (length (fst (h i)))" bs src, folded m]
    show ?thesis using was other unfolding span_holds_def by simp
  qed
  have "\<forall>i<Suc k. span_holds ?u i (if i = k then m else h i)" using at old by (simp add: less_Suc_eq)
  from Cons.IH [OF here(1) _ this] Cons.prems(2)
  have all: "udp_ready (fold deliver (enumerate (Suc k) ms) ?u)"
    "\<forall>i<Suc k. span_holds (fold deliver (enumerate (Suc k) ms) ?u) i (if i = k then m else h i)"
    "\<forall>i<length ms. span_holds (fold deliver (enumerate (Suc k) ms) ?u) (Suc k + i) (ms ! i)" by simp_all
  have "span_holds (fold deliver (enumerate (Suc k) ms) ?u) (k + i) ((m # ms) ! i)" if "i < Suc (length ms)" for i
    using that all(2,3) by (cases i) auto
  moreover have "\<forall>i<k. span_holds (fold deliver (enumerate (Suc k) ms) ?u) i (h i)"
  proof (intro allI impI)
    fix i assume "i < k"
    then have "i < Suc k" "i \<noteq> k" by simp_all
    with all(2) [THEN spec, of i] show "span_holds (fold deliver (enumerate (Suc k) ms) ?u) i (h i)" by simp
  qed
  ultimately show ?case using all(1) by simp
qed simp

definition run_batches :: "('a recvmmsg_result \<times> 'a ReceivedDatagram list option) list \<Rightarrow> 'a UdpReceiver \<Rightarrow> 'a UdpReceiver" where
  "run_batches calls u = fold (\<lambda>(call, out) u. snd (snd (receive_batch call out u))) calls u"

lemma udp_ready_namelen [simp]: "udp_ready (u\<lparr>msg_namelen := x\<rparr>) = udp_ready u"
  by (simp add: udp_ready_def)

lemma receive_batch_ready:
  assumes "udp_ready u" and "\<forall>ms. call = Received ms \<longrightarrow> length ms \<le> RECV_BATCH_SIZE"
  shows "udp_ready (snd (snd (receive_batch call out u)))"
proof (cases call)
  case (Received ms)
  with assms deliver_all [of "u\<lparr>msg_namelen := replicate RECV_BATCH_SIZE sizeof_sockaddr_in\<rparr>" 0 ms]
  show ?thesis by (simp add: receive_batch_def Let_def split: option.splits)
qed (use assms in \<open>simp add: receive_batch_def Let_def split: option.splits\<close>)

lemma run_batches_ready:
  assumes "udp_ready u" and "\<forall>ms out. (Received ms, out) \<in> set calls \<longrightarrow> length ms \<le> RECV_BATCH_SIZE"
  shows "udp_ready (run_batches calls u)"
  using assms
proof (induction calls arbitrary: u)
  case (Cons c calls)
  obtain call out where c: "c = (call, out)" by (cases c)
  have "udp_ready (snd (snd (receive_batch call out u)))"
    using Cons.prems by (intro receive_batch_ready) (auto simp: c)
  then have "udp_ready (run_batches calls (snd (snd (receive_batch call out u))))"
    using Cons.prems(2) by (intro Cons.IH) auto
  then show ?case by (simp add: run_batches_def c)
qed (simp add: run_batches_def)

definition delivered :: "'a UdpReceiver \<Rightarrow> (u8 list \<times> 'a) list \<Rightarrow> 'a ReceivedDatagram list \<Rightarrow> bool" where
  "delivered u ms ds \<longleftrightarrow>
     map (datagram_bytes u) ds = map (\<lambda>m. take MAX_DATAGRAM_SIZE (fst m)) ms \<and> map rd_src_addr ds = map snd ms \<and>
     list_all (\<lambda>d. rd_len d \<le> MAX_DATAGRAM_SIZE \<and> rd_data d + rd_len d \<le> length (buffers u)) ds"

lemma receive_batch_ok:
  assumes u: "udp_ready u" and ms: "length ms \<le> RECV_BATCH_SIZE" and arr: "length ms \<le> length arr"
  obtains ds u' where "receive_batch (Received ms) (Some arr) u = (int (length ms), Some (ds @ drop (length ms) arr), u')"
    and "length ds = length ms" and "delivered u' ms ds" and "udp_ready u'"
proof -
  let ?v = "u\<lparr>msg_namelen := replicate RECV_BATCH_SIZE sizeof_sockaddr_in\<rparr>"
  define u' where "u' = fold deliver (enumerate 0 ms) ?v"
  define ds where "ds = map (\<lambda>i. \<lparr>rd_data = fst (iovecs u' ! i), rd_len = msg_len u' ! i, rd_src_addr = src_addrs u' ! i\<rparr>) [0..<length ms]"
  have fd: "\<not> udp_fd u < 0" using u by (simp add: udp_ready_def)
  have ready: "udp_ready u'" and span: "\<forall>i<length ms. span_holds u' i (ms ! i)"
    using deliver_all [of ?v 0 ms] u ms by (simp_all add: u'_def)
  have d: "rd_data (ds ! i) = i * MAX_DATAGRAM_SIZE" "rd_len (ds ! i) = min MAX_DATAGRAM_SIZE (length (fst (ms ! i)))"
    "rd_src_addr (ds ! i) = snd (ms ! i)" "datagram_bytes u' (ds ! i) = take MAX_DATAGRAM_SIZE (fst (ms ! i))"
    if i: "i < length ms" for i
  proof -
    have "iovecs u' ! i = (i * MAX_DATAGRAM_SIZE, MAX_DATAGRAM_SIZE)" using ready i ms by (simp add: udp_ready_def)
    moreover have "span_holds u' i (ms ! i)" using span i by blast
    ultimately show "rd_data (ds ! i) = i * MAX_DATAGRAM_SIZE" "rd_len (ds ! i) = min MAX_DATAGRAM_SIZE (length (fst (ms ! i)))"
      "rd_src_addr (ds ! i) = snd (ms ! i)" "datagram_bytes u' (ds ! i) = take MAX_DATAGRAM_SIZE (fst (ms ! i))"
      using i by (simp_all add: ds_def span_holds_def datagram_bytes_def)
  qed
  have len: "length ds = length ms" by (simp add: ds_def)
  have room: "rd_data (ds ! i) + rd_len (ds ! i) \<le> length (buffers u')" if i: "i < length ms" for i
    using ready i ms by (simp add: d [OF i] udp_ready_def udp_sizes)
  have "map (datagram_bytes u') ds = map (\<lambda>m. take MAX_DATAGRAM_SIZE (fst m)) ms" "map rd_src_addr ds = map snd ms"
    using d len by (intro nth_equalityI; simp)+
  moreover have "list_all (\<lambda>d. rd_len d \<le> MAX_DATAGRAM_SIZE \<and> rd_data d + rd_len d \<le> length (buffers u')) ds"
    using room d(2) len by (simp add: list_all_length)
  ultimately have "delivered u' ms ds" by (simp add: delivered_def)
  then show ?thesis
    using fd ready by (intro that [of ds u']) (simp_all add: receive_batch_def Let_def u'_def [symmetric] ds_def fold_array_write [OF arr])
qed

section \<open>Properties\<close>

text \<open>
  C35: batches are delivered in order, in bounds and unmixed.  Let the caller's array have room for
  \<open>RECV_BATCH_SIZE\<close> entries, as \<open>receive_batch\<close> demands.  After a successful \<open>bind\<close> and any earlier calls, a
  \<open>recvmmsg\<close> of up to 64 datagrams makes it return their number; every store stays inside the array; entry i
  then has the source of the i-th datagram and spans exactly its first 2048 bytes inside the pool, and the
  rest of the array is untouched.
\<close>

theorem receive_batch_delivers:
  assumes "udp_bind os any_addr port addr v = (True, u)"
    and "\<forall>ms out. (Received ms, out) \<in> set earlier \<longrightarrow> length ms \<le> RECV_BATCH_SIZE"
    and "length ms \<le> RECV_BATCH_SIZE" and "RECV_BATCH_SIZE \<le> length arr"
  shows "case receive_batch (Received ms) (Some arr) (run_batches earlier u) of (n, out, u') \<Rightarrow>
     n = int (length ms) \<and>
     (\<exists>ds. out = Some (ds @ drop (length ms) arr) \<and> length ds = length ms \<and> length (the out) = length arr \<and>
        delivered u' ms ds)"
proof -
  have room: "length ms \<le> length arr" using assms(3,4) by simp
  have "udp_ready (run_batches earlier u)" by (rule run_batches_ready [OF udp_bind_ready [OF assms(1)] assms(2)])
  then obtain ds u' where "receive_batch (Received ms) (Some arr) (run_batches earlier u) =
      (int (length ms), Some (ds @ drop (length ms) arr), u')" "length ds = length ms" "delivered u' ms ds"
    by (rule receive_batch_ok [OF _ assms(3) room])
  then show ?thesis using room by simp
qed

definition demo_udp_os :: udp_os where
  "demo_udp_os = \<lparr>os_socket = 3, os_reuseaddr = True, os_rcvbuf = False, os_inet_pton = (\<lambda>_. 1), os_bind = (\<lambda>_. True),
     os_getsockname = Some 9001\<rparr>"

definition demo_udp :: "nat UdpReceiver" where
  "demo_udp = snd (udp_bind demo_udp_os 0 9001 ''0.0.0.0''
     \<lparr>udp_fd = -1, local_port = 0, buffers = [], iovecs = [], msg_len = [], msg_namelen = [], src_addrs = []\<rparr>)"

lemma demo_udp_bound: "udp_bind demo_udp_os 0 9001 ''0.0.0.0''
     \<lparr>udp_fd = -1, local_port = 0, buffers = [], iovecs = [], msg_len = [], msg_namelen = [], src_addrs = []\<rparr> = (True, demo_udp)"
  by (simp add: demo_udp_def udp_bind_def demo_udp_os_def Let_def del: replicate.simps)

definition demo_batch :: "nat ReceivedDatagram list" where
  "demo_batch = replicate RECV_BATCH_SIZE \<lparr>rd_data = 0, rd_len = 0, rd_src_addr = 0\<rparr>"

lemma demo_batch_room: "RECV_BATCH_SIZE \<le> length demo_batch"
  by (simp add: demo_batch_def)

theorem receive_batch_delivers_witness:
  "\<exists>ds u'. receive_batch (Received [([1, 2], 7), ([], 8)]) (Some demo_batch) (run_batches [(RecvErrno EAGAIN, None)] demo_udp) =
     (2, Some (ds @ drop 2 demo_batch), u') \<and> map (datagram_bytes u') ds = [[1, 2], []] \<and> map rd_src_addr ds = [7, 8]"
proof -
  let ?ms = "[([1, 2], 7), ([], 8)]"
  have len: "length ?ms \<le> RECV_BATCH_SIZE" by (simp add: udp_sizes)
  obtain n out u' where r: "receive_batch (Received ?ms) (Some demo_batch) (run_batches [(RecvErrno EAGAIN, None)] demo_udp) = (n, out, u')"
    by (cases "receive_batch (Received ?ms) (Some demo_batch) (run_batches [(RecvErrno EAGAIN, None)] demo_udp)")
  obtain ds where "n = 2" "out = Some (ds @ drop 2 demo_batch)" "delivered u' ?ms ds"
    using receive_batch_delivers [OF demo_udp_bound _ len demo_batch_room, of "[(RecvErrno EAGAIN, None)]"] unfolding r
    by (auto simp: numeral_2_eq_2)
  then show ?thesis unfolding r by (intro exI [of _ ds] exI [of _ u']) (simp add: delivered_def udp_sizes)
qed

lemma truncated_frame_iff:
  "(\<exists>rest. take m d = wire_frame body @ rest) \<longleftrightarrow> length (wire_frame body) \<le> m \<and> (\<exists>rest. d = wire_frame body @ rest)"
proof
  assume "\<exists>rest. take m d = wire_frame body @ rest"
  then obtain rest where r: "take m d = wire_frame body @ rest" by blast
  then have "length (wire_frame body) \<le> m" by (metis append_eq_conv_conj length_take min.bounded_iff le_add1 length_append)
  moreover have "d = wire_frame body @ (rest @ drop m d)" by (metis append.assoc append_take_drop_id r)
  ultimately show "length (wire_frame body) \<le> m \<and> (\<exists>rest. d = wire_frame body @ rest)" by blast
qed auto

text \<open>
  A cut datagram is never taken for a frame.  The kernel cuts a datagram longer than 2048 bytes to fit
  its buffer.  What \<open>decode_frame\<close> then finds in entry i of the batch is accepted exactly when the datagram
  that was sent starts with an intact wire frame of at most 2048 bytes whose body parses to a set message;
  a larger frame is rejected, never half-read.
\<close>

theorem received_frame_ok_iff:
  assumes "udp_bind os any_addr port addr v = (True, u)"
    and "\<forall>ms out. (Received ms, out) \<in> set earlier \<longrightarrow> length ms \<le> RECV_BATCH_SIZE"
    and "length ms \<le> RECV_BATCH_SIZE" and "i < length ms" and "sse42_documented cpu"
    and "RECV_BATCH_SIZE \<le> length arr"
  shows "case receive_batch (Received ms) (Some arr) (run_batches earlier u) of (n, out, u') \<Rightarrow>
     decode_frame cpu parse (Some (datagram_bytes u' (the out ! i))) f = (FrameOk, g) \<longleftrightarrow>
     (\<exists>body rest. fst (ms ! i) = wire_frame body @ rest \<and> length (wire_frame body) \<le> MAX_DATAGRAM_SIZE \<and>
        parse body = (True, g) \<and> g \<noteq> MsgNotSet)"
proof -
  have room: "length ms \<le> length arr" using assms(3,6) by simp
  have "udp_ready (run_batches earlier u)" by (rule run_batches_ready [OF udp_bind_ready [OF assms(1)] assms(2)])
  then obtain ds u'
    where r: "receive_batch (Received ms) (Some arr) (run_batches earlier u) = (int (length ms), Some (ds @ drop (length ms) arr), u')"
      and len: "length ds = length ms" and d: "delivered u' ms ds"
    by (rule receive_batch_ok [OF _ assms(3) room])
  have "datagram_bytes u' (ds ! i) = take MAX_DATAGRAM_SIZE (fst (ms ! i))"
    using d len assms(4) nth_map [of i ds "datagram_bytes u'"] by (simp add: delivered_def)
  moreover have "length body \<le> 0xFFFF" if "length (wire_frame body) \<le> MAX_DATAGRAM_SIZE" for body
    using that by (simp add: udp_sizes)
  ultimately show ?thesis
    using decode_frame_ok_iff_lemma [OF assms(5), of parse "take MAX_DATAGRAM_SIZE (fst (ms ! i))" f g]
      truncated_frame_iff [of MAX_DATAGRAM_SIZE "fst (ms ! i)"] len assms(4)
    by (auto simp: r nth_append)
qed

theorem received_frame_ok_iff_witness:
  "\<exists>ds u'. receive_batch (Received [(wire_frame [7], 5)]) (Some demo_batch) (run_batches [] demo_udp) = (1, Some ds, u') \<and>
     decode_frame intel_cpu (\<lambda>b. (True, FrameEnd :: unit Frame)) (Some (datagram_bytes u' (ds ! 0))) MsgNotSet = (FrameOk, FrameEnd)"
proof -
  have len: "length [(wire_frame [7], 5 :: nat)] \<le> RECV_BATCH_SIZE" by (simp add: udp_sizes)
  have fits: "\<exists>body rest. wire_frame [7] = wire_frame body @ rest \<and> length (wire_frame body) \<le> MAX_DATAGRAM_SIZE"
    by (rule exI [of _ "[7]"]) (simp add: udp_sizes)
  have room: "length [(wire_frame [7], 5 :: nat)] \<le> length demo_batch" by (simp add: demo_batch_def udp_sizes)
  obtain ds u' where r: "receive_batch (Received [(wire_frame [7], 5)]) (Some demo_batch) demo_udp = (1, Some ds, u')"
    by (rule receive_batch_ok [OF udp_bind_ready [OF demo_udp_bound] len room]) simp
  have "(\<lambda>b. (True, FrameEnd :: unit Frame)) body = (True, FrameEnd)" for body :: "u8 list" by simp
  then show ?thesis
    using received_frame_ok_iff [OF demo_udp_bound, where earlier = "[]" and ms = "[(wire_frame [7], 5)]" and i = 0
        and cpu = intel_cpu and arr = demo_batch and parse = "\<lambda>b. (True, FrameEnd :: unit Frame)" and f = MsgNotSet and g = FrameEnd] len fits r demo_batch_room
    by (simp add: run_batches_def)
qed

end
