(* ===== verification/UdsChannel.thy ===== *)
theory UdsChannel
  imports UdpReceiver
begin

text \<open>
  \<^verbatim>\<open>src/receiver/uds_channel.cpp\<close>: the \<open>SOCK_SEQPACKET\<close> channel to the session manager.  The results of the
  system calls are parameters; for \<open>recv\<close> it is an \<open>errno\<close> or the next message, the empty message standing
  for a closed peer, and the call copies what fits the buffer and drops the rest of the message.
\<close>

section \<open>Operations\<close>

definition UDS_RECV_BUFFER_BYTES :: nat where "UDS_RECV_BUFFER_BYTES = 65536"
definition sizeof_sun_path :: nat where "sizeof_sun_path = 108"

record UdsChannel =
  uds_fd :: int

record uds_os =
  uo_socket :: int
  uo_connect :: "string \<Rightarrow> bool"

datatype recv_result = RecvFailed int | RecvMessage "u8 list"

definition uds_close :: "UdsChannel \<Rightarrow> UdsChannel" where
  "uds_close ch = (if uds_fd ch \<ge> 0 then ch\<lparr>uds_fd := -1\<rparr> else ch)"

definition uds_connect :: "uds_os \<Rightarrow> string \<Rightarrow> UdsChannel \<Rightarrow> bool \<times> UdsChannel" where
  "uds_connect os path ch =
     (let ch = uds_close ch; ch = ch\<lparr>uds_fd := uo_socket os\<rparr>
      in if uds_fd ch < 0 then (False, ch)
      else if length path \<ge> sizeof_sun_path then (False, ch\<lparr>uds_fd := -1\<rparr>)
      else if \<not> uo_connect os path then (False, ch\<lparr>uds_fd := -1\<rparr>)
      else (True, ch))"

text \<open>\<open>n\<close> is what \<open>::send\<close> returns.\<close>

definition uds_send :: "(u8 list \<Rightarrow> int) \<Rightarrow> u8 list \<Rightarrow> UdsChannel \<Rightarrow> bool" where
  "uds_send sys_send data ch =
     (if uds_fd ch < 0 then False
      else
        let n = sys_send data
        in if n < 0 then False
        else if nat n \<noteq> length data then False
        else True)"

definition uds_receive :: "recv_result \<Rightarrow> UdsChannel \<Rightarrow> u8 list option" where
  "uds_receive call ch =
     (if uds_fd ch < 0 then None
      else case call of
        RecvFailed e \<Rightarrow> None
      | RecvMessage msg \<Rightarrow>
          let buf = take UDS_RECV_BUFFER_BYTES msg
          in if length buf = 0 then None else Some buf)"

definition uds_set_nonblocking :: "int \<Rightarrow> u32 \<Rightarrow> bool \<Rightarrow> bool \<Rightarrow> bool \<times> u32 option" where
  "uds_set_nonblocking fd flags setfl_ok enable =
     (if fd < 0 then (False, None)
      else if sint flags < 0 then (False, None)
      else
        let new_flags = (if enable then flags OR O_NONBLOCK else flags AND NOT O_NONBLOCK)
        in (setfl_ok, Some new_flags))"

section \<open>Whole, cut and absent messages\<close>

lemma uds_receive_message [simp]:
  "uds_fd ch \<ge> 0 \<Longrightarrow> uds_receive (RecvMessage msg) ch = (if msg = [] then None else Some (take UDS_RECV_BUFFER_BYTES msg))"
  by (simp add: uds_receive_def UDS_RECV_BUFFER_BYTES_def)

lemma uds_receive_whole:
  "uds_fd ch \<ge> 0 \<Longrightarrow> msg \<noteq> [] \<Longrightarrow> length msg \<le> UDS_RECV_BUFFER_BYTES \<Longrightarrow> uds_receive (RecvMessage msg) ch = Some msg"
  by simp

lemma uds_connect_fd: "uds_connect os path ch = (True, ch') \<Longrightarrow> uds_fd ch' \<ge> 0"
  by (auto simp: uds_connect_def Let_def split: if_splits)

end
