(* ===== verification/ShmLifecycle.thy ===== *)
theory ShmLifecycle
  imports Sessions
begin

text \<open>
  \<^verbatim>\<open>src/receiver/shm_manager.cpp\<close>: creating, attaching and validating the shared segment.  The named
  object is its size and contents, or absent; the results of the system calls are parameters
  (\<open>shm_os\<close>).  A handle maps the whole object, so the segment behind its pointers is the object's contents.
\<close>

section \<open>State\<close>

record ShmObject =
  obj_size :: u64
  obj_seg :: Segment

text \<open>\<open>shm_open\<close>'s descriptor, success of \<open>fstat\<close>, \<open>ftruncate\<close>, \<open>mmap\<close>, the pid, and the boot id read.\<close>

record shm_os =
  os_shm_open :: int
  os_shm_fstat :: bool
  os_shm_truncate :: bool
  os_shm_mmap :: bool
  os_getpid :: u32
  os_boot_id :: "u8 list option"

section \<open>Validation\<close>

definition header_valid :: "ShmHeader \<Rightarrow> bool" where
  "header_valid h \<longleftrightarrow> magic h = SHM_MAGIC \<and> version h = SHM_VERSION"

definition offsets_valid :: "ShmManager \<Rightarrow> Segment \<Rightarrow> bool" where
  "offsets_valid mgr seg \<longleftrightarrow>
     (if \<not> header_ptr mgr then False
      else let ts = total_size (hdr seg)
           in session_table_offset (hdr seg) < ts \<and> block_table_region_offset (hdr seg) < ts \<and>
              arena_offset (hdr seg) < ts \<and>
              arena_offset (hdr seg) + ucast (slot_count (hdr seg)) * ucast (slot_size (hdr seg)) \<le> ts)"

definition validate :: "ShmManager \<Rightarrow> Segment \<Rightarrow> bool" where
  "validate mgr seg \<longleftrightarrow> (if \<not> header_ptr mgr then False else header_valid (hdr seg) \<and> offsets_valid mgr seg)"

definition map_and_validate :: "ShmManager \<Rightarrow> Segment \<Rightarrow> bool \<times> ShmManager" where
  "map_and_validate mgr seg =
     (let mgr = mgr\<lparr>header_ptr := True\<rparr>
      in if \<not> header_valid (hdr seg) then (False, mgr)
      else if total_size (hdr seg) > map_size mgr then (False, mgr)
      else if \<not> offsets_valid mgr seg then (False, mgr)
      else (True, mgr\<lparr>session_table_ptr := True, arena_ptr := True, slot_base_offset := arena_offset (hdr seg)\<rparr>))"

section \<open>Initialisation\<close>

text \<open>\<open>init_header\<close> up to the free list: the header fields, in the code's order.\<close>

definition init_fields :: "shm_os \<Rightarrow> u64 \<Rightarrow> Segment \<Rightarrow> Segment" where
  "init_fields os arena_bytes seg =
     (let h = (hdr seg)\<lparr>magic := SHM_MAGIC, version := SHM_VERSION, slot_size := SLOT_SIZE,
                slot_count := ucast (arena_bytes div ucast SLOT_SIZE), owner_pid := os_getpid os\<rparr>;
          h = (case os_boot_id os of None \<Rightarrow> h | Some buf \<Rightarrow> h\<lparr>boot_id := take 16 buf\<rparr>);
          off = sizeof_ShmHeader;
          h = h\<lparr>session_table_offset := off\<rparr>;
          off = off + ucast MAX_SESSIONS * sizeof_SessionEntry;
          off = ucast (ALIGN8 off);
          h = h\<lparr>block_table_region_offset := off\<rparr>;
          off = off + ucast MAX_SESSIONS * per_session_stride;
          h = h\<lparr>arena_offset := off\<rparr>;
          off = off + arena_bytes
      in seg\<lparr>hdr := h\<lparr>total_size := off\<rparr>\<rparr>)"

definition init_header :: "shm_os \<Rightarrow> u64 \<Rightarrow> Segment \<Rightarrow> bool \<times> Segment" where
  "init_header os arena_bytes seg =
     (let seg = init_fields os arena_bytes seg;
          seg = seg\<lparr>hdr := (hdr seg)\<lparr>used_slots := 0, high_water_used := 0\<rparr>\<rparr>
      in (True, init_free_list seg))"

section \<open>Life cycle\<close>

definition new_manager :: ShmManager where
  "new_manager = \<lparr>shm_fd = -1, base_mapped = False, map_size = 0, header_ptr = False, session_table_ptr = False,
     arena_ptr = False, slot_base_offset = 0\<rparr>"

definition close_manager :: "ShmManager \<Rightarrow> ShmManager" where
  "close_manager mgr =
     (let mgr = (if base_mapped mgr then mgr\<lparr>base_mapped := False\<rparr> else mgr);
          mgr = (if shm_fd mgr \<ge> 0 then mgr\<lparr>shm_fd := -1\<rparr> else mgr)
      in mgr\<lparr>map_size := 0, header_ptr := False, session_table_ptr := False, arena_ptr := False\<rparr>)"

text \<open>\<open>O_CREAT | O_EXCL\<close>: the call fails when the object exists.\<close>

definition create_segment ::
  "shm_os \<Rightarrow> u64 \<Rightarrow> ShmManager \<Rightarrow> ShmObject option \<Rightarrow> bool \<times> ShmManager \<times> ShmObject option" where
  "create_segment os arena_bytes mgr obj =
     (let mgr = close_manager mgr; total = compute_total_size arena_bytes
      in if obj \<noteq> None \<or> os_shm_open os < 0 then (False, mgr\<lparr>shm_fd := -1\<rparr>, obj)
      else
        let mgr = mgr\<lparr>shm_fd := os_shm_open os\<rparr>
        in if \<not> os_shm_truncate os then
             (False, mgr\<lparr>shm_fd := -1\<rparr>, Some \<lparr>obj_size = 0, obj_seg = zero_segment\<rparr>)
        else if \<not> os_shm_mmap os then
             (False, mgr\<lparr>shm_fd := -1\<rparr>, Some \<lparr>obj_size = total, obj_seg = zero_segment\<rparr>)
        else
          let mgr = mgr\<lparr>base_mapped := True, map_size := total\<rparr>
          in case init_header os arena_bytes zero_segment of
               (False, seg) \<Rightarrow> (False, close_manager mgr, Some \<lparr>obj_size = total, obj_seg = seg\<rparr>)
             | (True, seg) \<Rightarrow>
                 (case map_and_validate mgr seg of
                    (False, mgr) \<Rightarrow> (False, close_manager mgr, Some \<lparr>obj_size = total, obj_seg = seg\<rparr>)
                  | (True, mgr) \<Rightarrow> (True, mgr, Some \<lparr>obj_size = total, obj_seg = seg\<rparr>)))"

definition open_segment :: "shm_os \<Rightarrow> ShmManager \<Rightarrow> ShmObject option \<Rightarrow> bool \<times> ShmManager" where
  "open_segment os mgr obj =
     (let mgr = close_manager mgr
      in case obj of None \<Rightarrow> (False, mgr\<lparr>shm_fd := -1\<rparr>)
       | Some ob \<Rightarrow>
          if os_shm_open os < 0 then (False, mgr\<lparr>shm_fd := os_shm_open os\<rparr>)
          else
            let mgr = mgr\<lparr>shm_fd := os_shm_open os\<rparr>
            in if \<not> os_shm_fstat os then (False, mgr\<lparr>shm_fd := -1\<rparr>)
            else
              let mgr = mgr\<lparr>map_size := obj_size ob\<rparr>
              in if map_size mgr = 0 then (False, mgr\<lparr>shm_fd := -1\<rparr>)
              else if \<not> os_shm_mmap os then (False, mgr\<lparr>shm_fd := -1\<rparr>)
              else case map_and_validate (mgr\<lparr>base_mapped := True\<rparr>) (obj_seg ob) of
                     (False, mgr) \<Rightarrow> (False, close_manager mgr)
                   | (True, mgr) \<Rightarrow> (True, mgr))"

text \<open>
  The attach loop of \<^verbatim>\<open>main.cpp\<close>: at most 100 attempts; \<open>attempts\<close> holds the call results and the object
  each of them finds.
\<close>

fun attach_loop ::
  "(shm_os \<times> ShmObject option) list \<Rightarrow> ShmManager \<Rightarrow> bool \<times> ShmManager \<times> ShmObject option" where
  "attach_loop [] mgr = (False, mgr, None)"
| "attach_loop ((os, obj) # attempts) mgr =
     (case open_segment os mgr obj of
        (True, mgr) \<Rightarrow> (True, mgr, obj)
      | (False, mgr) \<Rightarrow>
          (case create_segment os DEFAULT_ARENA_BYTES mgr obj of
             (True, mgr, obj) \<Rightarrow> (True, mgr, obj)
           | (False, mgr, obj) \<Rightarrow> attach_loop attempts mgr))"

definition open_or_create_shm ::
  "(shm_os \<times> ShmObject option) list \<Rightarrow> ShmManager \<Rightarrow> bool \<times> ShmManager \<times> ShmObject option" where
  "open_or_create_shm attempts mgr = attach_loop (take 100 attempts) mgr"

section \<open>The fresh segment\<close>

lemma init_fields_hdr [simp]:
  "magic (hdr (init_fields os ab seg)) = SHM_MAGIC" "version (hdr (init_fields os ab seg)) = SHM_VERSION"
  "slot_size (hdr (init_fields os ab seg)) = SLOT_SIZE"
  "slot_count (hdr (init_fields os ab seg)) = ucast (ab div 1536)"
  "session_table_offset (hdr (init_fields os ab seg)) = 4096"
  "block_table_region_offset (hdr (init_fields os ab seg)) = 7296"
  "arena_offset (hdr (init_fields os ab seg)) = 69745792"
  "total_size (hdr (init_fields os ab seg)) = 69745792 + ab"
  "free_list_head (hdr (init_fields os ab seg)) = free_list_head (hdr seg)"
  "used_slots (hdr (init_fields os ab seg)) = used_slots (hdr seg)"
  "high_water_used (hdr (init_fields os ab seg)) = high_water_used (hdr seg)"
  "session_table (init_fields os ab seg) = session_table seg" "blocks (init_fields os ab seg) = blocks seg"
  "arena (init_fields os ab seg) = arena seg"
  by (simp_all add: init_fields_def Let_def ALIGN8_def MAX_SESSIONS_def SLOT_SIZE_def split: option.splits)

lemma fresh_segment_inv:
  assumes "attached mgr"
  shows "shm_inv mgr (snd (init_header os ab zero_segment)) (map of_nat [0..<unat (ucast (ab div 1536) :: u32)])"
proof -
  define seg where "seg = snd (init_header os ab zero_segment)"
  let ?c = "ucast (ab div 1536) :: u32"
  have cnt: "slot_count (hdr seg) = ?c" and reg: "block_table_region_offset (hdr seg) = 7296"
    and tab: "session_table seg = session_table zero_segment"
    by (simp_all add: seg_def init_header_def init_free_list_def Let_def)
  have empty: "se_state (session_table seg ! i) = SESSION_STATE_EMPTY" if "i < 8" for i
    unfolding tab using that
    by (simp only: zero_segment_def Segment.simps MAX_SESSIONS_def) (simp add: zero_session_def SESSION_STATE_EMPTY_def del: replicate.simps)
  show ?thesis
    unfolding seg_def [symmetric]
  proof (rule shm_invI)
    have "pool (init_free_list s) (map of_nat [0..<unat (slot_count (hdr s))])"
      if "used_slots (hdr s) = 0" "high_water_used (hdr s) = 0" for s using init_free_list_pool that by blast
    from this [of "(init_fields os ab zero_segment)\<lparr>hdr := (hdr (init_fields os ab zero_segment))\<lparr>used_slots := 0, high_water_used := 0\<rparr>\<rparr>"]
    show "pool seg (map of_nat [0..<unat ?c])" by (simp add: seg_def init_header_def Let_def)
    have "session_slots seg i = []" if "i < 8" for i
      using empty [OF that] by (simp add: session_slots_def session_states)
    then have held: "held_slots seg = []" by (simp add: held_slots_def)
    have "set (map of_nat [0..<unat ?c]) = {x. x < ?c}"
    proof (intro set_eqI iffI)
      fix x assume "x \<in> {x. x < ?c}"
      then have "unat x < unat ?c" by (simp add: word_less_nat_alt)
      then show "x \<in> set (map of_nat [0..<unat ?c])" by (auto intro!: image_eqI [of _ _ "unat x"])
    qed (auto simp: u32_idx_less)
    moreover have "distinct (map (of_nat :: nat \<Rightarrow> u32) [0..<unat ?c])"
      by (auto simp: distinct_map inj_on_def intro: u32_idx_inj)
    ultimately have "mset (map of_nat [0..<unat ?c]) = mset_set {x. x < ?c}" using owned_iff by blast
    then show "mset (held_slots seg) + mset (map of_nat [0..<unat ?c]) = mset_set {x. x < slot_count (hdr seg)}"
      unfolding held cnt by simp
    show "session_ok seg i" if "i < 8" for i using empty [OF that] by (simp add: session_ok_def Let_def)
    show "ids_unique seg" using empty by (simp add: ids_unique_def session_states)
  qed (use assms in \<open>simp_all add: region_ok_def reg tab zero_segment_def MAX_SESSIONS_def\<close>)
qed

lemma slot_bytes: "unat (ucast c * 1536 :: u64) = unat c * 1536" for c :: u32
proof -
  have "unat c * 1536 < 2 ^ 64" using unat_lt_exp [of c] by simp
  then show ?thesis using unat_of_nat_small [of "unat c * 1536", where 'a = 64]
    by (simp add: unat_mult_lem [THEN iffD1] unsigned_ucast_eq)
qed

lemma validate_fields:
  assumes "0 < ab" and "unat ab + 69745792 < 2 ^ 64" and "header_ptr mgr"
    and h: "total_size (hdr seg) = 69745792 + ab" "session_table_offset (hdr seg) = 4096"
      "block_table_region_offset (hdr seg) = 7296" "arena_offset (hdr seg) = 69745792"
      "slot_count (hdr seg) = ucast (ab div 1536)" "slot_size (hdr seg) = SLOT_SIZE"
  shows "offsets_valid mgr seg"
proof -
  have ts: "unat (69745792 + ab) = 69745792 + unat ab" using assms(2) by (simp add: unat_add_lem [THEN iffD1])
  have pos: "0 < unat ab" using assms(1) by (simp add: unat_gt_0)
  have "unat (ucast (ab div 1536) :: u32) \<le> unat (ab div 1536)" by (simp add: unsigned_ucast_eq)
  then have le: "unat (ucast (ab div 1536) :: u32) * 1536 \<le> unat ab"
    using div_times_less_eq_dividend [of "unat ab" 1536] by (simp add: unat_div)
  note prod = slot_bytes [of "ucast (ab div 1536)"]
  have "unat (69745792 + ucast (ucast (ab div 1536) :: u32) * 1536 :: u64) = 69745792 + unat (ucast (ab div 1536) :: u32) * 1536"
    unfolding prod [symmetric] by (rule unat_add_lem [THEN iffD1, THEN trans]) (use prod le assms(2) in \<open>simp_all\<close>)
  then show ?thesis
    using assms(3) le pos ts by (simp add: offsets_valid_def h Let_def SLOT_SIZE_def word_less_nat_alt word_le_nat_alt)
qed

section \<open>Properties\<close>

text \<open>What a creator leaves behind, and that any process can attach to it.\<close>

lemma created_header:
  fixes ab :: u64
  defines "seg \<equiv> \<lambda>os. snd (init_header os ab zero_segment)"
  shows "total_size (hdr (seg os)) = 69745792 + ab" "session_table_offset (hdr (seg os)) = 4096"
      "block_table_region_offset (hdr (seg os)) = 7296" "arena_offset (hdr (seg os)) = 69745792"
      "slot_count (hdr (seg os)) = ucast (ab div 1536)" "slot_size (hdr (seg os)) = SLOT_SIZE" "header_valid (hdr (seg os))"
  by (simp_all add: seg_def init_header_def init_free_list_def Let_def header_valid_def)

definition created_object :: "shm_os \<Rightarrow> u64 \<Rightarrow> ShmObject" where
  "created_object os ab = \<lparr>obj_size = 69745792 + ab, obj_seg = snd (init_header os ab zero_segment)\<rparr>"

definition calls_ok :: "shm_os \<Rightarrow> bool" where
  "calls_ok os \<longleftrightarrow> os_shm_open os \<ge> 0 \<and> os_shm_fstat os \<and> os_shm_truncate os \<and> os_shm_mmap os"

lemma created_offsets:
  assumes "0 < ab" and "unat ab + 69745792 < 2 ^ 64" and "header_ptr m"
  shows "offsets_valid m (snd (init_header os ab zero_segment))"
  by (rule validate_fields [OF assms]) (simp_all add: created_header)

lemma create_absent:
  assumes "calls_ok os" and "0 < ab" and "unat ab + 69745792 < 2 ^ 64"
  shows "\<exists>m. create_segment os ab mgr None = (True, m, Some (created_object os ab)) \<and> attached m \<and> slot_base_offset m = 69745792"
proof -
  have init: "init_header os ab zero_segment = (True, snd (init_header os ab zero_segment))" by (simp add: init_header_def Let_def)
  show ?thesis
    using assms(1)
    by (subst create_segment_def, subst init)
      (simp add: map_and_validate_def created_header created_offsets [OF assms(2,3)] calls_ok_def attached_def Let_def
        compute_total_size_def created_object_def)
qed

lemma create_success:
  assumes "create_segment os ab mgr obj = (True, m, obj')"
  shows "attached m" and "obj' = Some (created_object os ab)" and "obj = None"
  using assms
  by (auto simp: create_segment_def map_and_validate_def attached_def created_object_def init_header_def compute_total_size_def Let_def
      split: if_splits)

lemma open_success: "open_segment os mgr obj = (True, m) \<Longrightarrow> attached m \<and> obj \<noteq> None"
  by (auto simp: open_segment_def map_and_validate_def attached_def Let_def split: if_splits option.splits)

lemma open_created:
  assumes "calls_ok os" and "0 < ab" and "unat ab + 69745792 < 2 ^ 64"
  shows "\<exists>m. open_segment os mgr (Some (created_object os' ab)) = (True, m) \<and> attached m \<and> slot_base_offset m = 69745792"
proof -
  have "unat (69745792 + ab) = 69745792 + unat ab" using assms(3) by (simp add: unat_add_lem [THEN iffD1])
  then have "69745792 + ab \<noteq> 0" by (metis unsigned_0 add_is_0 zero_neq_numeral)
  then show ?thesis
    using assms(1)
    by (simp add: open_segment_def created_object_def map_and_validate_def created_header created_offsets [OF assms(2,3)]
        calls_ok_def attached_def Let_def)
qed

text \<open>
  A created segment is a valid, wholly free arena, and others can attach to it.  When the object does
  not exist and the system calls succeed, \<open>create\<close> succeeds for every arena size that does not overflow,
  the handle is attached, every slot is free and every session entry empty (the ownership invariant), and
  a later \<open>open\<close> of the same object validates and finds the arena at the same offset.
\<close>

theorem created_segment_ready:
  assumes "os_shm_open os \<ge> 0" and "os_shm_truncate os" and "os_shm_mmap os" and "os_shm_fstat os"
    and "0 < ab" and "unat ab + 69745792 < 2 ^ 64"
  shows "\<exists>mgr' ob. create_segment os ab mgr None = (True, mgr', Some ob) \<and>
     shm_inv mgr' (obj_seg ob) (map of_nat [0..<unat (ucast (ab div 1536) :: u32)]) \<and> validate mgr' (obj_seg ob) \<and>
     (\<exists>mgr2'. open_segment os mgr2 (Some ob) = (True, mgr2') \<and> attached mgr2' \<and>
        slot_base_offset mgr2' = slot_base_offset mgr')"
proof -
  have ok: "calls_ok os" using assms(1-4) by (simp add: calls_ok_def)
  obtain m where cr: "create_segment os ab mgr None = (True, m, Some (created_object os ab))" and at: "attached m"
    and base: "slot_base_offset m = 69745792" using create_absent [OF ok assms(5,6)] by blast
  have "shm_inv m (obj_seg (created_object os ab)) (map of_nat [0..<unat (ucast (ab div 1536) :: u32)])"
    using fresh_segment_inv [OF at] by (simp add: created_object_def)
  moreover have "validate m (obj_seg (created_object os ab))"
    using created_offsets [OF assms(5,6), of m] at by (simp add: validate_def created_object_def created_header attached_def)
  ultimately show ?thesis using cr base open_created [OF ok assms(5,6), of mgr2 os] by auto
qed

definition shm_fine :: shm_os where
  "shm_fine = \<lparr>os_shm_open = 3, os_shm_fstat = True, os_shm_truncate = True, os_shm_mmap = True, os_getpid = 77,
     os_boot_id = None\<rparr>"

theorem created_segment_ready_witness:
  "\<exists>mgr' ob. create_segment shm_fine 268435456 new_manager None = (True, mgr', Some ob) \<and> validate mgr' (obj_seg ob)"
  using created_segment_ready [of shm_fine 268435456 new_manager new_manager] by (auto simp: shm_fine_def)

text \<open>The object of a creator that has filled in the header and not yet chained the free list.\<close>

definition half_created :: "shm_os \<Rightarrow> u64 \<Rightarrow> ShmObject" where
  "half_created os ab = \<lparr>obj_size = compute_total_size ab, obj_seg = init_fields os ab zero_segment\<rparr>"

definition half_object :: ShmObject where
  "half_object = half_created shm_fine DEFAULT_ARENA_BYTES"

lemma half_created_opens:
  assumes "calls_ok os" and "0 < ab" and "unat ab + 69745792 < 2 ^ 64"
  shows "\<exists>m. open_segment os mgr (Some (half_created creator ab)) = (True, m) \<and> attached m \<and>
     validate m (obj_seg (half_created creator ab))"
proof -
  define seg where "seg = init_fields creator ab zero_segment"
  have off: "offsets_valid m seg" if "header_ptr m" for m
    by (rule validate_fields [OF assms(2,3) that]) (simp_all add: seg_def)
  have hv: "header_valid (hdr seg)" and ts: "total_size (hdr seg) = compute_total_size ab"
    and ao: "arena_offset (hdr seg) = 69745792"
    by (simp_all add: seg_def header_valid_def compute_total_size_def)
  have "unat (69745792 + ab) = 69745792 + unat ab" using assms(3) by (simp add: unat_add_lem [THEN iffD1])
  then have pos: "compute_total_size ab \<noteq> 0" by (metis ts seg_def init_fields_hdr(8) unsigned_0 add_is_0 zero_neq_numeral)
  have "\<exists>m. open_segment os mgr (Some \<lparr>obj_size = compute_total_size ab, obj_seg = seg\<rparr>) = (True, m) \<and> attached m \<and> validate m seg"
    using assms(1) pos
    by (simp add: open_segment_def map_and_validate_def validate_def hv ts off attached_def Let_def calls_ok_def ao)
  then show ?thesis by (simp add: half_created_def seg_def)
qed

lemma half_object_opens: "\<exists>mgr. open_segment shm_fine new_manager (Some half_object) = (True, mgr) \<and> attached mgr"
  using half_created_opens [of shm_fine DEFAULT_ARENA_BYTES new_manager shm_fine]
  by (auto simp: half_object_def calls_ok_def shm_fine_def DEFAULT_ARENA_BYTES_def)

text \<open>Over an arena of zeros every link is 0.\<close>

lemma alloc_unchained:
  assumes "attached mgr" and "arena seg = (\<lambda>_. 0)" and "head_idx (free_list_head (hdr seg)) = 0"
  shows "fst (alloc_many mgr m seg) = replicate m 0"
  using assms(2,3)
proof (induction m arbitrary: seg)
  case (Suc m)
  have z: "load64 (\<lambda>_. 0) a = 0" for a
    by (simp add: load64_def mem_read_def map_replicate_const eval_nat_numeral)
  let ?seg = "snd (alloc_slot mgr seg)"
  have al: "fst (alloc_slot mgr seg) = 0" "arena ?seg = (\<lambda>_. 0)" "head_idx (free_list_head (hdr ?seg)) = 0"
    using assms(1) Suc.prems by (simp_all add: alloc_slot_def attached_def kListEnd_eq note_alloc_def Let_def z)
  then have "fst (alloc_many mgr m ?seg) = replicate m 0" by (intro Suc.IH)
  with al(1) show ?case by (auto split: prod.splits)
qed simp

text \<open>
  C36: a segment still being initialised passes validation.  \<open>init_header\<close> writes the magic and every field that
  validation looks at before it chains the free list, which is all that is then left to do.  Take any
  creator and arena size at this point: any other process whose calls succeed attaches to the object and
  validates it, and however many slots it then allocates before the creator goes on, every one of them is
  slot 0.
\<close>

theorem half_initialised_segment_validates:
  assumes "calls_ok os" and "0 < ab" and "unat ab + 69745792 < 2 ^ 64" and "seg = obj_seg (half_created creator ab)"
  shows "\<exists>m. open_segment os mgr (Some (half_created creator ab)) = (True, m) \<and> validate m seg \<and>
     (\<forall>n. fst (alloc_many m n seg) = replicate n 0) \<and>
     init_header creator ab zero_segment = (True, init_free_list seg)"
proof -
  obtain m where op: "open_segment os mgr (Some (half_created creator ab)) = (True, m)" and at: "attached m"
    and val: "validate m seg" using half_created_opens [OF assms(1-3)] assms(4) by blast
  have hd: "free_list_head (hdr seg) = 0" and ar: "arena seg = (\<lambda>_. 0)" and used: "used_slots (hdr seg) = 0" "high_water_used (hdr seg) = 0"
    by (simp_all add: assms(4) half_created_def zero_segment_def zero_header_def)
  have "fst (alloc_many m n seg) = replicate n 0" for n
    by (rule alloc_unchained [OF at ar]) (simp add: hd head_idx_def)
  moreover have "seg\<lparr>hdr := (hdr seg)\<lparr>used_slots := 0, high_water_used := 0\<rparr>\<rparr> = seg" using used by simp
  then have "init_header creator ab zero_segment = (True, init_free_list seg)"
    by (simp add: init_header_def Let_def assms(4) half_created_def)
  ultimately show ?thesis using op val by blast
qed

theorem half_initialised_segment_validates_witness:
  "\<exists>m. open_segment shm_fine new_manager (Some half_object) = (True, m) \<and>
     fst (alloc_many m 2 (obj_seg half_object)) = [0, 0]"
proof -
  have c: "calls_ok shm_fine" by (simp add: calls_ok_def shm_fine_def)
  have ab: "0 < DEFAULT_ARENA_BYTES" "unat DEFAULT_ARENA_BYTES + 69745792 < 2 ^ 64" by (simp_all add: DEFAULT_ARENA_BYTES_def)
  obtain m where "open_segment shm_fine new_manager (Some half_object) = (True, m)"
    "\<forall>n. fst (alloc_many m n (obj_seg half_object)) = replicate n 0"
    using half_initialised_segment_validates [OF c ab refl, of new_manager shm_fine] unfolding half_object_def by blast
  then show ?thesis by (metis numeral_2_eq_2 replicate.simps)
qed

text \<open>
  A validated attachment stays inside the mapping.  Whatever the object holds, if \<open>open\<close> succeeds, the
  header has the slot size this program uses, and the object is smaller than 2^33 bytes, then every slot
  index below \<open>slot_count\<close> addresses 1536 bytes inside the mapped object, and so do the session table and
  block-table offsets.
\<close>

theorem validated_slots_in_bounds:
  assumes "open_segment os mgr (Some ob) = (True, mgr')" and "slot_size (hdr (obj_seg ob)) = SLOT_SIZE"
    and "unat (obj_size ob) < 2 ^ 33" and "idx < slot_count (hdr (obj_seg ob))"
  shows "unat (slot_offset mgr' idx) + 1536 \<le> unat (obj_size ob) \<and>
         session_table_offset (hdr (obj_seg ob)) < obj_size ob \<and> block_table_region_offset (hdr (obj_seg ob)) < obj_size ob"
proof -
  let ?h = "hdr (obj_seg ob)"
  obtain m where ts: "total_size ?h \<le> obj_size ob" and ov: "offsets_valid m (obj_seg ob)" and sb: "slot_base_offset mgr' = arena_offset ?h"
    using assms(1) by (auto simp: open_segment_def map_and_validate_def Let_def split: if_splits)
  have offs: "session_table_offset ?h < total_size ?h" "block_table_region_offset ?h < total_size ?h"
    "arena_offset ?h < total_size ?h"
    "arena_offset ?h + ucast (slot_count ?h) * 1536 \<le> total_size ?h"
    using ov assms(2) by (auto simp: offsets_valid_def Let_def SLOT_SIZE_def split: if_splits)
  have c: "unat (slot_count ?h) * 1536 < 2 ^ 43" using unat_lt_exp [of "slot_count ?h"] by simp
  note cm = slot_bytes [of "slot_count ?h"]
  have ao: "unat (arena_offset ?h) < 2 ^ 33" using offs(3) ts assms(3) by (simp add: word_less_nat_alt word_le_nat_alt)
  then have sum: "unat (arena_offset ?h + ucast (slot_count ?h) * 1536) = unat (arena_offset ?h) + unat (slot_count ?h) * 1536"
    using c cm by (simp add: unat_add_lem [THEN iffD1])
  have i: "unat idx + 1 \<le> unat (slot_count ?h)" using assms(4) by (simp add: word_less_nat_alt)
  note im = slot_bytes [of idx]
  have "unat (arena_offset ?h + ucast idx * 1536) = unat (arena_offset ?h) + unat idx * 1536"
    using ao im unat_lt_exp [of idx] by (simp add: unat_add_lem [THEN iffD1])
  then have "unat (slot_offset mgr' idx) = unat (arena_offset ?h) + unat idx * 1536"
    by (simp add: slot_offset_def sb SLOT_SIZE_def)
  moreover have "unat (arena_offset ?h) + unat (slot_count ?h) * 1536 \<le> unat (obj_size ob)"
    using offs(4) ts sum by (simp add: word_le_nat_alt)
  ultimately have "unat (slot_offset mgr' idx) + 1536 \<le> unat (obj_size ob)" using i by linarith
  with less_le_trans [OF offs(1) ts] less_le_trans [OF offs(2) ts] show ?thesis by blast
qed

theorem validated_slots_in_bounds_witness:
  "\<exists>mgr. open_segment shm_fine new_manager (Some half_object) = (True, mgr) \<and>
         unat (slot_offset mgr 5) + 1536 \<le> unat (obj_size half_object)"
proof -
  obtain mgr where op: "open_segment shm_fine new_manager (Some half_object) = (True, mgr)"
    using half_object_opens by blast
  with validated_slots_in_bounds [OF op, of 5] show ?thesis
    by (simp add: half_object_def half_created_def compute_total_size_def DEFAULT_ARENA_BYTES_def)
qed

lemma attach_loop_succeeds:
  assumes "j < length attempts" and "attempts ! j = (os, obj)" and "calls_ok os"
    and "obj = None \<or> obj = Some (created_object os' DEFAULT_ARENA_BYTES)"
  shows "case attach_loop attempts mgr of (r, mgr', obj') \<Rightarrow> r \<and> attached mgr' \<and> obj' \<noteq> None"
  using assms
proof (induction attempts arbitrary: j mgr)
  case (Cons at attempts)
  obtain o1 b1 where at: "at = (o1, b1)" by (cases at)
  obtain r1 m1 where op: "open_segment o1 mgr b1 = (r1, m1)" by fastforce
  obtain r2 m2 b2 where cr: "create_segment o1 DEFAULT_ARENA_BYTES m1 b1 = (r2, m2, b2)" by (metis surj_pair)
  have big: "0 < DEFAULT_ARENA_BYTES" "unat DEFAULT_ARENA_BYTES + 69745792 < 2 ^ 64" by (simp_all add: DEFAULT_ARENA_BYTES_def)
  show ?case
  proof (cases "r1 \<or> r2")
    case True
    then show ?thesis using op cr open_success [of o1 mgr b1 m1] create_success [of o1 DEFAULT_ARENA_BYTES m1 b1 m2 b2]
      by (cases r1) (auto simp: at)
  next
    case False
    have "j \<noteq> 0"
    proof
      assume "j = 0"
      then have "o1 = os" "b1 = obj" using Cons.prems(2) at by simp_all
      then show False
        using Cons.prems(3,4) False op cr create_absent [OF _ big, of os m1] open_created [OF _ big, of os mgr os'] by auto
    qed
    then have "case attach_loop attempts m2 of (r, mgr', obj') \<Rightarrow> r \<and> attached mgr' \<and> obj' \<noteq> None"
      using Cons.prems by (intro Cons.IH [of "j - 1"]) (auto simp: nth_Cons')
    then show ?thesis using False op cr by (simp add: at)
  qed
qed simp

text \<open>
  C25: the attach loop converges.  If at one of the first 100 attempts the calls succeed and the process finds
  no object, or the object a successful \<open>create\<close> of another process left, then \<open>open_or_create_shm\<close> returns
  true with an attached manager over an existing object, whatever the attempts before it found.
\<close>

theorem attach_converges:
  assumes "j < 100" and "j < length attempts" and "attempts ! j = (os, obj)" and "calls_ok os"
    and "obj = None \<or> (\<exists>os' mgr1 mgr2. create_segment os' DEFAULT_ARENA_BYTES mgr1 None = (True, mgr2, obj))"
  shows "case open_or_create_shm attempts mgr of (r, mgr', obj') \<Rightarrow> r \<and> attached mgr' \<and> obj' \<noteq> None"
proof -
  obtain os' where "obj = None \<or> obj = Some (created_object os' DEFAULT_ARENA_BYTES)"
    using assms(5) create_success(2) by blast
  with assms(1-4) show ?thesis
    unfolding open_or_create_shm_def by (intro attach_loop_succeeds [of j _ os obj os']) simp_all
qed

definition shm_busy :: shm_os where
  "shm_busy = shm_fine\<lparr>os_shm_open := -1\<rparr>"

theorem attach_converges_witness:
  "case open_or_create_shm [(shm_busy, Some half_object), (shm_fine, None)] new_manager of (r, mgr', obj') \<Rightarrow>
     r \<and> attached mgr' \<and> obj' \<noteq> None"
  by (rule attach_converges [of 1 _ shm_fine None]) (simp_all add: calls_ok_def shm_fine_def)

end
