(* ===== verification/ReceiverArgs.thy ===== *)
theory ReceiverArgs
  imports Prelude "HOL-Library.Char_ord"
begin

text \<open>
  \<^verbatim>\<open>src/receiver/receiver_args.cpp\<close>: the command line.  A C string is a \<open>string\<close> without NUL, \<open>argv\<close> a
  list of them, \<open>std::optional\<close> with an error message a sum.  \<open>std::from_chars\<close> for an unsigned type
  reads the longest run of decimal digits and fails without one or when the value does not fit.
\<close>

section \<open>Unsigned numbers\<close>

definition is_digit :: "char \<Rightarrow> bool" where
  "is_digit c \<longleftrightarrow> 48 \<le> (of_char c :: nat) \<and> (of_char c :: nat) \<le> 57"

definition digits_value :: "string \<Rightarrow> nat" where
  "digits_value ds = foldl (\<lambda>v c. v * 10 + (of_char c - 48)) 0 ds"

text \<open>The value and the unread rest, or None for a non-zero \<open>errc\<close>; \<open>bound\<close> is one past the type's maximum.\<close>

definition from_chars :: "nat \<Rightarrow> string \<Rightarrow> (nat \<times> string) option" where
  "from_chars bound s =
     (let ds = takeWhile is_digit s
      in if ds = [] then None
      else if digits_value ds \<ge> bound then None
      else Some (digits_value ds, dropWhile is_digit s))"

definition parse_uint :: "nat \<Rightarrow> string option \<Rightarrow> nat option" where
  "parse_uint bound s =
     (case s of
        None \<Rightarrow> None
      | Some str \<Rightarrow>
          if str = [] then None
          else case from_chars bound str of
            None \<Rightarrow> None
          | Some (v, rest) \<Rightarrow> if rest = [] then Some v else None)"

section \<open>Arguments\<close>

record ReceiverArgs =
  receiver_id :: u32
  listen_port :: u16
  socket_path :: string

definition DEFAULT_SESSION_MANAGER_SOCKET_PATH :: string where
  "DEFAULT_SESSION_MANAGER_SOCKET_PATH = ''/run/nexus/session-manager.sock''"

text \<open>The loop over \<open>argv[i..]\<close>, with the three locals it assigns.\<close>

fun args_loop :: "string list \<Rightarrow> u32 option \<Rightarrow> u16 option \<Rightarrow> string \<Rightarrow> string + (u32 option \<times> u16 option \<times> string)" where
  "args_loop [] rid port sock = Inr (rid, port, sock)"
| "args_loop (arg # rest) rid port sock =
     (if arg = ''--receiver-id'' then
        (case rest of
           [] \<Rightarrow> Inl ''--receiver-id requires a value''
         | v # rest' \<Rightarrow>
             (case parse_uint (2 ^ 32) (Some v) of
                None \<Rightarrow> Inl (''--receiver-id: not a valid uint32: '' @ v)
              | Some x \<Rightarrow> args_loop rest' (Some (of_nat x)) port sock))
      else if arg = ''--listen-port'' then
        (case rest of
           [] \<Rightarrow> Inl ''--listen-port requires a value''
         | v # rest' \<Rightarrow>
             (case parse_uint (2 ^ 16) (Some v) of
                None \<Rightarrow> Inl (''--listen-port: not a valid uint16 (0-65535): '' @ v)
              | Some x \<Rightarrow> args_loop rest' rid (Some (of_nat x)) sock))
      else if arg = ''--socket'' then
        (case rest of
           [] \<Rightarrow> Inl ''--socket requires a value''
         | v # rest' \<Rightarrow>
             if v = [] then Inl ''--socket: path must not be empty''
             else args_loop rest' rid port v)
      else Inl (''unrecognized argument: '' @ arg))"

definition parse_receiver_args :: "string list \<Rightarrow> string + ReceiverArgs" where
  "parse_receiver_args argv =
     (case args_loop (drop 1 argv) None None DEFAULT_SESSION_MANAGER_SOCKET_PATH of
        Inl e \<Rightarrow> Inl e
      | Inr (None, _, _) \<Rightarrow> Inl ''missing required --receiver-id''
      | Inr (Some _, None, _) \<Rightarrow> Inl ''missing required --listen-port''
      | Inr (Some rid, Some port, sock) \<Rightarrow>
          Inr \<lparr>receiver_id = rid, listen_port = port, socket_path = sock\<rparr>)"

section \<open>Numbers round-trip\<close>

fun dec_string :: "nat \<Rightarrow> string" where
  "dec_string n = (if n < 10 then [char_of (48 + n)] else dec_string (n div 10) @ [char_of (48 + n mod 10)])"

declare dec_string.simps [simp del]

lemma of_char_digit: "d < 10 \<Longrightarrow> (of_char (char_of (48 + d)) :: nat) = 48 + d" for d :: nat
  by (simp add: of_char_of)

lemma is_digit_char: "d < 10 \<Longrightarrow> is_digit (char_of (48 + d))" for d :: nat
  by (simp add: is_digit_def of_char_digit)

lemma dec_string_digits: "list_all is_digit (dec_string n) \<and> dec_string n \<noteq> [] \<and> digits_value (dec_string n) = n"
proof (induction n rule: dec_string.induct)
  case (1 n)
  show ?case
  proof (cases "n < 10")
    case True
    then show ?thesis by (simp add: dec_string.simps [of n] is_digit_char digits_value_def of_char_digit)
  next
    case False
    have d: "n mod 10 < 10" by simp
    have "list_all is_digit (dec_string n)" "digits_value (dec_string n) = n div 10 * 10 + n mod 10"
      using 1 False of_char_digit [OF d] is_digit_char [OF d]
      by (simp_all add: dec_string.simps [of n] digits_value_def)
    then show ?thesis using False by (simp add: dec_string.simps [of n])
  qed
qed

lemma takeWhile_all: "list_all P xs \<Longrightarrow> takeWhile P xs = xs \<and> dropWhile P xs = []"
  by (induction xs) auto

lemma parse_uint_iff:
  "parse_uint bound (Some s) = Some v \<longleftrightarrow> s \<noteq> [] \<and> list_all is_digit s \<and> digits_value s = v \<and> v < bound"
proof (cases "list_all is_digit s")
  case True
  then show ?thesis by (auto simp: parse_uint_def from_chars_def takeWhile_all Let_def)
next
  case False
  have "dropWhile is_digit s \<noteq> []" using False by (auto simp: list_all_iff)
  then have "parse_uint bound (Some s) = None" by (auto simp: parse_uint_def from_chars_def Let_def)
  then show ?thesis using False by simp
qed

lemma parse_dec_string [simp]: "n < bound \<Longrightarrow> parse_uint bound (Some (dec_string n)) = Some n"
  using dec_string_digits [of n] by (simp add: parse_uint_iff)

section \<open>Properties\<close>

text \<open>A command line as a list of options, and how it is written.\<close>

datatype cli_option = OptId u32 | OptPort u16 | OptSocket string

fun render_option :: "cli_option \<Rightarrow> string list" where
  "render_option (OptId x) = [''--receiver-id'', dec_string (unat x)]"
| "render_option (OptPort x) = [''--listen-port'', dec_string (unat x)]"
| "render_option (OptSocket p) = [''--socket'', p]"

fun last_id :: "u32 option \<Rightarrow> cli_option list \<Rightarrow> u32 option" where
  "last_id d [] = d" | "last_id d (OptId x # os) = last_id (Some x) os" | "last_id d (_ # os) = last_id d os"

fun last_port :: "u16 option \<Rightarrow> cli_option list \<Rightarrow> u16 option" where
  "last_port d [] = d" | "last_port d (OptPort x # os) = last_port (Some x) os" | "last_port d (_ # os) = last_port d os"

fun last_socket :: "string \<Rightarrow> cli_option list \<Rightarrow> string" where
  "last_socket d [] = d" | "last_socket d (OptSocket p # os) = last_socket p os" | "last_socket d (_ # os) = last_socket d os"

lemma args_loop_rendered:
  assumes "OptSocket [] \<notin> set os"
  shows "args_loop (concat (map render_option os)) rid port sock = Inr (last_id rid os, last_port port os, last_socket sock os)"
  using assms
proof (induction os arbitrary: rid port sock)
  case (Cons opt os)
  have "unat x < 2 ^ 32" "unat y < 2 ^ 16" for x :: u32 and y :: u16
    using unat_lt_exp [of x] unat_lt_exp [of y] by simp_all
  with Cons show ?case by (cases opt) auto
qed simp

text \<open>
  C38: the command line round-trips, in any order.  Any sequence of the three options, written with decimal
  numbers and non-empty paths, parses to the last value given for each, the default socket path when none
  is given, and to the missing-option error, id first, when an id or a port is not given.
\<close>

theorem args_roundtrip:
  assumes "OptSocket [] \<notin> set os"
  shows "parse_receiver_args (prog # concat (map render_option os)) =
     (case (last_id None os, last_port None os) of
        (None, _) \<Rightarrow> Inl ''missing required --receiver-id''
      | (Some _, None) \<Rightarrow> Inl ''missing required --listen-port''
      | (Some rid, Some port) \<Rightarrow>
          Inr \<lparr>receiver_id = rid, listen_port = port,
               socket_path = last_socket DEFAULT_SESSION_MANAGER_SOCKET_PATH os\<rparr>)"
  using args_loop_rendered [OF assms, of None None DEFAULT_SESSION_MANAGER_SOCKET_PATH]
  by (auto simp: parse_receiver_args_def split: option.splits)

theorem args_roundtrip_witness:
  "parse_receiver_args [''receiver'', ''--listen-port'', ''9100'', ''--receiver-id'', ''2''] =
     Inr \<lparr>receiver_id = 2, listen_port = 9100, socket_path = DEFAULT_SESSION_MANAGER_SOCKET_PATH\<rparr>"
proof -
  have "dec_string 9100 = ''9100''" "dec_string 2 = ''2''" by (simp_all add: dec_string.simps char_of_def bit_0 bit_Suc)
  then show ?thesis using args_roundtrip [of "[OptPort 9100, OptId 2]" "''receiver''"] by simp
qed

text \<open>
  No number is silently truncated or half-read.  A value parses exactly when it is a non-empty string of
  decimal digits whose value is below the bound of the target type; signs, blanks, trailing characters
  and too large values are rejected.
\<close>

theorem parse_uint_exact:
  "parse_uint bound (Some s) = Some v \<longleftrightarrow> s \<noteq> [] \<and> list_all is_digit s \<and> digits_value s = v \<and> v < bound"
  by (rule parse_uint_iff)

end
