(* ===== verification/Startup.thy ===== *)
theory Startup
  imports MainLoop UdsChannel ShmLifecycle ReceiverArgs "HOL-Library.Signed_Division"
begin

text \<open>
  \<^verbatim>\<open>src/receiver/main.cpp\<close>: the start-up sequence and the event loop over the real channels.  The results
  of the system calls are inputs: \<open>Startup_os\<close> for the start-up, one \<open>LoopInput\<close> per iteration of the loop
  for \<open>poll\<close>, the two receive calls and the clock (a reading of \<open>steady_clock\<close> in nanoseconds).  Log output and the results of \<open>set_nonblocking\<close>, which
  the program ignores, are left out.
\<close>

section \<open>Start-up\<close>

record 'a Startup_os =
  sys_udp :: udp_os
  sys_any_addr :: 'a
  sys_uds :: uds_os
  sys_send :: "u8 list \<Rightarrow> int"
  sys_pid :: u32
  sys_attempts :: "(shm_os \<times> ShmObject option) list"
  sys_lib :: isal
  sys_files :: file_os
  sys_file_contents :: "string \<Rightarrow> DestFile"
  sys_now :: int

text \<open>The code outside the repository the process is linked with.\<close>

record 'x Linked =
  ln_cpu :: cpu
  ln_parse :: "u8 list \<Rightarrow> bool \<times> 'x Frame"
  ln_codec :: "'x envelope_codec"

record ('x, 'a) Process =
  pr_cfg :: "'x Config"
  pr_udp :: "'a UdpReceiver"
  pr_uds :: UdsChannel
  pr_any :: 'a
  pr_rx :: "'x Receiver"
  pr_last_heartbeat :: int

definition new_udp :: "'a UdpReceiver" where
  "new_udp = \<lparr>udp_fd = -1, local_port = 0, buffers = [], iovecs = [], msg_len = [], msg_namelen = [], src_addrs = []\<rparr>"

definition zero_stats :: Stats where
  "zero_stats = \<lparr>stat_pkts_ok = 0, stat_crc_fail = 0, stat_bad_magic = 0, stat_unparsable = 0, stat_duplicates = 0,
     stat_no_session = 0, stat_arena_exhausted = 0\<rparr>"

text \<open>\<open>main\<close> up to the loop: the exit code, or the running process.\<close>

definition start_up :: "'x Linked \<Rightarrow> 'a Startup_os \<Rightarrow> string list \<Rightarrow> int + ('x, 'a) Process" where
  "start_up ln os argv =
     (case parse_receiver_args argv of Inl error \<Rightarrow> Inl 1
      | Inr args \<Rightarrow>
        (case udp_bind (sys_udp os) (sys_any_addr os) (ReceiverArgs.listen_port args) ''0.0.0.0'' new_udp of (False, _) \<Rightarrow> Inl 1
         | (True, udp) \<Rightarrow>
           (case uds_connect (sys_uds os) (c_str (socket_path args)) \<lparr>uds_fd = -1\<rparr> of (False, _) \<Rightarrow> Inl 1
            | (True, uds) \<Rightarrow>
              let hello = build_receiver_hello (ln_codec ln) (receiver_id args) (sys_pid os) (ReceiverArgs.listen_port args)
              in if \<not> uds_send (sys_send os) hello uds then Inl 1
              else case open_or_create_shm (sys_attempts os) new_manager of
                (True, mgr, Some ob) \<Rightarrow>
                  Inr \<lparr>pr_cfg = \<lparr>cf_cpu = ln_cpu ln, cf_parse = ln_parse ln,
                         cf_env = \<lparr>env_mgr = mgr, env_lib = sys_lib os, env_os = sys_files os\<rparr>, cf_codec = ln_codec ln,
                         cf_receiver_id = receiver_id args, cf_pid = sys_pid os\<rparr>,
                       pr_udp = udp, pr_uds = uds, pr_any = sys_any_addr os,
                       pr_rx = \<lparr>rx_world = \<lparr>shm = obj_seg ob, contexts = Map.empty, files = sys_file_contents os\<rparr>,
                         rx_early = Map.empty, rx_frame = MsgNotSet, rx_stats = zero_stats, rx_sent = [hello]\<rparr>,
                       pr_last_heartbeat = sys_now os\<rparr>
              | _ \<Rightarrow> Inl 1)))"

section \<open>The loop\<close>

record 'a LoopInput =
  in_poll_failed :: bool
  in_udp :: "'a recvmmsg_result option"
  in_uds :: "recv_result option"
  in_now :: int

text \<open>\<open>in_udp\<close> and \<open>in_uds\<close> are None when \<open>poll\<close> does not report the socket readable.\<close>

definition udp_plane :: "'a recvmmsg_result option \<Rightarrow> ('x, 'a) Process \<Rightarrow> ('x, 'a) Process" where
  "udp_plane readable p =
     (case readable of None \<Rightarrow> p
      | Some call \<Rightarrow>
          let batch = replicate RECV_BATCH_SIZE \<lparr>rd_data = 0, rd_len = 0, rd_src_addr = pr_any p\<rparr>
          in case receive_batch call (Some batch) (pr_udp p) of
               (n, out, udp) \<Rightarrow>
                 p\<lparr>pr_udp := udp,
                   pr_rx := fold (\<lambda>i. on_datagram (pr_cfg p) (datagram_bytes udp (the out ! i))) [0..<nat n] (pr_rx p)\<rparr>)"

definition uds_plane :: "recv_result option \<Rightarrow> ('x, 'a) Process \<Rightarrow> ('x, 'a) Process" where
  "uds_plane readable p =
     (case readable of None \<Rightarrow> p
      | Some call \<Rightarrow> p\<lparr>pr_rx := on_control (pr_cfg p) (uds_receive call (pr_uds p)) (pr_rx p)\<rparr>)"

definition kHeartbeatIntervalMs :: int where "kHeartbeatIntervalMs = 1000"

text \<open>\<open>duration_cast<milliseconds>(now.time_since_epoch()).count()\<close>, which rounds towards zero, as a \<open>uint64_t\<close>.\<close>

definition clock_ms :: "int \<Rightarrow> u64" where
  "clock_ms now = word_of_int (now sdiv 1000000)"

definition heartbeat :: "int \<Rightarrow> ('x, 'a) Process \<Rightarrow> ('x, 'a) Process" where
  "heartbeat now p =
     (if now - pr_last_heartbeat p \<ge> kHeartbeatIntervalMs * 1000000
      then p\<lparr>pr_rx := on_heartbeat (pr_cfg p) (clock_ms now) (pr_rx p), pr_last_heartbeat := now\<rparr>
      else p)"

text \<open>The state after the given iterations, and the exit code once \<open>poll\<close> has failed.\<close>

fun main_loop :: "'a LoopInput list \<Rightarrow> ('x, 'a) Process \<Rightarrow> ('x, 'a) Process \<times> int option" where
  "main_loop [] p = (p, None)"
| "main_loop (i # is) p =
     (if in_poll_failed i then (p, Some 0)
      else main_loop is (heartbeat (in_now i) (uds_plane (in_uds i) (udp_plane (in_udp i) p))))"

section \<open>What the handlers send\<close>

text \<open>What a handler sends: messages that satisfy P, after what was sent before.\<close>

definition sends :: "(u8 list \<Rightarrow> bool) \<Rightarrow> 'x Receiver \<Rightarrow> 'x Receiver \<Rightarrow> bool" where
  "sends P rx rx' \<longleftrightarrow> (\<exists>more. rx_sent rx' = rx_sent rx @ more \<and> list_all P more)"

lemma sends_refl [simp, intro]: "rx_sent rx' = rx_sent rx \<Longrightarrow> sends P rx rx'"
  by (simp add: sends_def)

lemma sends_trans: "sends P a b \<Longrightarrow> sends P b c \<Longrightarrow> sends P a c"
  by (auto simp: sends_def)

lemma sends_send: "P m \<Longrightarrow> rx_sent rx' = rx_sent rx \<Longrightarrow> sends P rx (send m rx')"
  by (simp add: sends_def)

lemma sends_fold: "(\<And>x r. sends P r (f x r)) \<Longrightarrow> sends P rx (fold f xs rx)"
  by (induction xs arbitrary: rx) (auto intro: sends_trans)

lemma sends_mono: "sends P rx rx' \<Longrightarrow> (\<And>m. P m \<Longrightarrow> Q m) \<Longrightarrow> sends Q rx rx'"
  unfolding sends_def by (metis list.pred_mono_strong)

text \<open>The messages of the data and control handlers, and those of the running receiver, all in its own name.\<close>

definition handler_message :: "'x Config \<Rightarrow> u8 list \<Rightarrow> bool" where
  "handler_message cf m \<longleftrightarrow>
     (\<exists>mf. m = build_manifest_seen (cf_codec cf) (cf_receiver_id cf) mf) \<or>
     (\<exists>sid b. m = build_block_decoded (cf_codec cf) sid (cf_receiver_id cf) [b])"

definition loop_message :: "'x Config \<Rightarrow> u8 list \<Rightarrow> bool" where
  "loop_message cf m \<longleftrightarrow>
     handler_message cf m \<or> (\<exists>t. m = build_heartbeat (cf_codec cf) (cf_pid cf) t) \<or>
     (\<exists>st. m = build_receiver_stats (cf_codec cf) st \<and> rs_receiver_id st = cf_receiver_id cf)"

lemma handler_messages [simp]:
  "handler_message cf (build_manifest_seen (cf_codec cf) (cf_receiver_id cf) mf)"
  "handler_message cf (build_block_decoded (cf_codec cf) sid (cf_receiver_id cf) [b])"
  unfolding handler_message_def by blast+

lemma loop_messages:
  "handler_message cf m \<Longrightarrow> loop_message cf m" "loop_message cf (build_heartbeat (cf_codec cf) (cf_pid cf) t)"
  "rs_receiver_id st = cf_receiver_id cf \<Longrightarrow> loop_message cf (build_receiver_stats (cf_codec cf) st)"
  unfolding loop_message_def by blast+

lemma on_data_sends: "sends (handler_message cf) rx (on_data cf dp rx)"
  by (auto simp: on_data_def Let_def intro!: sends_send split: prod.splits option.splits)

lemma replay_one_sends: "sends (handler_message cf) rx (replay_one cf sid dg rx)"
  by (auto simp: replay_one_def Let_def intro!: sends_send split: prod.splits)

lemma on_datagram_sends: "sends (handler_message cf) rx (on_datagram cf d rx)"
proof -
  obtain result frame where dec: "decode_frame (cf_cpu cf) (cf_parse cf) (Some d) (rx_frame rx) = (result, frame)" by fastforce
  have man: "sends (handler_message cf) r (on_manifest cf mf r)" for mf r by (auto simp: on_manifest_def intro!: sends_send)
  have ok: "sends (handler_message cf) rx (on_data cf dp r)" "sends (handler_message cf) rx (on_manifest cf mf r)"
    if "rx_sent r = rx_sent rx" for dp mf r
    using on_data_sends [of cf r dp] man [of r mf] that by (simp_all add: sends_def)
  show ?thesis by (cases frame) (simp_all add: on_datagram_def dec Let_def ok)
qed

lemma on_control_sends: "sends (handler_message cf) rx (on_control cf raw rx)"
proof -
  have "sends (handler_message cf) rx (on_session_open cf so rx)" for so
  proof -
    obtain r w where h: "handle_session_open (cf_env cf) so (so_file_size so) (rx_world rx) = (r, w)" by fastforce
    have "sends (handler_message cf) (rx\<lparr>rx_world := w\<rparr>) (fold (replay_one cf (so_session_id so)) dgs (rx\<lparr>rx_world := w\<rparr>))" for dgs
      by (rule sends_fold) (rule replay_one_sends)
    then show ?thesis
      by (cases r) (auto simp: on_session_open_def h Let_def sends_def split: option.splits)
  qed
  then show ?thesis
    by (auto simp: on_control_def on_purge_def split: option.splits prod.splits bool.splits RxEnvelopeCase.splits Envelope.splits)
qed

lemma on_heartbeat_sends:
  "\<exists>st. rs_receiver_id st = cf_receiver_id cf \<and> rx_sent (on_heartbeat cf t rx) =
     rx_sent rx @ [build_heartbeat (cf_codec cf) (cf_pid cf) t, build_receiver_stats (cf_codec cf) st]"
  by (auto simp: on_heartbeat_def Let_def intro!: exI)

section \<open>The loop over the channels\<close>

lemma planes_frame [simp]:
  "pr_cfg (udp_plane a p) = pr_cfg p" "pr_uds (udp_plane a p) = pr_uds p" "pr_last_heartbeat (udp_plane a p) = pr_last_heartbeat p"
  "pr_cfg (uds_plane b p) = pr_cfg p" "pr_uds (uds_plane b p) = pr_uds p" "pr_last_heartbeat (uds_plane b p) = pr_last_heartbeat p"
  "pr_cfg (heartbeat c p) = pr_cfg p" "pr_uds (heartbeat c p) = pr_uds p"
  by (auto simp: udp_plane_def uds_plane_def heartbeat_def Let_def split: option.split prod.split)

lemma planes_send:
  "sends (handler_message (pr_cfg p)) (pr_rx p) (pr_rx (udp_plane a p))"
  "sends (handler_message (pr_cfg p)) (pr_rx p) (pr_rx (uds_plane b p))"
  "sends (loop_message (pr_cfg p)) (pr_rx p) (pr_rx (heartbeat c p))"
proof -
  show "sends (handler_message (pr_cfg p)) (pr_rx p) (pr_rx (udp_plane a p))" "sends (handler_message (pr_cfg p)) (pr_rx p) (pr_rx (uds_plane b p))"
    by (auto simp: udp_plane_def uds_plane_def Let_def on_control_sends intro!: sends_fold on_datagram_sends split: option.splits prod.splits)
  show "sends (loop_message (pr_cfg p)) (pr_rx p) (pr_rx (heartbeat c p))"
    using on_heartbeat_sends [of "pr_cfg p" "clock_ms c" "pr_rx p"] by (auto simp: heartbeat_def sends_def loop_messages)
qed

lemma handlers_send: "sends (handler_message (pr_cfg p)) (pr_rx p) (pr_rx (uds_plane b (udp_plane a p)))"
  using planes_send(1) [of p a] planes_send(2) [of "udp_plane a p" b] by (auto intro: sends_trans)

lemma main_loop_sends: "sends (loop_message (pr_cfg p)) (pr_rx p) (pr_rx (fst (main_loop is p)))"
proof (induction "is" arbitrary: p)
  case (Cons i "is")
  let ?u = "uds_plane (in_uds i) (udp_plane (in_udp i) p)"
  have "sends (loop_message (pr_cfg p)) (pr_rx p) (pr_rx ?u)" by (rule sends_mono [OF handlers_send]) (rule loop_messages(1))
  then have "sends (loop_message (pr_cfg p)) (pr_rx p) (pr_rx (heartbeat (in_now i) ?u))"
    using planes_send(3) [of ?u] by (auto intro: sends_trans)
  then show ?case using Cons.IH [of "heartbeat (in_now i) ?u"] by (auto intro: sends_trans)
qed simp

lemma main_loop_bounded: "buffers_bounded (pr_rx p) \<Longrightarrow> buffers_bounded (pr_rx (fst (main_loop is p)))"
proof (induction "is" arbitrary: p)
  case (Cons i "is")
  have "buffers_bounded (fold (\<lambda>x. on_datagram cf (g x)) xs r)" if "buffers_bounded r" for cf r xs and g :: "nat \<Rightarrow> u8 list"
    using that by (induction xs arbitrary: r) (simp_all add: on_datagram_bounded)
  then have "buffers_bounded (pr_rx (udp_plane (in_udp i) p))"
    using Cons.prems by (auto simp: udp_plane_def Let_def split: option.splits prod.splits)
  then have "buffers_bounded (pr_rx (uds_plane (in_uds i) (udp_plane (in_udp i) p)))"
    by (auto simp: uds_plane_def on_control_bounded split: option.splits)
  then show ?case
    using Cons by (auto simp: heartbeat_def on_heartbeat_bounded)
qed simp

section \<open>Properties\<close>

text \<open>
  C23: the receiver introduces itself first and once.  When start-up succeeds, the first message handed to
  the control channel is the \<open>ReceiverHello\<close> with the id and port of the command line; whatever datagrams,
  control messages and timer events the loop then sees, every later message is a \<open>ManifestSeen\<close>,
  \<open>BlockDecoded\<close>, \<open>Heartbeat\<close> or \<open>ReceiverStats\<close> in the receiver's own name.
\<close>

theorem hello_is_first:
  assumes "start_up ln os argv = Inr p"
  shows "\<exists>args rest. parse_receiver_args argv = Inr args \<and> cf_receiver_id (pr_cfg p) = receiver_id args \<and>
     rx_sent (pr_rx (fst (main_loop inputs p))) =
       build_receiver_hello (ln_codec ln) (receiver_id args) (sys_pid os) (ReceiverArgs.listen_port args) # rest \<and>
     (\<forall>m\<in>set rest. loop_message (pr_cfg p) m)"
proof -
  obtain args where args: "parse_receiver_args argv = Inr args" and id: "cf_receiver_id (pr_cfg p) = receiver_id args"
    and sent: "rx_sent (pr_rx p) =
      [build_receiver_hello (ln_codec ln) (receiver_id args) (sys_pid os) (ReceiverArgs.listen_port args)]"
    using assms by (auto simp: start_up_def Let_def split: sum.splits prod.splits bool.splits option.splits if_splits)
  obtain more where "rx_sent (pr_rx (fst (main_loop inputs p))) = rx_sent (pr_rx p) @ more"
    and "\<forall>m\<in>set more. loop_message (pr_cfg p) m" using main_loop_sends [of p inputs] unfolding sends_def list_all_iff by blast
  with args id sent show ?thesis by auto
qed

definition demo_linked :: "unit Linked" where
  "demo_linked = \<lparr>ln_cpu = intel_cpu, ln_parse = (\<lambda>b. (True, if b = [7] then FrameManifest demo_manifest else demo_frame)), ln_codec = demo_codec\<rparr>"

definition demo_start :: "nat Startup_os" where
  "demo_start = \<lparr>sys_udp = demo_udp_os, sys_any_addr = 0, sys_uds = \<lparr>uo_socket = 4, uo_connect = (\<lambda>_. True)\<rparr>,
     sys_send = (\<lambda>m. int (length m)), sys_pid = 77, sys_attempts = [(shm_fine, None)], sys_lib = isal_1_1,
     sys_files = os_ok, sys_file_contents = (\<lambda>_. \<lparr>cached = (\<lambda>_. 0), durable = (\<lambda>_. 0)\<rparr>), sys_now = 0\<rparr>"

definition demo_argv :: "string list" where
  "demo_argv = [''receiver'', ''--receiver-id'', ''2'', ''--listen-port'', ''7'']"

lemma demo_args: "parse_receiver_args demo_argv =
   Inr \<lparr>receiver_id = 2, listen_port = 7, socket_path = DEFAULT_SESSION_MANAGER_SOCKET_PATH\<rparr>"
  by (simp add: demo_argv_def parse_receiver_args_def parse_uint_def from_chars_def is_digit_def digits_value_def Let_def)

lemma demo_starts_with:
  "\<exists>p. start_up ln (demo_start\<lparr>sys_lib := lib\<rparr>) demo_argv = Inr p \<and> udp_ready (pr_udp p) \<and>
   cf_cpu (pr_cfg p) = ln_cpu ln \<and> cf_parse (pr_cfg p) = ln_parse ln \<and> rx_early (pr_rx p) = Map.empty \<and> uds_fd (pr_uds p) = 4"
proof -
  have open0: "open_segment shm_fine new_manager None = (False, new_manager)"
    by (simp add: open_segment_def close_manager_def new_manager_def Let_def)
  obtain m where "create_segment shm_fine DEFAULT_ARENA_BYTES new_manager None = (True, m, Some (created_object shm_fine DEFAULT_ARENA_BYTES))"
    using create_absent [of shm_fine DEFAULT_ARENA_BYTES new_manager] by (auto simp: calls_ok_def shm_fine_def DEFAULT_ARENA_BYTES_def)
  then have shm: "open_or_create_shm [(shm_fine, None)] new_manager = (True, m, Some (created_object shm_fine DEFAULT_ARENA_BYTES))"
    by (simp add: open_or_create_shm_def open0)
  obtain u where udp: "udp_bind demo_udp_os 0 7 ''0.0.0.0'' (new_udp :: nat UdpReceiver) = (True, u)"
    by (simp add: udp_bind_def demo_udp_os_def Let_def del: replicate.simps)
  have uds: "uds_connect \<lparr>uo_socket = 4, uo_connect = (\<lambda>_. True)\<rparr> path \<lparr>uds_fd = -1\<rparr> = (True, \<lparr>uds_fd = 4\<rparr>)"
    if "length path < 108" for path
    using that by (simp add: uds_connect_def uds_close_def sizeof_sun_path_def Let_def)
  have len: "length (c_str DEFAULT_SESSION_MANAGER_SOCKET_PATH) < 108"
    by (simp add: c_str_def DEFAULT_SESSION_MANAGER_SOCKET_PATH_def)
  show ?thesis
    using udp_bind_ready [OF udp]
    by (simp add: start_up_def demo_args demo_start_def udp uds [OF len] uds_send_def shm Let_def)
qed

lemma demo_starts: "\<exists>p. start_up demo_linked demo_start demo_argv = Inr p \<and> udp_ready (pr_udp p) \<and>
   cf_cpu (pr_cfg p) = intel_cpu \<and> cf_parse (pr_cfg p) = ln_parse demo_linked \<and> rx_early (pr_rx p) = Map.empty"
  using demo_starts_with [of demo_linked isal_1_1] by (auto simp: demo_start_def demo_linked_def)

theorem hello_is_first_witness:
  "\<exists>p rest. start_up demo_linked demo_start demo_argv = Inr p \<and>
     rx_sent (pr_rx (fst (main_loop [\<lparr>in_poll_failed = False, in_udp = None, in_uds = None, in_now = 5000000000\<rparr>] p))) =
       build_receiver_hello demo_codec 2 77 7 # rest"
proof -
  obtain p where p: "start_up demo_linked demo_start demo_argv = Inr p" using demo_starts by blast
  from hello_is_first [OF p, of "[\<lparr>in_poll_failed = False, in_udp = None, in_uds = None, in_now = 5000000000\<rparr>]"] p
  show ?thesis by (auto simp: demo_args demo_linked_def demo_start_def)
qed

text \<open>
  C37: the early-data buffers stay bounded.  However the process is started and whatever then arrives, the
  data packets buffered for a session that is not open yet never exceed 8192.
\<close>

theorem early_buffers_bounded:
  assumes "start_up ln os argv = Inr p"
    and "rx_early (pr_rx (fst (main_loop inputs p))) sid = Some es"
  shows "length (es_buffered es) \<le> kMaxBufferedPerSession"
proof -
  have "buffers_bounded (pr_rx p)"
    using assms(1) by (auto simp: start_up_def Let_def buffers_bounded_def
        split: sum.splits prod.splits bool.splits option.splits if_splits)
  then have "buffers_bounded (pr_rx (fst (main_loop inputs p)))" by (rule main_loop_bounded)
  with assms(2) show ?thesis by (simp add: buffers_bounded_def)
qed

theorem early_buffers_bounded_witness:
  "\<exists>p es. start_up demo_linked demo_start demo_argv = Inr p \<and> length (es_buffered es) \<le> kMaxBufferedPerSession \<and>
     rx_early (pr_rx (fst (main_loop [\<lparr>in_poll_failed = False, in_udp = Some (Received [(wire_frame [7], 5)]), in_uds = None,
       in_now = 0\<rparr>] p))) ''s1'' = Some es"
proof -
  obtain p where p: "start_up demo_linked demo_start demo_argv = Inr p" and u: "udp_ready (pr_udp p)"
    and cf: "cf_cpu (pr_cfg p) = intel_cpu" "cf_parse (pr_cfg p) = ln_parse demo_linked"
    and e: "rx_early (pr_rx p) = Map.empty" using demo_starts by blast
  have len: "length [(wire_frame [7], 5 :: nat)] \<le> RECV_BATCH_SIZE" by (simp add: udp_sizes)
  obtain ds u' where r: "receive_batch (Received [(wire_frame [7], 5)])
       (Some (replicate RECV_BATCH_SIZE \<lparr>rd_data = 0, rd_len = 0, rd_src_addr = pr_any p\<rparr>)) (pr_udp p) =
       (1, Some (ds @ drop 1 (replicate RECV_BATCH_SIZE \<lparr>rd_data = 0, rd_len = 0, rd_src_addr = pr_any p\<rparr>)), u')"
    and l: "length ds = 1" and d: "delivered u' [(wire_frame [7], 5)] ds"
    by (rule receive_batch_ok [OF u len, of "replicate RECV_BATCH_SIZE \<lparr>rd_data = 0, rd_len = 0, rd_src_addr = pr_any p\<rparr>"]) (use len in simp_all)
  have bytes: "datagram_bytes u' (ds ! 0) = wire_frame [7]"
    using d l by (cases ds) (simp_all add: delivered_def udp_sizes)
  have ok: "decode_frame intel_cpu (ln_parse demo_linked) (Some (wire_frame [7])) f = (FrameOk, FrameManifest demo_manifest)" for f
    by (subst decode_frame_ok_iff_lemma) (auto simp: demo_linked_def intro!: exI [of _ "[7]"])
  let ?inputs = "[\<lparr>in_poll_failed = False, in_udp = Some (Received [(wire_frame [7], 5)]), in_uds = None, in_now = 0\<rparr>]"
  have "rx_early (pr_rx (fst (main_loop ?inputs p))) ''s1'' = Some \<lparr>es_manifest = demo_manifest, es_buffered = []\<rparr>"
    using l by (simp add: udp_plane_def uds_plane_def heartbeat_def on_heartbeat_def r nth_append bytes on_datagram_def cf ok on_manifest_def e
        demo_manifest_def Let_def)
  with p early_buffers_bounded [OF p this] show ?thesis by blast
qed

section \<open>The heartbeat as the session manager sees it\<close>

text \<open>The time stamp of a message that parses as a heartbeat.\<close>

definition beat_time :: "'x envelope_codec \<Rightarrow> u8 list \<Rightarrow> u64 option" where
  "beat_time cd m = (case parse_envelope cd m of (True, EnvHeartbeat pid t) \<Rightarrow> Some t | _ \<Rightarrow> None)"

text \<open>Documented behaviour of protobuf: a heartbeat parses back, and no other message parses as one.\<close>

definition heartbeats_readable :: "'x envelope_codec \<Rightarrow> bool" where
  "heartbeats_readable cd \<longleftrightarrow>
     (\<forall>env. (case env of EnvHeartbeat pid t \<Rightarrow> parse_envelope cd (serialize cd env) = (True, env)
             | _ \<Rightarrow> beat_time cd (serialize cd env) = None))"

lemma roundtrips_readable: "codec_roundtrips cd \<Longrightarrow> heartbeats_readable cd"
  by (simp add: heartbeats_readable_def codec_roundtrips_def beat_time_def split: Envelope.split)

lemma beat_times:
  assumes "heartbeats_readable cd"
  shows "beat_time cd (build_heartbeat cd pid t) = Some t"
    and "beat_time cd (build_receiver_stats cd st) = None" "beat_time cd (build_receiver_hello cd rid pid port) = None"
    and "beat_time cd (build_manifest_seen cd rid mf) = None" "beat_time cd (build_block_decoded cd sid rid ids) = None"
  using assms [unfolded heartbeats_readable_def, rule_format, of "EnvHeartbeat pid t"]
    assms [unfolded heartbeats_readable_def, rule_format, of "EnvReceiverStats st"]
    assms [unfolded heartbeats_readable_def, rule_format, of "EnvReceiverHello rid pid (ucast port) (proto_hash cd)"]
    assms [unfolded heartbeats_readable_def, rule_format, of "EnvManifestSeen rid mf"]
    assms [unfolded heartbeats_readable_def, rule_format, of "EnvBlockDecoded sid rid ids"]
  by (simp_all add: beat_time_def build_heartbeat_def build_receiver_stats_def build_receiver_hello_def
      build_manifest_seen_def build_block_decoded_def)

definition beats_sent :: "('x, 'a) Process \<Rightarrow> u64 list" where
  "beats_sent p = List.map_filter (beat_time (cf_codec (pr_cfg p))) (rx_sent (pr_rx p))"

lemma beats_handlers:
  assumes "heartbeats_readable (cf_codec (pr_cfg p))"
  shows "beats_sent (uds_plane b (udp_plane a p)) = beats_sent p"
proof -
  obtain more where more: "rx_sent (pr_rx (uds_plane b (udp_plane a p))) = rx_sent (pr_rx p) @ more" "list_all (handler_message (pr_cfg p)) more"
    using handlers_send [of p b a] unfolding sends_def by blast
  have "List.map_filter (beat_time (cf_codec (pr_cfg p))) more = []"
    using more(2) beat_times(4,5) [OF assms] by (induction more) (auto simp: handler_message_def List.map_filter_def)
  then show ?thesis by (simp add: beats_sent_def more(1) List.map_filter_def)
qed

lemma beats_heartbeat:
  assumes "heartbeats_readable (cf_codec (pr_cfg p))"
  shows "beats_sent (heartbeat now p) =
     beats_sent p @ (if now - pr_last_heartbeat p \<ge> kHeartbeatIntervalMs * 1000000 then [clock_ms now] else [])"
  using on_heartbeat_sends [of "pr_cfg p" "clock_ms now" "pr_rx p"] beat_times(1,2) [OF assms]
  by (auto simp: beats_sent_def heartbeat_def List.map_filter_def)

text \<open>The readings at which a heartbeat is due, from the last one on.\<close>

fun beats_due :: "int \<Rightarrow> int list \<Rightarrow> int list" where
  "beats_due t0 [] = []"
| "beats_due t0 (now # clock) =
     (if now - t0 \<ge> 1000000000 then now # beats_due now clock else beats_due t0 clock)"

lemma beats_main_loop:
  assumes "heartbeats_readable (cf_codec (pr_cfg p))" and "\<forall>i\<in>set is. \<not> in_poll_failed i"
  shows "beats_sent (fst (main_loop is p)) = beats_sent p @ map clock_ms (beats_due (pr_last_heartbeat p) (map in_now is))"
  using assms
proof (induction "is" arbitrary: p)
  case (Cons i "is")
  let ?u = "uds_plane (in_uds i) (udp_plane (in_udp i) p)" let ?r = "heartbeat (in_now i) ?u"
  have "beats_sent (fst (main_loop is ?r)) = beats_sent ?r @ map clock_ms (beats_due (pr_last_heartbeat ?r) (map in_now is))"
    using Cons.prems by (intro Cons.IH) simp_all
  then show ?case
    using Cons.prems beats_heartbeat [of ?u "in_now i"] by (simp add: beats_handlers) (simp add: heartbeat_def kHeartbeatIntervalMs_def)
qed simp

lemma beats_due_spaced: "sorted_wrt (\<lambda>a b. a + 1000000000 \<le> b) (t0 # beats_due t0 clock)"
proof (induction clock arbitrary: t0)
  case (Cons now clock)
  from Cons.IH [of now] Cons.IH [of t0] show ?case by fastforce
qed simp

lemma beats_due_subset: "set (beats_due t0 clock) \<subseteq> set clock"
proof (induction clock arbitrary: t0)
  case (Cons now clock)
  from Cons.IH [of now] Cons.IH [of t0] show ?case by auto
qed simp

lemma beats_due_recent:
  assumes "sorted (t0 # clock)" and "t \<in> set clock"
  shows "\<exists>b\<in>set (t0 # beats_due t0 clock). b \<le> t \<and> t < b + 1000000000"
  using assms
proof (induction clock arbitrary: t0)
  case (Cons now clock)
  show ?case
  proof (cases "now - t0 \<ge> 1000000000")
    case True
    then show ?thesis using Cons.IH [of now] Cons.prems by (cases "t = now") auto
  next
    case False
    have "sorted (t0 # clock)" using Cons.prems(1) by auto
    with False show ?thesis using Cons.IH [of t0] Cons.prems by (cases "t = now") auto
  qed
qed simp

text \<open>
  C24: the heartbeat keeps its beat.  Start-up succeeds and the loop runs on a clock that does not go back.  Then the
  time stamps of the heartbeats the session manager reads are those of clock readings of the loop, in order, any
  two (and the first and the start of the loop) at least one second apart; and at every iteration, whatever
  datagrams and control messages it handled, the last heartbeat (or the start of the loop) is less than one
  second old.  \<open>poll\<close> waits at most that second, so traffic neither delays nor multiplies the heartbeats.
\<close>

theorem heartbeat_cadence:
  assumes "start_up ln os argv = Inr p" and "heartbeats_readable (ln_codec ln)"
    and "\<forall>i\<in>set inputs. \<not> in_poll_failed i" and "sorted (sys_now os # map in_now inputs)"
  shows "\<exists>beats. beats_sent (fst (main_loop inputs p)) = map clock_ms beats \<and> set beats \<subseteq> set (map in_now inputs) \<and>
     sorted_wrt (\<lambda>a b. a + 1000000000 \<le> b) (sys_now os # beats) \<and>
     (\<forall>i\<in>set inputs. \<exists>b\<in>set (sys_now os # beats). b \<le> in_now i \<and> in_now i < b + 1000000000)"
proof -
  have p: "cf_codec (pr_cfg p) = ln_codec ln" "pr_last_heartbeat p = sys_now os" "beats_sent p = []"
    using assms(1) beat_times(3) [OF assms(2)]
    by (auto simp: start_up_def Let_def beats_sent_def List.map_filter_def split: sum.splits prod.splits bool.splits option.splits if_splits)
  show ?thesis
    using beats_main_loop [of p inputs] assms(2,3) p beats_due_subset [of "sys_now os" "map in_now inputs"]
      beats_due_spaced [of "sys_now os" "map in_now inputs"] beats_due_recent [OF assms(4)]
    by (intro exI [of _ "beats_due (sys_now os) (map in_now inputs)"] conjI ballI) (simp_all del: list.set)
qed

text \<open>Four iterations, at 0.5, 1.2, 2 and 2.3 seconds: heartbeats at 1.2 and 2.3 seconds.\<close>

definition beat_codec :: "unit envelope_codec" where
  "beat_codec = \<lparr>serialize = (\<lambda>env. case env of EnvHeartbeat pid t \<Rightarrow> le_bytes 8 t @ le_bytes 4 pid | _ \<Rightarrow> []),
     parse_envelope = (\<lambda>m. (True, if length m = 12 then EnvHeartbeat (load_le (drop 8 m)) (load_le (take 8 m)) else EnvUnset)),
     proto_hash = []\<rparr>"

definition beat_inputs :: "nat LoopInput list" where
  "beat_inputs = map (\<lambda>now. \<lparr>in_poll_failed = False, in_udp = None, in_uds = None, in_now = now\<rparr>)
     [500000000, 1200000000, 2000000000, 2300000000]"

theorem heartbeat_cadence_witness:
  "\<exists>p beats. start_up (demo_linked\<lparr>ln_codec := beat_codec\<rparr>) demo_start demo_argv = Inr p \<and>
     beats_sent (fst (main_loop beat_inputs p)) = map clock_ms beats \<and> set beats \<subseteq> set (map in_now beat_inputs) \<and>
     sorted_wrt (\<lambda>a b. a + 1000000000 \<le> b) (0 # beats) \<and> (\<exists>b\<in>set beats. 1300000000 < b)"
proof -
  obtain p where p: "start_up (demo_linked\<lparr>ln_codec := beat_codec\<rparr>) demo_start demo_argv = Inr p"
    using demo_starts_with [of "demo_linked\<lparr>ln_codec := beat_codec\<rparr>" isal_1_1] by (auto simp: demo_start_def)
  have "heartbeats_readable (ln_codec (demo_linked\<lparr>ln_codec := beat_codec\<rparr>))"
    by (simp add: heartbeats_readable_def beat_codec_def beat_time_def load_le_bytes take_bit_word_eq_self split: Envelope.split)
  moreover have now: "sys_now demo_start = 0" by (simp add: demo_start_def)
  moreover have "\<forall>i\<in>set beat_inputs. \<not> in_poll_failed i" "sorted (0 # map in_now beat_inputs)" by (simp_all add: beat_inputs_def)
  ultimately obtain beats where b: "beats_sent (fst (main_loop beat_inputs p)) = map clock_ms beats" "set beats \<subseteq> set (map in_now beat_inputs)"
    "sorted_wrt (\<lambda>a b. a + 1000000000 \<le> b) (0 # beats)"
    "\<forall>i\<in>set beat_inputs. \<exists>b\<in>set (0 # beats). b \<le> in_now i \<and> in_now i < b + 1000000000"
    using heartbeat_cadence [OF p, of beat_inputs] unfolding now by blast
  obtain i where "i \<in> set beat_inputs" "in_now i = 2300000000" by (force simp: beat_inputs_def)
  with b(4) obtain c where "c \<in> set (0 # beats)" "2300000000 < c + 1000000000" by force
  then have "\<exists>b\<in>set beats. 1300000000 < b" by (intro bexI [of _ c]) auto
  with p b show ?thesis by blast
qed


end
