(* ===== verification/EndToEnd.thy ===== *)
theory EndToEnd
  imports Startup Delivery
begin

text \<open>
  From the wire to the disk: the event loop (\<^verbatim>\<open>src/receiver/main.cpp\<close>) as a run of pipeline events, and with the
  framing, the socket and the transfer theorems, from datagrams to the durable file.
\<close>

section \<open>The events of the loop\<close>

definition data_event :: "DataPacket \<Rightarrow> event" where
  "data_event dp = EvData (dp_session_id dp) (dp_block_id dp) (dp_symbol_id dp) (dp_payload dp)"

definition datagram_events :: "'x Config \<Rightarrow> u8 list \<Rightarrow> event list" where
  "datagram_events cf d =
     (case decode_frame (cf_cpu cf) (cf_parse cf) (Some d) MsgNotSet of (FrameOk, FrameData dp) \<Rightarrow> [data_event dp] | _ \<Rightarrow> [])"

text \<open>A \<open>SessionOpen\<close> that succeeds replays the packets buffered for its session.\<close>

definition open_events :: "'x Config \<Rightarrow> SessionOpen \<Rightarrow> 'x Receiver \<Rightarrow> event list" where
  "open_events cf so rx =
     EvOpen so (so_file_size so) #
       (if fst (handle_session_open (cf_env cf) so (so_file_size so) (rx_world rx)) then
          (case rx_early rx (so_session_id so) of None \<Rightarrow> []
           | Some es \<Rightarrow> map (\<lambda>dg. data_event (early_packet (so_session_id so) dg)) (es_buffered es))
        else [])"

definition control_events :: "'x Config \<Rightarrow> u8 list option \<Rightarrow> 'x Receiver \<Rightarrow> event list" where
  "control_events cf raw rx =
     (case raw of None \<Rightarrow> []
      | Some bytes \<Rightarrow>
          (case parse_incoming (cf_codec cf) bytes CaseUnset of
             (True, EnvSessionOpen so, CaseSessionOpen) \<Rightarrow> open_events cf so rx
           | (True, EnvPurgeSession session_id reason, CasePurgeSession) \<Rightarrow> [EvPurge session_id]
           | _ \<Rightarrow> []))"

lemma data_event_eq: "EvData nid bid s payload = data_event dp \<longleftrightarrow>
    dp = \<lparr>dp_session_id = nid, dp_block_id = bid, dp_symbol_id = s, dp_payload = payload\<rparr>"
  by (cases dp) (auto simp: data_event_def)

lemma decode_frame_fresh: "decode_frame cpu parse d f = decode_frame cpu parse d g"
  by (simp add: decode_frame_def)

lemma on_data_world: "rx_world (on_data cf dp rx) = apply_event (cf_env cf) (data_event dp) (rx_world rx)"
  by (simp add: on_data_def data_event_def Let_def split: prod.split option.split)

lemma on_manifest_world: "rx_world (on_manifest cf mf rx) = rx_world rx"
  by (simp add: on_manifest_def)

lemma on_datagram_world:
  "rx_world (on_datagram cf d rx) = fold (apply_event (cf_env cf)) (datagram_events cf d) (rx_world rx)"
proof -
  obtain result frame where dec: "decode_frame (cf_cpu cf) (cf_parse cf) (Some d) f = (result, frame)" for f
    using decode_frame_fresh by (metis surj_pair)
  show ?thesis
    by (cases result; cases frame) (simp_all add: on_datagram_def datagram_events_def dec Let_def on_data_world on_manifest_world)
qed

lemma replay_one_world:
  "rx_world (replay_one cf sid dg rx) = apply_event (cf_env cf) (data_event (early_packet sid dg)) (rx_world rx)"
  by (simp add: replay_one_def data_event_def early_packet_def Let_def split: prod.split)

lemma fold_replay_world:
  "rx_world (fold (replay_one cf sid) dgs rx) =
     fold (apply_event (cf_env cf)) (map (\<lambda>dg. data_event (early_packet sid dg)) dgs) (rx_world rx)"
  by (induction dgs arbitrary: rx) (simp_all add: replay_one_world)

lemma on_session_open_world:
  "rx_world (on_session_open cf so rx) = fold (apply_event (cf_env cf)) (open_events cf so rx) (rx_world rx)"
proof -
  obtain r w where h: "handle_session_open (cf_env cf) so (so_file_size so) (rx_world rx) = (r, w)" by fastforce
  show ?thesis
    by (cases r) (simp_all add: on_session_open_def open_events_def h Let_def fold_replay_world split: option.split)
qed

lemma on_control_world:
  "rx_world (on_control cf raw rx) = fold (apply_event (cf_env cf)) (control_events cf raw rx) (rx_world rx)"
proof (cases raw)
  case (Some bytes)
  obtain ok env kase where p: "parse_incoming (cf_codec cf) bytes CaseUnset = (ok, env, kase)" by (metis surj_pair)
  show ?thesis
    by (cases ok; cases env; cases kase) (simp_all add: on_control_def control_events_def Some p on_session_open_world on_purge_def)
qed (simp add: on_control_def control_events_def)

lemma on_heartbeat_world: "rx_world (on_heartbeat cf t rx) = rx_world rx"
  by (simp add: on_heartbeat_def Let_def)

section \<open>The loop as a run of events\<close>

text \<open>The datagrams of one \<open>recvmmsg\<close>, as the buffers hold them.\<close>

fun batch_bytes :: "'a recvmmsg_result option \<Rightarrow> u8 list list" where
  "batch_bytes (Some (Received ms)) = map (\<lambda>m. take MAX_DATAGRAM_SIZE (fst m)) ms"
| "batch_bytes _ = []"

definition batch_fits :: "'a LoopInput \<Rightarrow> bool" where
  "batch_fits i \<longleftrightarrow> (\<forall>ms. in_udp i = Some (Received ms) \<longrightarrow> length ms \<le> RECV_BATCH_SIZE)"

fun loop_events :: "'a LoopInput list \<Rightarrow> ('x, 'a) Process \<Rightarrow> event list" where
  "loop_events [] p = []"
| "loop_events (i # is) p =
     (if in_poll_failed i then []
      else
        let q = udp_plane (in_udp i) p
        in concat (map (datagram_events (pr_cfg p)) (batch_bytes (in_udp i))) @
           (case in_uds i of None \<Rightarrow> [] | Some call \<Rightarrow> control_events (pr_cfg p) (uds_receive call (pr_uds p)) (pr_rx q)) @
           loop_events is (heartbeat (in_now i) (uds_plane (in_uds i) q)))"

lemma fold_datagram_world:
  "rx_world (fold (on_datagram cf) ds rx) = fold (apply_event (cf_env cf)) (concat (map (datagram_events cf) ds)) (rx_world rx)"
  by (induction ds arbitrary: rx) (simp_all add: on_datagram_world)

lemma fold_batch:
  assumes "map g [0..<n] = ds"
  shows "fold (\<lambda>i. f (g i)) [0..<n] r = fold f ds r"
proof -
  have "fold f (map g [0..<n]) r = fold (\<lambda>i. f (g i)) [0..<n] r" by (simp add: fold_map comp_def)
  with assms show ?thesis by simp
qed

lemma udp_plane_batch:
  assumes u: "udp_ready (pr_udp p)" and len: "\<forall>ms. a = Some (Received ms) \<longrightarrow> length ms \<le> RECV_BATCH_SIZE"
  shows "pr_rx (udp_plane a p) = fold (on_datagram (pr_cfg p)) (batch_bytes a) (pr_rx p)"
    and "udp_ready (pr_udp (udp_plane a p))" "pr_cfg (udp_plane a p) = pr_cfg p" "pr_uds (udp_plane a p) = pr_uds p"
proof -
  let ?arr = "replicate RECV_BATCH_SIZE \<lparr>rd_data = 0, rd_len = 0, rd_src_addr = pr_any p\<rparr>"
  have "pr_rx (udp_plane a p) = fold (on_datagram (pr_cfg p)) (batch_bytes a) (pr_rx p) \<and> udp_ready (pr_udp (udp_plane a p)) \<and>
     pr_cfg (udp_plane a p) = pr_cfg p \<and> pr_uds (udp_plane a p) = pr_uds p"
  proof (cases "\<exists>ms. a = Some (Received ms)")
    case True
    then obtain ms where a: "a = Some (Received ms)" by blast
    with len have ms: "length ms \<le> RECV_BATCH_SIZE" by simp
    obtain ds u' where r: "receive_batch (Received ms) (Some ?arr) (pr_udp p) = (int (length ms), Some (ds @ drop (length ms) ?arr), u')"
      and l: "length ds = length ms" and d: "UdpReceiver.delivered u' ms ds" and ready: "udp_ready u'"
      by (rule receive_batch_ok [OF u ms, of ?arr]) (use ms in simp)
    have "map (\<lambda>i. datagram_bytes u' ((ds @ drop (length ms) ?arr) ! i)) [0..<length ms] = map (datagram_bytes u') ds"
      using l by (intro nth_equalityI) (simp_all add: nth_append)
    also have "\<dots> = batch_bytes a" using d by (simp add: UdpReceiver.delivered_def a)
    finally have "fold (\<lambda>i. on_datagram (pr_cfg p) (datagram_bytes u' ((ds @ drop (length ms) ?arr) ! i))) [0..<length ms] (pr_rx p) =
        fold (on_datagram (pr_cfg p)) (batch_bytes a) (pr_rx p)" by (rule fold_batch)
    then show ?thesis using ready by (simp add: udp_plane_def a r Let_def del: replicate.simps)
  next
    case False
    then have "batch_bytes a = []" by (cases a rule: batch_bytes.cases) auto
    moreover have "udp_ready (snd (snd (receive_batch c (Some ?arr) (pr_udp p))))" if "a = Some c" for c
      using receive_batch_ready [OF u, of c] len that by blast
    moreover have "nat (fst (receive_batch c (Some ?arr) (pr_udp p))) = 0" if "a = Some c" for c
      using False that by (cases c) (auto simp: receive_batch_def Let_def)
    ultimately show ?thesis using u
      by (auto simp: udp_plane_def Let_def prod.case_eq_if simp del: replicate.simps split: option.split)
  qed
  then show "pr_rx (udp_plane a p) = fold (on_datagram (pr_cfg p)) (batch_bytes a) (pr_rx p)"
    "udp_ready (pr_udp (udp_plane a p))" "pr_cfg (udp_plane a p) = pr_cfg p" "pr_uds (udp_plane a p) = pr_uds p" by simp_all
qed

lemma uds_plane_world:
  "rx_world (pr_rx (uds_plane b p)) = fold (apply_event (cf_env (pr_cfg p)))
     (case b of None \<Rightarrow> [] | Some call \<Rightarrow> control_events (pr_cfg p) (uds_receive call (pr_uds p)) (pr_rx p)) (rx_world (pr_rx p))"
  "pr_cfg (uds_plane b p) = pr_cfg p" "pr_udp (uds_plane b p) = pr_udp p" "pr_uds (uds_plane b p) = pr_uds p"
  by (simp_all add: uds_plane_def on_control_world split: option.split)

lemma heartbeat_world:
  "rx_world (pr_rx (heartbeat c p)) = rx_world (pr_rx p)"
  "pr_cfg (heartbeat c p) = pr_cfg p" "pr_udp (heartbeat c p) = pr_udp p" "pr_uds (heartbeat c p) = pr_uds p"
  by (simp_all add: heartbeat_def on_heartbeat_world)

lemma loop_run:
  assumes "udp_ready (pr_udp p)" and "\<forall>i\<in>set is. batch_fits i"
  shows "rx_world (pr_rx (fst (main_loop is p))) = fold (apply_event (cf_env (pr_cfg p))) (loop_events is p) (rx_world (pr_rx p))"
  using assms
proof (induction "is" arbitrary: p)
  case (Cons i "is")
  let ?q = "udp_plane (in_udp i) p"
  let ?r = "heartbeat (in_now i) (uds_plane (in_uds i) ?q)"
  have fits: "\<forall>ms. in_udp i = Some (Received ms) \<longrightarrow> length ms \<le> RECV_BATCH_SIZE" using Cons.prems(2) by (simp add: batch_fits_def)
  note q = udp_plane_batch [OF Cons.prems(1) fits]
  have "rx_world (pr_rx (fst (main_loop is ?r))) = fold (apply_event (cf_env (pr_cfg ?r))) (loop_events is ?r) (rx_world (pr_rx ?r))"
    using Cons.prems(2) q(2) by (intro Cons.IH) (simp_all add: heartbeat_world uds_plane_world)
  then show ?case
    by (simp add: Let_def heartbeat_world uds_plane_world q(1,3,4) fold_datagram_world cong: option.case_cong)
qed simp

section \<open>Properties\<close>

text \<open>
  C22: the running process refines the pipeline.  From start-up on, whatever datagrams, control messages and
  timer events the loop sees, the segment, the contexts and the files are those of a run of pipeline events:
  each accepted data frame is one packet, each \<open>SessionOpen\<close> one open followed by the packets buffered for
  it, each \<open>PurgeSession\<close> one purge, in the order of arrival; nothing else touches them.
\<close>

theorem main_loop_refines_pipeline:
  assumes "start_up ln os argv = Inr p" and "\<forall>i\<in>set is. batch_fits i"
  shows "rx_world (pr_rx (fst (main_loop is p))) = fold (apply_event (cf_env (pr_cfg p))) (loop_events is p) (rx_world (pr_rx p))"
proof (rule loop_run [OF _ assms(2)])
  show "udp_ready (pr_udp p)"
    using assms(1) udp_bind_ready
    by (auto simp: start_up_def Let_def split: sum.splits prod.splits bool.splits option.splits if_splits)
qed

theorem main_loop_refines_pipeline_witness:
  "\<exists>p. start_up demo_linked demo_start demo_argv = Inr p \<and>
     (let is = [\<lparr>in_poll_failed = False, in_udp = Some (Received [([1, 2], 5)]), in_uds = None, in_now = 3000000000\<rparr>]
      in rx_world (pr_rx (fst (main_loop is p))) = fold (apply_event (cf_env (pr_cfg p))) (loop_events is p) (rx_world (pr_rx p)))"
proof -
  obtain p where p: "start_up demo_linked demo_start demo_argv = Inr p" using demo_starts by blast
  show ?thesis
    using main_loop_refines_pipeline [OF p, of "[\<lparr>in_poll_failed = False, in_udp = Some (Received [([1, 2], 5)]), in_uds = None, in_now = 3000000000\<rparr>]"] p
    by (simp add: batch_fits_def udp_sizes Let_def)
qed

section \<open>From datagrams to the file\<close>

text \<open>A datagram on the wire that carries a data packet: an intact frame within the 2048 bytes of a buffer.\<close>

definition wire_packet :: "'x Config \<Rightarrow> u8 list \<Rightarrow> DataPacket \<Rightarrow> bool" where
  "wire_packet cf d dp \<longleftrightarrow> (\<exists>body rest. d = wire_frame body @ rest \<and> length (wire_frame body) \<le> MAX_DATAGRAM_SIZE \<and>
     cf_parse cf body = (True, FrameData dp))"

definition arriving :: "'a LoopInput list \<Rightarrow> u8 list set" where
  "arriving is = {d. \<exists>i\<in>set is. \<exists>ms src. in_udp i = Some (Received ms) \<and> (d, src) \<in> set ms}"

lemma datagram_events_packet:
  assumes "sse42_documented (cf_cpu cf)"
  shows "ev \<in> set (datagram_events cf (take MAX_DATAGRAM_SIZE d)) \<longleftrightarrow> (\<exists>dp. ev = data_event dp \<and> wire_packet cf d dp)"
proof -
  obtain result frame where dec: "decode_frame (cf_cpu cf) (cf_parse cf) (Some (take MAX_DATAGRAM_SIZE d)) MsgNotSet = (result, frame)"
    by (metis surj_pair)
  have small: "length body \<le> 0xFFFF" if "length (wire_frame body) \<le> MAX_DATAGRAM_SIZE" for body
    using that by (simp add: udp_sizes)
  have iff: "result = FrameOk \<and> frame = FrameData dp \<longleftrightarrow> wire_packet cf d dp" for dp
    using decode_frame_ok_iff_lemma [OF assms, of "cf_parse cf" "take MAX_DATAGRAM_SIZE d" MsgNotSet "FrameData dp"]
      truncated_frame_iff [of MAX_DATAGRAM_SIZE d] small
    by (auto simp: dec wire_packet_def)
  show ?thesis
  proof (cases "\<exists>dp. result = FrameOk \<and> frame = FrameData dp")
    case True
    then obtain dp where f: "result = FrameOk" "frame = FrameData dp" by blast
    then have "wire_packet cf d dp' \<longleftrightarrow> dp' = dp" for dp' using iff [of dp'] by auto
    then show ?thesis using f by (auto simp: datagram_events_def dec)
  next
    case False
    then show ?thesis using iff by (cases result; cases frame) (auto simp: datagram_events_def dec)
  qed
qed

text \<open>A run without poll errors and control messages: every arriving data frame is one event.\<close>

lemma quiet_events:
  assumes "sse42_documented (cf_cpu (pr_cfg p))" and "udp_ready (pr_udp p)"
    and "\<forall>i\<in>set is. batch_fits i \<and> \<not> in_poll_failed i \<and> in_uds i = None"
  shows "ev \<in> set (loop_events is p) \<longleftrightarrow> (\<exists>d\<in>arriving is. \<exists>dp. ev = data_event dp \<and> wire_packet (pr_cfg p) d dp)"
  using assms
proof (induction "is" arbitrary: p)
  case Nil
  then show ?case by (simp add: arriving_def)
next
  case (Cons i "is")
  let ?q = "udp_plane (in_udp i) p"
  let ?r = "heartbeat (in_now i) (uds_plane (in_uds i) ?q)"
  have i: "\<not> in_poll_failed i" "in_uds i = None" using Cons.prems(3) by simp_all
  have fits: "\<forall>ms. in_udp i = Some (Received ms) \<longrightarrow> length ms \<le> RECV_BATCH_SIZE" using Cons.prems(3) by (simp add: batch_fits_def)
  note q = udp_plane_batch [OF Cons.prems(2) fits]
  have cf: "pr_cfg ?r = pr_cfg p" by (simp add: heartbeat_world uds_plane_world q(3))
  have IH: "ev \<in> set (loop_events is ?r) \<longleftrightarrow> (\<exists>d\<in>arriving is. \<exists>dp. ev = data_event dp \<and> wire_packet (pr_cfg p) d dp)"
    unfolding cf [symmetric] using Cons.prems(1,3) q(2) cf
    by (intro Cons.IH) (simp_all add: heartbeat_world uds_plane_world)
  have "ev \<in> set (concat (map (datagram_events (pr_cfg p)) (batch_bytes (in_udp i)))) \<longleftrightarrow>
      (\<exists>ms. in_udp i = Some (Received ms) \<and> (\<exists>m\<in>set ms. \<exists>dp. ev = data_event dp \<and> wire_packet (pr_cfg p) (fst m) dp))"
    using datagram_events_packet [OF Cons.prems(1)] by (cases "in_udp i" rule: batch_bytes.cases) simp_all
  moreover have "arriving (i # is) = {d. \<exists>ms src. in_udp i = Some (Received ms) \<and> (d, src) \<in> set ms} \<union> arriving is"
    by (auto simp: arriving_def)
  ultimately show ?case using IH i by (force simp: Let_def)
qed

text \<open>
  From the wire to the disk.  Let a process hold a session of T blocks, and let only data packets of that
  session be framed on the wire, among any noise, cut or corrupted datagrams, in any order, number and
  batches, between heartbeats.  When each block has k distinct symbols in intact frames of at most 2048 bytes
  and more than T (k - 1) slots are free, the durable image of the destination file is in the end the
  sender's file, byte for byte.
\<close>

theorem process_delivers_file:
  assumes "udp_ready (pr_udp p)" and "cf = pr_cfg p" and "sse42_documented (cf_cpu cf)"
    and "transfer (cf_env cf) sid ctx T D (rx_world (pr_rx p))"
    and "\<forall>bid<T. block_at (shm (rx_world (pr_rx p))) (unat (ctx_session_idx ctx)) (unat bid) = zero_block"
    and "\<forall>i\<in>set is. batch_fits i \<and> \<not> in_poll_failed i \<and> in_uds i = None"
    and "\<forall>d\<in>arriving is. \<forall>dp. wire_packet cf d dp \<longrightarrow>
           dp_session_id dp = sid \<and> carries (env_lib (cf_env cf)) sid ctx T D (data_event dp)"
    and "\<forall>bid<T. unat (ctx_k ctx) \<le> card {s. \<exists>d\<in>arriving is. \<exists>payload.
           wire_packet cf d \<lparr>dp_session_id = sid, dp_block_id = bid, dp_symbol_id = s, dp_payload = payload\<rparr> \<and>
           s < ctx_n ctx \<and> length payload = unat (ctx_symbol_bytes ctx)}"
    and "shm_inv (env_mgr (cf_env cf)) (shm (rx_world (pr_rx p))) fl" and "unat T * (unat (ctx_k ctx) - 1) < length fl"
    and "splits_file (ctx_writer ctx) T D content"
  shows "mem_read 0 (length content)
     (durable (files (rx_world (pr_rx (fst (main_loop is p)))) (bw_path (ctx_writer ctx)))) = content"
proof -
  let ?w = "rx_world (pr_rx p)" and ?evs = "loop_events is p" and ?env = "cf_env cf"
  have mem: "ev \<in> set ?evs \<longleftrightarrow> (\<exists>d\<in>arriving is. \<exists>dp. ev = data_event dp \<and> wire_packet cf d dp)" for ev
    using quiet_events [OF _ assms(1,6)] assms(2,3) by simp
  then have c: "\<forall>ev\<in>set ?evs. carries (env_lib ?env) sid ctx T D ev" using assms(7) by auto
  have data: "EvData nid bid s payload \<in> set ?evs \<longleftrightarrow>
     (\<exists>d\<in>arriving is. wire_packet cf d \<lparr>dp_session_id = nid, dp_block_id = bid, dp_symbol_id = s, dp_payload = payload\<rparr>)"
    for nid bid s payload unfolding mem by (simp add: data_event_eq)
  have own: "nid = sid" if "EvData nid bid symid payload \<in> set ?evs" for nid bid symid payload
    using bspec [OF assms(7)] that unfolding data by fastforce
  have "\<forall>ev\<in>set ?evs. \<exists>nid bid symid payload. ev = EvData nid bid symid payload"
    by (auto simp: mem data_event_def)
  then have run: "run_ok ?env ?evs ?w" by (rule data_run_ok)
  have "Delivery.delivered sid ctx ?evs bid = {s. \<exists>d\<in>arriving is. \<exists>payload.
           wire_packet cf d \<lparr>dp_session_id = sid, dp_block_id = bid, dp_symbol_id = s, dp_payload = payload\<rparr> \<and>
           s < ctx_n ctx \<and> length payload = unat (ctx_symbol_bytes ctx)}" for bid
    by (auto simp: Delivery.delivered_def data)
  with assms(8) have k: "\<forall>bid<T. unat (ctx_k ctx) \<le> card (Delivery.delivered sid ctx ?evs bid)" by simp
  have "ample ?env sid ?evs ?w" using own by (intro ample_fresh [OF assms(4,5) run c _ assms(9,10)]) blast
  from transfer_lemma [OF assms(4,5) run c this k assms(11)]
  show ?thesis using loop_run [OF assms(1)] assms(2,6) by simp
qed

text \<open>The two blocks of \<open>demo\<close> over a wire whose bodies are block id, symbol id and payload.\<close>

definition demo_parse :: "u8 list \<Rightarrow> bool \<times> unit Frame" where
  "demo_parse b = (True, if length b = 5
     then FrameData \<lparr>dp_session_id = ''s1'', dp_block_id = ucast (b ! 0), dp_symbol_id = ucast (b ! 1), dp_payload = drop 2 b\<rparr> else FrameEnd)"

definition demo_process :: "(unit, nat) Process" where
  "demo_process = \<lparr>pr_cfg = demo_cfg\<lparr>cf_parse := demo_parse\<rparr>, pr_udp = demo_udp, pr_uds = \<lparr>uds_fd = 5\<rparr>, pr_any = 0,
     pr_rx = demo_rx\<lparr>rx_world := demo\<rparr>, pr_last_heartbeat = 0\<rparr>"

definition demo_bodies :: "u8 list list" where
  "demo_bodies = [[1, 2, 139, 246, 138], [0, 2, 121, 2, 141], [7], [0, 2, 121, 2, 141], [0, 1, 4, 5, 6], [1, 0, 7, 8, 9]]"

definition demo_inputs :: "nat LoopInput list" where
  "demo_inputs =
     [\<lparr>in_poll_failed = False, in_udp = Some (Received (([1, 2], 5) # map (\<lambda>b. (wire_frame b, 5)) (take 4 demo_bodies))),
       in_uds = None, in_now = 1000000000\<rparr>,
      \<lparr>in_poll_failed = False, in_udp = Some (Received (map (\<lambda>b. (wire_frame b, 6)) (drop 4 demo_bodies))),
       in_uds = None, in_now = 1500000000\<rparr>]"

lemma wire_packet_frame:
  assumes "sse42_documented (cf_cpu cf)" and "length body \<le> 2036"
  shows "wire_packet cf (wire_frame body) dp \<longleftrightarrow> cf_parse cf body = (True, FrameData dp)"
proof
  assume "wire_packet cf (wire_frame body) dp"
  then obtain body' rest where b: "wire_frame body = wire_frame body' @ rest" "length (wire_frame body') \<le> 2048"
    "cf_parse cf body' = (True, FrameData dp)" by (auto simp: wire_packet_def udp_sizes)
  have "length body' \<le> 0xFFFF" "length body \<le> 0xFFFF" using b(2) assms(2) by simp_all
  then have "body' = body"
    using validate_wire_frame [OF assms(1), of body' rest] validate_wire_frame [OF assms(1), of body "[]"] b(1) by simp
  with b(3) show "cf_parse cf body = (True, FrameData dp)" by simp
next
  assume "cf_parse cf body = (True, FrameData dp)"
  then show "wire_packet cf (wire_frame body) dp"
    unfolding wire_packet_def using assms(2) by (intro exI [of _ body] exI [of _ "[]"]) (simp add: udp_sizes)
qed

lemma demo_wire:
  "arriving demo_inputs = insert [1, 2] (wire_frame ` set demo_bodies)"
  "wire_packet (pr_cfg demo_process) [1, 2] dp \<longleftrightarrow> False"
  "b \<in> set demo_bodies \<Longrightarrow> wire_packet (pr_cfg demo_process) (wire_frame b) dp \<longleftrightarrow> demo_parse b = (True, FrameData dp)"
proof -
  show "arriving demo_inputs = insert [1, 2] (wire_frame ` set demo_bodies)"
    by (auto simp: arriving_def demo_inputs_def demo_bodies_def)
  have "length [1, 2 :: u8] \<noteq> length (wire_frame body @ rest)" for body rest by simp
  then have "[1, 2] \<noteq> wire_frame body @ rest" for body rest by metis
  then show "wire_packet (pr_cfg demo_process) [1, 2] dp \<longleftrightarrow> False" by (simp add: wire_packet_def)
  show "b \<in> set demo_bodies \<Longrightarrow> wire_packet (pr_cfg demo_process) (wire_frame b) dp \<longleftrightarrow> demo_parse b = (True, FrameData dp)"
    by (subst wire_packet_frame) (auto simp: demo_process_def demo_cfg_def demo_bodies_def sse42_documented_intel)
qed

lemma demo_wire_packets:
  "(\<exists>d\<in>arriving demo_inputs. wire_packet (pr_cfg demo_process) d dp) \<longleftrightarrow> (\<exists>b\<in>set demo_bodies. demo_parse b = (True, FrameData dp))"
  using demo_wire by auto

lemma demo_packet_events:
  assumes "d \<in> arriving demo_inputs" and "wire_packet (pr_cfg demo_process) d dp"
  shows "data_event dp \<in> set demo_events"
proof -
  obtain b where b: "b \<in> set demo_bodies" "demo_parse b = (True, FrameData dp)" using assms demo_wire_packets [of dp] by blast
  have len: "length b = 5" using b(2) by (simp add: demo_parse_def split: if_splits)
  then have dp: "dp = \<lparr>dp_session_id = ''s1'', dp_block_id = ucast (b ! 0), dp_symbol_id = ucast (b ! 1), dp_payload = drop 2 b\<rparr>"
    using b(2) by (simp add: demo_parse_def)
  consider "b = [1, 2, 139, 246, 138]" | "b = [0, 2, 121, 2, 141]" | "b = [0, 1, 4, 5, 6]" | "b = [1, 0, 7, 8, 9]"
    using b(1) len unfolding demo_bodies_def by fastforce
  then show ?thesis by cases (simp_all add: dp data_event_def demo_events_def)
qed

lemma demo_symbols:
  assumes "bid < 2"
  shows "2 \<le> card {s. \<exists>d\<in>arriving demo_inputs. \<exists>payload.
     wire_packet (pr_cfg demo_process) d \<lparr>dp_session_id = ''s1'', dp_block_id = bid, dp_symbol_id = s, dp_payload = payload\<rparr> \<and>
     s < ctx_n demo_ctx \<and> length payload = unat (ctx_symbol_bytes demo_ctx)}" (is "_ \<le> card ?S")
proof -
  have mem: "s \<in> ?S" if "b \<in> set demo_bodies" "demo_parse b = (True, FrameData \<lparr>dp_session_id = ''s1'', dp_block_id = bid,
      dp_symbol_id = s, dp_payload = payload\<rparr>)" "s < 3" "length payload = 3" for b s payload
    using demo_wire_packets that by (simp del: split_paired_Ex) blast
  have "{2, if bid = 0 then 1 else 0} \<subseteq> ?S"
  proof (cases "bid = 0")
    case True
    then show ?thesis
      using mem [of "[0, 2, 121, 2, 141]" 2 "[121, 2, 141]"] mem [of "[0, 1, 4, 5, 6]" 1 "[4, 5, 6]"]
      by (simp add: demo_bodies_def demo_parse_def)
  next
    case False
    then have "bid = 1" using assms by (simp add: below_2)
    then show ?thesis
      using mem [of "[1, 2, 139, 246, 138]" 2 "[139, 246, 138]"] mem [of "[1, 0, 7, 8, 9]" 0 "[7, 8, 9]"]
      by (simp add: demo_bodies_def demo_parse_def)
  qed
  moreover have "finite ?S" by (rule finite_subset [of _ UNIV]) simp_all
  ultimately have "card {2 :: u32, if bid = 0 then 1 else 0} \<le> card ?S" by (intro card_mono)
  then show ?thesis by (simp split: if_splits)
qed

theorem process_delivers_file_witness:
  "mem_read 0 11 (durable (files (rx_world (pr_rx (fst (main_loop demo_inputs demo_process)))) ''/d'')) =
     [1, 2, 3, 4, 5, 6, 7, 8, 9, 10, 11]"
proof -
  have sel: "cf_env (pr_cfg demo_process) = demo_env" "cf_cpu (pr_cfg demo_process) = intel_cpu"
    "rx_world (pr_rx demo_process) = demo" "udp_ready (pr_udp demo_process)"
    using udp_bind_ready [OF demo_udp_bound] by (simp_all add: demo_process_def demo_cfg_def)
  have "mem_read 0 (length [1, 2, 3, 4, 5, 6, 7, 8, 9, 10, 11 :: u8])
      (durable (files (rx_world (pr_rx (fst (main_loop demo_inputs demo_process)))) (bw_path (ctx_writer demo_ctx)))) =
      [1, 2, 3, 4, 5, 6, 7, 8, 9, 10, 11]"
  proof (rule process_delivers_file [where p = demo_process and D = demo_data and T = 2 and sid = "''s1''" and fl = "[0, 1, 2]", OF sel(4) refl])
    show "\<forall>d\<in>arriving demo_inputs. \<forall>dp. wire_packet (pr_cfg demo_process) d dp \<longrightarrow>
        dp_session_id dp = ''s1'' \<and> carries (env_lib (cf_env (pr_cfg demo_process))) ''s1'' demo_ctx 2 demo_data (data_event dp)"
    proof (intro ballI allI impI)
      fix d dp assume "d \<in> arriving demo_inputs" "wire_packet (pr_cfg demo_process) d dp"
      then have e: "data_event dp \<in> set demo_events" by (rule demo_packet_events)
      then have "dp_session_id dp = ''s1''" by (auto simp: demo_events_def data_event_def)
      then show "dp_session_id dp = ''s1'' \<and>
          carries (env_lib (cf_env (pr_cfg demo_process))) ''s1'' demo_ctx 2 demo_data (data_event dp)"
        using demo_carries e by (simp add: sel)
    qed
  qed (use demo_symbols demo_transfer demo_fresh demo_inv demo_splits sse42_documented_intel in
      \<open>simp_all add: sel demo_inputs_def batch_fits_def udp_sizes demo_bodies_def\<close>)
  moreover have "length [1, 2, 3, 4, 5, 6, 7, 8, 9, 10, 11 :: u8] = 11" by simp
  ultimately show ?thesis by (simp del: length_Cons list.size)
qed

end
