(* ===== verification/WholeRun.thy ===== *)
theory WholeRun
  imports EndToEnd
begin

text \<open>
  The life of one receiver, from \<open>main\<close>'s arguments to the durable file: start-up over a segment nobody has
  used yet, data and manifests that arrive early, the \<open>SessionOpen\<close> on the control socket, and the packets.
  The file enters as its bytes; how the sender cuts it into blocks and symbols is \<open>file_block\<close>.
\<close>

section \<open>The file as the sender cuts it\<close>

text \<open>Symbol j of a block is the next \<open>symbol_bytes\<close> bytes of the file; past its end the sender pads at will.\<close>

definition file_block :: "(nat \<Rightarrow> u8) \<Rightarrow> u8 list \<Rightarrow> SessionOpen \<Rightarrow> u32 \<Rightarrow> u8 list list" where
  "file_block pad content so bid =
     (let k = unat (so_k so); sb = unat (so_block_bytes so)
      in map (\<lambda>j. map (\<lambda>p. let a = unat bid * (k * sb) + j * sb + p in if a < length content then content ! a else pad a) [0..<sb])
           [0..<k])"

definition file_symbols :: "isal \<Rightarrow> (nat \<Rightarrow> u8) \<Rightarrow> u8 list \<Rightarrow> SessionOpen \<Rightarrow> u32 \<Rightarrow> u8 list list" where
  "file_symbols lib pad content so bid =
     file_block pad content so bid @
       encode_for_testing lib (new_codec lib (so_k so) (so_n so) (so_block_bytes so)) (file_block pad content so bid)"

text \<open>The parameters of a \<open>SessionOpen\<close> for the file: within the receiver's limits, and just enough blocks.\<close>

definition announces :: "SessionOpen \<Rightarrow> u8 list \<Rightarrow> bool" where
  "announces so content \<longleftrightarrow>
     0 < so_k so \<and> so_k so \<le> so_n so \<and> so_n so \<le> MAX_N \<and> 0 < so_block_bytes so \<and> so_block_bytes so \<le> SLOT_SIZE \<and>
     so_total_blocks so \<le> MAX_BLOCKS_PER_SESSION \<and> unat (so_file_size so) = length content \<and>
     (unat (so_total_blocks so) - 1) * (unat (so_k so) * unat (so_block_bytes so)) < length content \<and>
     length content \<le> unat (so_total_blocks so) * (unat (so_k so) * unat (so_block_bytes so))"

text \<open>The destination exists, is large enough, and is mapped and flushed without error.\<close>

definition file_usable :: "file_os \<Rightarrow> SessionOpen \<Rightarrow> bool" where
  "file_usable os so \<longleftrightarrow>
     (let fd = os_open os (c_str (so_dest_path so))
      in 0 \<le> fd \<and> (\<exists>size. os_fstat os fd = Some size \<and> so_file_size so \<le> size) \<and> os_mmap os fd (so_file_size so) \<and>
         (\<forall>off len. os_msync os off len))"

lemma concat_map_nth:
  assumes "i < k * sb"
  shows "concat (map (\<lambda>j. map (f j) [0..<sb]) [0..<k]) ! i = f (i div sb) (i mod sb)"
  using assms
proof (induction k)
  case (Suc k)
  have len: "length (concat (map (\<lambda>j. map (f j) [0..<sb]) [0..<k])) = k * sb"
    by (simp add: length_concat comp_def sum_list_triv)
  show ?case
  proof (cases "i < k * sb")
    case True
    then show ?thesis using Suc.IH len by (simp add: nth_append)
  next
    case False
    then have d: "i div sb = k" "i - k * sb < sb" using Suc.prems by (auto intro!: div_nat_eqI simp: ac_simps)
    then have "i mod sb = i - k * sb" by (simp add: modulo_nat_def)
    then show ?thesis using False len d by (simp add: nth_append)
  qed
qed simp

lemma file_block_sizes:
  "length (file_block pad content so bid) = unat (so_k so)"
  "\<forall>s\<in>set (file_block pad content so bid). length s = unat (so_block_bytes so)"
  by (auto simp: file_block_def Let_def)

lemma file_block_byte:
  assumes "i < unat (so_k so) * unat (so_block_bytes so)"
    and "unat bid * (unat (so_k so) * unat (so_block_bytes so)) + i < length content"
  shows "concat (file_block pad content so bid) ! i = content ! (unat bid * (unat (so_k so) * unat (so_block_bytes so)) + i)"
  using assms by (simp add: file_block_def Let_def concat_map_nth [OF assms(1)] ac_simps)


section \<open>What the open sets up\<close>

definition opened_writer :: "file_os \<Rightarrow> SessionOpen \<Rightarrow> BlockWriter" where
  "opened_writer os so =
     \<lparr>bw_fd = os_open os (c_str (so_dest_path so)), bw_mapped = True, bw_file_size = so_file_size so,
      bw_block_bytes = ucast (so_k so) * ucast (so_block_bytes so), bw_path = c_str (so_dest_path so)\<rparr>"

definition opened_context :: "Env \<Rightarrow> SessionOpen \<Rightarrow> u32 \<Rightarrow> SessionContext" where
  "opened_context env so idx =
     \<lparr>ctx_session_idx = idx, ctx_k = so_k so, ctx_n = so_n so, ctx_symbol_bytes = so_block_bytes so,
      ctx_codec = new_codec (env_lib env) (so_k so) (so_n so) (so_block_bytes so), ctx_writer = opened_writer (env_os env) so\<rparr>"

lemma opened_sel [simp]:
  "ctx_session_idx (opened_context env so idx) = idx" "ctx_k (opened_context env so idx) = so_k so"
  "ctx_n (opened_context env so idx) = so_n so" "ctx_symbol_bytes (opened_context env so idx) = so_block_bytes so"
  "ctx_codec (opened_context env so idx) = new_codec (env_lib env) (so_k so) (so_n so) (so_block_bytes so)"
  "ctx_writer (opened_context env so idx) = opened_writer (env_os env) so"
  "bw_mapped (opened_writer os so)" "bw_file_size (opened_writer os so) = so_file_size so"
  "bw_block_bytes (opened_writer os so) = ucast (so_k so) * ucast (so_block_bytes so)"
  "bw_path (opened_writer os so) = c_str (so_dest_path so)"
  by (simp_all add: opened_context_def opened_writer_def)

lemma unat_widen: "unat (ucast x :: u64) = unat x" for x :: u32
  using unat_lt_exp [of x] by (simp add: unsigned_ucast_eq take_bit_nat_eq_self)

lemma announces_sizes:
  assumes "announces so content"
  shows "0 < unat (so_k so)" "0 < unat (so_block_bytes so)" "unat (so_k so) * unat (so_block_bytes so) \<le> 391680"
    and "unat (so_total_blocks so) \<le> 8192" "0 < unat (so_total_blocks so)" "0 < unat (so_file_size so)"
    and "unat (ucast (so_k so) * ucast (so_block_bytes so) :: u64) = unat (so_k so) * unat (so_block_bytes so)"
proof -
  note a = assms [unfolded announces_def]
  show "0 < unat (so_k so)" "0 < unat (so_block_bytes so)" using a by (simp_all add: word_less_nat_alt)
  have "unat (so_k so) \<le> 255" "unat (so_block_bytes so) \<le> 1536"
    using a by (auto simp: MAX_N_def SLOT_SIZE_def word_le_nat_alt)
  then show le: "unat (so_k so) * unat (so_block_bytes so) \<le> 391680"
    using mult_le_mono [of "unat (so_k so)" 255 "unat (so_block_bytes so)" 1536] by simp
  show "unat (so_total_blocks so) \<le> 8192" using a by (simp add: MAX_BLOCKS_PER_SESSION_def word_le_nat_alt)
  show "0 < unat (so_total_blocks so)" "0 < unat (so_file_size so)" using a by (auto intro: Nat.gr0I)
  show "unat (ucast (so_k so) * ucast (so_block_bytes so) :: u64) = unat (so_k so) * unat (so_block_bytes so)"
    using le by (simp add: unat_widen unat_mult_lem [THEN iffD1])
qed

lemma file_opens:
  assumes "announces so content" and "file_usable os so"
  shows "open_writer os (c_str (so_dest_path so)) (so_file_size so) (so_k so) (so_block_bytes so) new_writer = (True, opened_writer os so)"
proof -
  have "so_file_size so \<noteq> 0" using announces_sizes(6) [OF assms(1)] by auto
  then show ?thesis
    using assms(2)
    by (auto simp: file_usable_def open_writer_def opened_writer_def close_writer_def new_writer_def Let_def)
qed

text \<open>A block of the opened session starts at its multiple of k symbols, and the blocks cover the file.\<close>

lemma opened_ranges:
  assumes "announces so content" and "bid < so_total_blocks so"
  shows "block_off (opened_writer os so) bid = unat bid * (unat (so_k so) * unat (so_block_bytes so))"
    and "block_off (opened_writer os so) bid < length content"
proof -
  note sz = announces_sizes [OF assms(1)]
  let ?B = "unat (so_k so) * unat (so_block_bytes so)"
  have b: "unat bid \<le> unat (so_total_blocks so) - 1" using assms(2) by (simp add: word_less_nat_alt)
  have "unat bid * ?B \<le> 8192 * 391680" using b sz(3,4) by (intro mult_le_mono) simp_all
  then show off: "block_off (opened_writer os so) bid = unat bid * ?B"
    using sz(7) by (simp add: block_off_def unat_widen unat_mult_lem [THEN iffD1])
  have "unat bid * ?B \<le> (unat (so_total_blocks so) - 1) * ?B" using b by (rule mult_le_mono1)
  also have "\<dots> < length content" using assms(1) by (simp add: announces_def)
  finally show "block_off (opened_writer os so) bid < length content" unfolding off .
qed

lemma opened_splits:
  assumes "announces so content"
  shows "splits_file (opened_writer os so) (so_total_blocks so) (file_block pad content so) content"
proof -
  note sz = announces_sizes [OF assms] and r = opened_ranges [OF assms]
  let ?wr = "opened_writer os so" and ?B = "unat (so_k so) * unat (so_block_bytes so)"
  have fs: "unat (bw_file_size ?wr) = length content" "unat (bw_block_bytes ?wr) = ?B"
    using assms sz(7) by (simp_all add: announces_def)
  have cover: "\<exists>bid < so_total_blocks so. block_off ?wr bid \<le> a \<and> a < block_off ?wr bid + block_len ?wr bid" if a: "a < length content" for a
  proof -
    let ?bid = "of_nat (a div ?B) :: u32"
    have "a < unat (so_total_blocks so) * ?B" using a assms by (simp add: announces_def)
    then have q: "a div ?B < unat (so_total_blocks so)" by (simp add: less_mult_imp_div_less)
    then have u: "unat ?bid = a div ?B" using sz(4) by (simp add: unat_of_nat_small)
    then have bid: "?bid < so_total_blocks so" using q by (simp add: word_less_nat_alt)
    have pos: "0 < ?B" using sz(1,2) by simp
    have off: "block_off ?wr ?bid = a div ?B * ?B" using r(1) [OF bid] u by simp
    have "block_off ?wr ?bid \<le> a" "a < block_off ?wr ?bid + ?B"
      unfolding off using div_mult_mod_eq [of a ?B] mod_less_divisor [OF pos, of a] by linarith+
    then have "block_off ?wr ?bid \<le> a \<and> a < block_off ?wr ?bid + block_len ?wr ?bid"
      unfolding block_len_def fs using a by linarith
    with bid show ?thesis by blast
  qed
  have "concat (file_block pad content so bid) ! i = content ! (block_off ?wr bid + i)"
    if "bid < so_total_blocks so" "i < block_len ?wr bid" for bid i
  proof -
    have i: "i < ?B" "i < length content - unat bid * ?B" using that(2) r(1) [OF that(1)] fs by (simp_all add: block_len_def)
    then have "unat bid * ?B + i < length content" by linarith
    with i(1) show ?thesis using r(1) [OF that(1)] file_block_byte by simp
  qed
  with fs cover show ?thesis by (simp add: splits_file_def)
qed

text \<open>From a world without sessions, the open succeeds and what it leaves is a transfer about to start.\<close>

lemma open_starts_transfer:
  assumes inv: "shm_inv (env_mgr env) (shm w) fl" and none: "contexts w = Map.empty"
    and new: "find_session (c_str (so_session_id so)) (shm w) = None" and e: "find_empty (shm w) = Some i"
    and ann: "announces so content" and use: "file_usable (env_os env) so"
    and code: "isal_documented (env_lib env)" "cauchy_documented (env_lib env) (unat (so_n so)) (unat (so_k so))"
    and h: "handle_session_open env so (so_file_size so) w = (r, w')"
  shows "r" "shm_inv (env_mgr env) (shm w') fl" "files w' = files w"
    and "transfer env (so_session_id so) (opened_context env so (of_nat i)) (so_total_blocks so) (file_block pad content so) w'"
    and "\<forall>bid < so_total_blocks so. block_at (shm w') i (unat bid) = zero_block"
proof -
  let ?sid = "so_session_id so" and ?ctx = "opened_context env so (of_nat i)" and ?wr = "opened_writer (env_os env) so"
  let ?seg = "claim_session i (c_str ?sid) (so_k so) (so_n so) (so_block_bytes so) (so_total_blocks so) (so_file_size so)
      (c_str (so_dest_path so)) (shm w)"
  note d = shm_invD [OF inv] and sz = announces_sizes [OF ann]
  note a = ann [unfolded announces_def]
  have i: "i < 8" using find_empty_Some [OF e] by simp
  have ui: "unat (of_nat i :: u32) = i" using i by (simp add: unat_of_nat_small)
  have tb: "\<not> so_total_blocks so > MAX_BLOCKS_PER_SESSION" using a by (simp add: not_less)
  have os: "open_session (env_mgr env) (c_str ?sid) (so_k so) (so_n so) (so_block_bytes so) (so_total_blocks so) (so_file_size so)
      (c_str (so_dest_path so)) (shm w) = (Some (of_nat i), ?seg)"
    using d(1) tb new e by (simp add: open_session_def attached_def)
  have rw: "r" "w' = w\<lparr>shm := ?seg, contexts := [?sid \<mapsto> ?ctx]\<rparr>"
    using h none by (simp_all add: handle_session_open_def os file_opens [OF ann use] opened_context_def Let_def)
  show "r" by (rule rw(1))
  show "shm_inv (env_mgr env) (shm w') fl" "files w' = files w"
    using claim_session_inv [OF inv e new tb] by (simp_all add: rw(2))
  have len: "length (session_table (shm w)) = 8" using d(3) .
  have entry: "se_n (session_table ?seg ! i) = so_n so" "se_total_blocks (session_table ?seg ! i) = so_total_blocks so"
    using i len by (simp_all add: claim_session_def Let_def)
  have ok: "event_ok w (EvOpen so (so_file_size so))" using a new none by (simp add: apart_def)
  have "pipe_inv env w" using inv none by (auto simp: pipe_inv_def)
  from apply_event_inv [OF this ok] have pipe: "pipe_inv env w'" by (simp add: h)
  have "ctx_coded env ?ctx (file_block pad content so bid)" for bid
    using a code sz(7) file_block_sizes [of pad content so bid] by (simp add: ctx_coded_def)
  moreover have "block_off (ctx_writer ?ctx) bid < unat (bw_file_size (ctx_writer ?ctx))" if "bid < so_total_blocks so" for bid
    using opened_ranges(2) [OF ann that, of "env_os env"] a by simp
  ultimately show "transfer env ?sid ?ctx (so_total_blocks so) (file_block pad content so) w'"
    unfolding transfer_def using pipe use entry a
    by (simp add: rw(2) ui file_usable_def Let_def) blast
  have "block_at ?seg i b = zero_block" if "b < unat (so_total_blocks so)" for b
    using zero_blocks_same [OF that] i len by (simp add: block_at_def claim_session_def Let_def)
  then show "\<forall>bid < so_total_blocks so. block_at (shm w') i (unat bid) = zero_block"
    by (simp add: rw(2) word_less_nat_alt)
qed


section \<open>The segment the process starts with\<close>

text \<open>The peers' start-up race: every attempt finds no object, or one whose creator has finished and nobody has used.\<close>

definition unused_segments :: "'a Startup_os \<Rightarrow> bool" where
  "unused_segments os \<longleftrightarrow>
     (\<forall>(call, obj)\<in>set (sys_attempts os). obj = None \<or> (\<exists>creator. obj = Some (created_object creator DEFAULT_ARENA_BYTES)))"

lemma attach_unused:
  assumes "\<forall>(call, obj)\<in>set attempts. obj = None \<or> (\<exists>creator. obj = Some (created_object creator DEFAULT_ARENA_BYTES))"
    and "attach_loop attempts mgr = (True, m, obj')"
  shows "attached m \<and> (\<exists>creator. obj' = Some (created_object creator DEFAULT_ARENA_BYTES))"
  using assms
proof (induction attempts arbitrary: mgr)
  case (Cons at attempts)
  obtain call obj where at: "at = (call, obj)" by (cases at)
  obtain r1 m1 where op: "open_segment call mgr obj = (r1, m1)" by fastforce
  obtain r2 m2 b2 where cr: "create_segment call DEFAULT_ARENA_BYTES m1 obj = (r2, m2, b2)" by (metis surj_pair)
  show ?case
    using Cons open_success [of call mgr obj m1] create_success [of call DEFAULT_ARENA_BYTES m1 obj m2 b2] op cr
    by (cases r1; cases r2) (auto simp: at)
qed simp

lemma start_up_facts:
  assumes "start_up ln os argv = Inr p" and "unused_segments os"
  shows "udp_ready (pr_udp p)" "cf_cpu (pr_cfg p) = ln_cpu ln" "cf_parse (pr_cfg p) = ln_parse ln" "cf_codec (pr_cfg p) = ln_codec ln"
    and "env_lib (cf_env (pr_cfg p)) = sys_lib os" "env_os (cf_env (pr_cfg p)) = sys_files os"
    and "contexts (rx_world (pr_rx p)) = Map.empty" "rx_early (pr_rx p) = Map.empty"
    and "attached (env_mgr (cf_env (pr_cfg p)))"
    and "\<exists>creator. shm (rx_world (pr_rx p)) = snd (init_header creator DEFAULT_ARENA_BYTES zero_segment)"
proof -
  obtain rid port udp uds mgr ob sent where
    p: "p = \<lparr>pr_cfg = \<lparr>cf_cpu = ln_cpu ln, cf_parse = ln_parse ln,
                         cf_env = \<lparr>env_mgr = mgr, env_lib = sys_lib os, env_os = sys_files os\<rparr>, cf_codec = ln_codec ln,
                         cf_receiver_id = rid, cf_pid = sys_pid os\<rparr>,
                       pr_udp = udp, pr_uds = uds, pr_any = sys_any_addr os,
                       pr_rx = \<lparr>rx_world = \<lparr>shm = obj_seg ob, contexts = Map.empty, files = sys_file_contents os\<rparr>,
                         rx_early = Map.empty, rx_frame = MsgNotSet, rx_stats = zero_stats,
                         rx_sent = sent\<rparr>, pr_last_heartbeat = sys_now os\<rparr>"
    and udp: "udp_bind (sys_udp os) (sys_any_addr os) port ''0.0.0.0'' new_udp = (True, udp)"
    and shm: "open_or_create_shm (sys_attempts os) new_manager = (True, mgr, Some ob)"
    using assms(1) by (auto simp: start_up_def Let_def split: sum.splits prod.splits bool.splits option.splits if_splits)
  have "\<forall>(call, obj)\<in>set (take 100 (sys_attempts os)). obj = None \<or> (\<exists>creator. obj = Some (created_object creator DEFAULT_ARENA_BYTES))"
    using assms(2) in_set_takeD [of _ 100 "sys_attempts os"] unfolding unused_segments_def by blast
  from attach_unused [OF this shm [unfolded open_or_create_shm_def]]
  show "udp_ready (pr_udp p)" "cf_cpu (pr_cfg p) = ln_cpu ln" "cf_parse (pr_cfg p) = ln_parse ln" "cf_codec (pr_cfg p) = ln_codec ln"
    "env_lib (cf_env (pr_cfg p)) = sys_lib os" "env_os (cf_env (pr_cfg p)) = sys_files os"
    "contexts (rx_world (pr_rx p)) = Map.empty" "rx_early (pr_rx p) = Map.empty" "attached (env_mgr (cf_env (pr_cfg p)))"
    "\<exists>creator. shm (rx_world (pr_rx p)) = snd (init_header creator DEFAULT_ARENA_BYTES zero_segment)"
    using udp_bind_ready [OF udp] by (auto simp: p created_object_def)
qed

text \<open>A fresh segment: every slot free, every session entry empty.\<close>

lemma fresh_segment_sessions:
  fixes seg creator ab
  defines "seg \<equiv> snd (init_header creator ab zero_segment)"
  shows "find_session sid seg = None" "find_empty seg = Some 0"
proof -
  have "session_table seg = session_table zero_segment" by (simp add: seg_def init_header_def init_free_list_def Let_def)
  then have st: "se_state (session_table seg ! i) = SESSION_STATE_EMPTY" if "i < 8" for i
    using that by (simp only: zero_segment_def Segment.simps MAX_SESSIONS_def)
      (simp add: zero_session_def SESSION_STATE_EMPTY_def del: replicate.simps)
  show "find_session sid seg = None"
    using st by (auto simp: find_session_def MAX_SESSIONS_def session_states find_None_iff)
  have "find_empty seg = find (\<lambda>i. True) [0..<8]"
    unfolding find_empty_def using st by (intro find_cong) (auto simp: MAX_SESSIONS_def)
  then show "find_empty seg = Some 0" by (simp add: upt_conv_Cons)
qed

lemma default_slots: "unat (ucast (DEFAULT_ARENA_BYTES div 1536) :: u32) = 174762"
  by (simp add: DEFAULT_ARENA_BYTES_def)


section \<open>Before the open\<close>

text \<open>An iteration without poll error and control message.\<close>

definition quiet :: "'a LoopInput \<Rightarrow> bool" where
  "quiet i \<longleftrightarrow> batch_fits i \<and> \<not> in_poll_failed i \<and> in_uds i = None"

text \<open>Every buffered packet has arrived in a frame that satisfies P.\<close>

definition early_from :: "(DataPacket \<Rightarrow> bool) \<Rightarrow> 'x Receiver \<Rightarrow> bool" where
  "early_from P rx \<longleftrightarrow> (\<forall>sid es. rx_early rx sid = Some es \<longrightarrow> (\<forall>dg\<in>set (es_buffered es). P (early_packet sid dg)))"

lemma early_from_same: "early_from P rx \<Longrightarrow> rx_early rx' = rx_early rx \<Longrightarrow> early_from P rx'"
  by (simp add: early_from_def)

lemma on_data_early: "early_from P rx \<Longrightarrow> P dp \<Longrightarrow> early_from P (on_data cf dp rx)"
proof -
  assume "early_from P rx" "P dp"
  moreover have "early_packet (dp_session_id dp) (dp_block_id dp, dp_symbol_id dp, dp_payload dp) = dp"
    by (simp add: early_packet_def)
  ultimately show ?thesis by (auto simp: on_data_def early_from_def Let_def split: prod.split option.split)
qed

lemma on_manifest_early: "early_from P rx \<Longrightarrow> early_from P (on_manifest cf mf rx)"
  by (auto simp: on_manifest_def early_from_def)

lemma on_datagram_early:
  assumes "early_from P rx" and "\<forall>dp. data_event dp \<in> set (datagram_events cf d) \<longrightarrow> P dp"
  shows "early_from P (on_datagram cf d rx)"
proof -
  obtain result frame where dec: "decode_frame (cf_cpu cf) (cf_parse cf) (Some d) f = (result, frame)" for f
    using decode_frame_fresh by (metis surj_pair)
  have same: "early_from P (rx\<lparr>rx_frame := f\<rparr>)" "early_from P (rx\<lparr>rx_frame := f, rx_stats := st\<rparr>)" for f st
    using assms(1) by (simp_all add: early_from_def)
  show ?thesis
    using assms(2)
    by (cases result; cases frame)
      (simp_all add: on_datagram_def datagram_events_def dec Let_def same on_data_early on_manifest_early)
qed

lemma datagram_events_data: "ev \<in> set (datagram_events cf d) \<Longrightarrow> \<exists>dp. ev = data_event dp"
  by (auto simp: datagram_events_def split: prod.splits FrameDecodeResult.splits Frame.splits)

lemma data_event_inj: "data_event dp = data_event dp' \<longleftrightarrow> dp = dp'"
  by (cases dp; cases dp') (auto simp: data_event_def)

text \<open>Without sessions, data packets change nothing but the buffers and counters.\<close>

lemma no_session_idle:
  assumes "contexts w = Map.empty" and "\<forall>ev\<in>set evs. \<exists>dp. ev = data_event dp"
  shows "fold (apply_event env) evs w = w"
  using assms(2)
proof (induction evs)
  case (Cons ev evs)
  then have "apply_event env ev w = w" using assms(1) by (auto simp: data_event_def packet_rejected(1))
  with Cons show ?case by simp
qed simp

lemma idle_batch:
  assumes doc: "sse42_documented (cf_cpu cf)" and none: "contexts (rx_world rx) = Map.empty" and early: "early_from P rx"
    and P: "\<forall>d\<in>set ds. \<forall>dp. data_event dp \<in> set (datagram_events cf d) \<longrightarrow> P dp"
  shows "rx_world (fold (on_datagram cf) ds rx) = rx_world rx" "early_from P (fold (on_datagram cf) ds rx)"
proof -
  have "\<forall>ev\<in>set (concat (map (datagram_events cf) ds)). \<exists>dp. ev = data_event dp"
    using datagram_events_data by fastforce
  then show "rx_world (fold (on_datagram cf) ds rx) = rx_world rx"
    using no_session_idle [OF none] by (simp add: fold_datagram_world)
  show "early_from P (fold (on_datagram cf) ds rx)"
    using early P by (induction ds arbitrary: rx) (simp_all add: on_datagram_early)
qed

lemma idle_udp:
  assumes doc: "sse42_documented (cf_cpu (pr_cfg p))" and u: "udp_ready (pr_udp p)" and fits: "batch_fits i"
    and none: "contexts (rx_world (pr_rx p)) = Map.empty" and early: "early_from P (pr_rx p)"
    and P: "\<forall>d\<in>arriving [i]. \<forall>dp. wire_packet (pr_cfg p) d dp \<longrightarrow> P dp"
  shows "rx_world (pr_rx (udp_plane (in_udp i) p)) = rx_world (pr_rx p)" "early_from P (pr_rx (udp_plane (in_udp i) p))"
    and "udp_ready (pr_udp (udp_plane (in_udp i) p))" "pr_cfg (udp_plane (in_udp i) p) = pr_cfg p"
    and "pr_uds (udp_plane (in_udp i) p) = pr_uds p"
proof -
  note q = udp_plane_batch [OF u fits [unfolded batch_fits_def]]
  have ev: "\<forall>d\<in>set (batch_bytes (in_udp i)). \<forall>dp. data_event dp \<in> set (datagram_events (pr_cfg p) d) \<longrightarrow> P dp"
  proof (intro ballI allI impI)
    fix d dp assume d: "d \<in> set (batch_bytes (in_udp i))" and dp: "data_event dp \<in> set (datagram_events (pr_cfg p) d)"
    obtain ms m where ms: "in_udp i = Some (Received ms)" "m \<in> set ms" "d = take MAX_DATAGRAM_SIZE (fst m)"
      using d by (cases "in_udp i" rule: batch_bytes.cases) auto
    then have "fst m \<in> arriving [i]" by (auto simp: arriving_def intro: exI [of _ "snd m"])
    moreover have "wire_packet (pr_cfg p) (fst m) dp"
      using dp datagram_events_packet [OF doc, of "data_event dp" "fst m"] ms(3) by (auto simp: data_event_inj)
    ultimately show "P dp" using P by blast
  qed
  show "rx_world (pr_rx (udp_plane (in_udp i) p)) = rx_world (pr_rx p)" "early_from P (pr_rx (udp_plane (in_udp i) p))"
    using idle_batch [OF doc none early ev] by (simp_all add: q(1))
  show "udp_ready (pr_udp (udp_plane (in_udp i) p))" "pr_cfg (udp_plane (in_udp i) p) = pr_cfg p"
    "pr_uds (udp_plane (in_udp i) p) = pr_uds p" by (rule q)+
qed

lemma heartbeat_early: "rx_early (pr_rx (heartbeat c p)) = rx_early (pr_rx p)"
  by (simp add: heartbeat_def on_heartbeat_def Let_def)

lemma idle_run:
  assumes "sse42_documented (cf_cpu (pr_cfg p))" and "udp_ready (pr_udp p)" and "\<forall>i\<in>set is. quiet i"
    and "contexts (rx_world (pr_rx p)) = Map.empty" and "early_from P (pr_rx p)"
    and "\<forall>d\<in>arriving is. \<forall>dp. wire_packet (pr_cfg p) d dp \<longrightarrow> P dp"
  shows "rx_world (pr_rx (fst (main_loop is p))) = rx_world (pr_rx p) \<and> early_from P (pr_rx (fst (main_loop is p))) \<and>
     udp_ready (pr_udp (fst (main_loop is p))) \<and> pr_cfg (fst (main_loop is p)) = pr_cfg p \<and>
     pr_uds (fst (main_loop is p)) = pr_uds p"
  using assms
proof (induction "is" arbitrary: p)
  case (Cons i "is")
  let ?q = "udp_plane (in_udp i) p"
  let ?r = "heartbeat (in_now i) ?q"
  have i: "batch_fits i" "\<not> in_poll_failed i" "in_uds i = None" using Cons.prems(3) by (simp_all add: quiet_def)
  have P: "\<forall>d\<in>arriving [i]. \<forall>dp. wire_packet (pr_cfg p) d dp \<longrightarrow> P dp" "\<forall>d\<in>arriving is. \<forall>dp. wire_packet (pr_cfg p) d dp \<longrightarrow> P dp"
    using Cons.prems(6) by (auto simp: arriving_def)
  note q = idle_udp [OF Cons.prems(1,2) i(1) Cons.prems(4,5) P(1)]
  have r: "rx_world (pr_rx ?r) = rx_world (pr_rx p)" "early_from P (pr_rx ?r)" "udp_ready (pr_udp ?r)" "pr_cfg ?r = pr_cfg p"
    "pr_uds ?r = pr_uds p"
    using q early_from_same [OF q(2) heartbeat_early] by (simp_all add: heartbeat_world)
  have "rx_world (pr_rx (fst (main_loop is ?r))) = rx_world (pr_rx ?r) \<and> early_from P (pr_rx (fst (main_loop is ?r))) \<and>
     udp_ready (pr_udp (fst (main_loop is ?r))) \<and> pr_cfg (fst (main_loop is ?r)) = pr_cfg ?r \<and>
     pr_uds (fst (main_loop is ?r)) = pr_uds ?r"
    using Cons.prems(1,3,4) P(2) r by (intro Cons.IH) simp_all
  then show ?case using i r by (simp add: uds_plane_def)
qed simp

lemma main_loop_append:
  "\<forall>i\<in>set xs. \<not> in_poll_failed i \<Longrightarrow> main_loop (xs @ ys) p = main_loop ys (fst (main_loop xs p))"
  by (induction xs arbitrary: p) simp_all


section \<open>What the session manager hears\<close>

text \<open>
  The handlers turn every block the pipeline reports into a \<open>BlockDecoded\<close> message: \<open>tells cf evs rx rx'\<close> when
  rx' has run the events evs and sent the message of each report.
\<close>

definition decoded_message :: "'x Config \<Rightarrow> string \<Rightarrow> u32 \<Rightarrow> u8 list" where
  "decoded_message cf sid bid = build_block_decoded (cf_codec cf) sid (cf_receiver_id cf) [bid]"

definition tells :: "'x Config \<Rightarrow> event list \<Rightarrow> 'x Receiver \<Rightarrow> 'x Receiver \<Rightarrow> bool" where
  "tells cf evs rx rx' \<longleftrightarrow>
     rx_world rx' = fold (apply_event (cf_env cf)) evs (rx_world rx) \<and> set (rx_sent rx) \<subseteq> set (rx_sent rx') \<and>
     (\<forall>sid. \<forall>bid\<in>set (reports (cf_env cf) sid evs (rx_world rx)). decoded_message cf sid bid \<in> set (rx_sent rx'))"

lemma reports_append: "reports env sid (xs @ ys) w = reports env sid xs w @ reports env sid ys (fold (apply_event env) xs w)"
  by (induction xs arbitrary: w) simp_all

lemma tells_trans: "tells cf xs a b \<Longrightarrow> tells cf ys b c \<Longrightarrow> tells cf (xs @ ys) a c"
  unfolding tells_def reports_append by auto

lemma tells_fold:
  assumes "\<And>x r. tells cf (g x) r (f x r)"
  shows "tells cf (concat (map g xs)) rx (fold f xs rx)"
proof (induction xs arbitrary: rx)
  case (Cons x xs)
  show ?case using tells_trans [OF assms Cons.IH] by simp
qed (simp add: tells_def)

lemma tells_early [simp]: "tells cf evs rx (r\<lparr>rx_early := m\<rparr>) = tells cf evs rx r"
  by (simp add: tells_def)

lemma tells_idle: "rx_world r = rx_world rx \<Longrightarrow> set (rx_sent rx) \<subseteq> set (rx_sent r) \<Longrightarrow> tells cf [] rx r"
  by (simp add: tells_def)

lemma decode_outcome:
  assumes "handle_data_packet env sid bid symid payload w = ((outcome, Some b), w')"
  shows "outcome = BlockDecoded"
  using assms unfolding handle_data_packet_eq Let_def
  by (auto split: option.splits prod.splits bool.splits if_splits)

lemma packet_tells:
  assumes h: "handle_data_packet (cf_env cf) nid bid s payload (rx_world rx) = ((outcome, out), w)" and w: "rx_world rx' = w"
    and sent: "rx_sent rx' = rx_sent rx @ (if outcome = BlockDecoded then [decoded_message cf nid (decoded_id out)] else [])"
  shows "tells cf [EvData nid bid s payload] rx rx'"
proof -
  have msg: "decoded_message cf sid x \<in> set (rx_sent rx')" if r: "x \<in> set (reports (cf_env cf) sid [EvData nid bid s payload] (rx_world rx))" for sid x
  proof -
    have "reports (cf_env cf) sid [EvData nid bid s payload] (rx_world rx) =
        (if nid = sid then (case snd (fst (handle_data_packet (cf_env cf) nid bid s payload (rx_world rx))) of None \<Rightarrow> [] | Some b \<Rightarrow> [b])
         else [])" by (simp add: reported_def)
    with r have "nid = sid" "out = Some x" unfolding h by (cases "nid = sid"; cases out; simp)+
    moreover have "outcome = BlockDecoded" using decode_outcome [of _ nid bid s payload] h calculation(2) by blast
    ultimately show ?thesis by (simp add: sent decoded_id_def)
  qed
  have "rx_world rx' = fold (apply_event (cf_env cf)) [EvData nid bid s payload] (rx_world rx)" by (simp add: w h)
  moreover have "set (rx_sent rx) \<subseteq> set (rx_sent rx')" by (simp add: sent)
  ultimately show ?thesis using msg unfolding tells_def by blast
qed

lemma on_data_tells: "tells cf [data_event dp] rx (on_data cf dp rx)"
proof -
  obtain outcome out w where h: "handle_data_packet (cf_env cf) (dp_session_id dp) (dp_block_id dp) (dp_symbol_id dp) (dp_payload dp)
      (rx_world rx) = ((outcome, out), w)" by (metis surj_pair)
  show ?thesis
    unfolding data_event_def
    by (rule packet_tells [OF h]) (simp_all add: on_data_world data_event_def h on_data_def Let_def decoded_message_def split: option.split)
qed

lemma replay_tells: "tells cf [data_event (early_packet sid dg)] rx (replay_one cf sid dg rx)"
proof -
  obtain b s p where dg: "dg = (b, s, p)" by (cases dg)
  obtain outcome out w where h: "handle_data_packet (cf_env cf) sid b s p (rx_world rx) = ((outcome, out), w)" by (metis surj_pair)
  have "tells cf [EvData sid b s p] rx (replay_one cf sid dg rx)"
    by (rule packet_tells [OF h]) (simp_all add: replay_one_def dg h Let_def decoded_message_def)
  then show ?thesis by (simp add: dg early_packet_def data_event_def)
qed

lemma on_datagram_tells: "tells cf (datagram_events cf d) rx (on_datagram cf d rx)"
proof -
  obtain result frame where dec: "decode_frame (cf_cpu cf) (cf_parse cf) (Some d) f = (result, frame)" for f
    using decode_frame_fresh by (metis surj_pair)
  have data: "tells cf [data_event dp] rx (on_data cf dp (rx\<lparr>rx_frame := f, rx_stats := st\<rparr>))" for dp f st
    using on_data_tells [of cf dp "rx\<lparr>rx_frame := f, rx_stats := st\<rparr>"] by (simp add: tells_def)
  show ?thesis
    by (cases result; cases frame)
      (auto simp: on_datagram_def datagram_events_def dec Let_def data on_manifest_def intro!: tells_idle)
qed

lemma on_control_tells: "tells cf (control_events cf raw rx) rx (on_control cf raw rx)"
proof -
  have "tells cf (open_events cf so rx) rx (on_session_open cf so rx)" for so
  proof -
    obtain r w where h: "handle_session_open (cf_env cf) so (so_file_size so) (rx_world rx) = (r, w)" by fastforce
    have op: "tells cf [EvOpen so (so_file_size so)] rx (rx\<lparr>rx_world := w\<rparr>)"
      using h by (simp add: tells_def reported_def)
    have replay: "tells cf (map (\<lambda>dg. data_event (early_packet (so_session_id so) dg)) dgs) (rx\<lparr>rx_world := w\<rparr>)
        (fold (replay_one cf (so_session_id so)) dgs (rx\<lparr>rx_world := w\<rparr>))" for dgs
      using tells_fold [of cf "\<lambda>dg. [data_event (early_packet (so_session_id so) dg)]" "replay_one cf (so_session_id so)",
          OF replay_tells, of dgs] by simp
    from tells_trans [OF op replay] op show ?thesis
      by (cases r) (auto simp: on_session_open_def open_events_def h Let_def split: option.split)
  qed
  moreover have "tells cf [EvPurge sid] rx (on_purge cf sid rx)" for sid
    by (simp add: tells_def on_purge_def reported_def)
  moreover have "tells cf [] rx rx" by (simp add: tells_idle)
  ultimately show ?thesis
    by (auto simp: on_control_def control_events_def split: option.split prod.split bool.split RxEnvelopeCase.split Envelope.split)
qed

lemma loop_tells:
  assumes "udp_ready (pr_udp p)" and "\<forall>i\<in>set is. batch_fits i"
  shows "tells (pr_cfg p) (loop_events is p) (pr_rx p) (pr_rx (fst (main_loop is p)))"
  using assms
proof (induction "is" arbitrary: p)
  case Nil
  then show ?case by (simp add: tells_idle)
next
  case (Cons i "is")
  let ?cf = "pr_cfg p"
  let ?q = "udp_plane (in_udp i) p"
  let ?u = "uds_plane (in_uds i) ?q"
  let ?r = "heartbeat (in_now i) ?u"
  have fits: "\<forall>ms. in_udp i = Some (Received ms) \<longrightarrow> length ms \<le> RECV_BATCH_SIZE" using Cons.prems(2) by (simp add: batch_fits_def)
  note q = udp_plane_batch [OF Cons.prems(1) fits]
  have 1: "tells ?cf (concat (map (datagram_events ?cf) (batch_bytes (in_udp i)))) (pr_rx p) (pr_rx ?q)"
    unfolding q(1) by (rule tells_fold) (rule on_datagram_tells)
  have 2: "tells ?cf (case in_uds i of None \<Rightarrow> [] | Some call \<Rightarrow> control_events ?cf (uds_receive call (pr_uds p)) (pr_rx ?q)) (pr_rx ?q) (pr_rx ?u)"
    using on_control_tells [of ?cf _ "pr_rx ?q"] by (auto simp: uds_plane_def q intro: tells_idle split: option.split)
  have 3: "tells ?cf [] (pr_rx ?u) (pr_rx ?r)"
    by (rule tells_idle) (auto simp: heartbeat_def on_heartbeat_def Let_def on_heartbeat_world)
  have "tells (pr_cfg ?r) (loop_events is ?r) (pr_rx ?r) (pr_rx (fst (main_loop is ?r)))"
    using Cons.prems(2) q(2) by (intro Cons.IH) (simp_all add: heartbeat_world uds_plane_world)
  then have 4: "tells ?cf (loop_events is ?r) (pr_rx ?r) (pr_rx (fst (main_loop is ?r)))"
    by (simp add: heartbeat_world uds_plane_world q(3))
  from tells_trans [OF 1 tells_trans [OF 2 tells_trans [OF 3 4]]]
  show ?case by (cases "in_poll_failed i") (simp_all add: Let_def tells_idle)
qed


section \<open>Properties\<close>

text \<open>What the sender puts into a data packet, and the symbols of a block that arrive in good order.\<close>

definition sender_packet :: "isal \<Rightarrow> (nat \<Rightarrow> u8) \<Rightarrow> u8 list \<Rightarrow> SessionOpen \<Rightarrow> DataPacket \<Rightarrow> bool" where
  "sender_packet lib pad content so dp \<longleftrightarrow>
     dp_session_id dp = so_session_id so \<and>
     (dp_block_id dp < so_total_blocks so \<longrightarrow> dp_symbol_id dp < so_n so \<longrightarrow> length (dp_payload dp) = unat (so_block_bytes so) \<longrightarrow>
        dp_payload dp = file_symbols lib pad content so (dp_block_id dp) ! unat (dp_symbol_id dp))"

definition symbols_received :: "'x Config \<Rightarrow> SessionOpen \<Rightarrow> 'a LoopInput list \<Rightarrow> u32 \<Rightarrow> u32 set" where
  "symbols_received cf so is bid =
     {s. \<exists>d\<in>arriving is. \<exists>payload.
        wire_packet cf d \<lparr>dp_session_id = so_session_id so, dp_block_id = bid, dp_symbol_id = s, dp_payload = payload\<rparr> \<and>
        s < so_n so \<and> length payload = unat (so_block_bytes so)}"

text \<open>The iteration in which the control socket delivers the \<open>SessionOpen\<close>.\<close>

definition opens_session :: "('x, 'a) Process \<Rightarrow> SessionOpen \<Rightarrow> 'a LoopInput \<Rightarrow> bool" where
  "opens_session p so i \<longleftrightarrow>
     batch_fits i \<and> \<not> in_poll_failed i \<and>
     (\<exists>call bytes. in_uds i = Some call \<and> uds_receive call (pr_uds p) = Some bytes \<and>
        parse_incoming (cf_codec (pr_cfg p)) bytes CaseUnset = (True, EnvSessionOpen so, CaseSessionOpen))"

text \<open>The run up to and including the open: the world is untouched until the open, and the packets replayed are the sender's.\<close>

lemma open_phase:
  assumes doc: "sse42_documented (cf_cpu (pr_cfg p))" and u: "udp_ready (pr_udp p)" and none: "contexts (rx_world (pr_rx p)) = Map.empty"
    and no_early: "rx_early (pr_rx p) = Map.empty"
    and before: "\<forall>i\<in>set before. quiet i" and i: "opens_session p so i" and after: "\<forall>i\<in>set after. quiet i"
    and P: "\<forall>d\<in>arriving (before @ i # after). \<forall>dp. wire_packet (pr_cfg p) d dp \<longrightarrow> P dp"
    and opens: "fst (handle_session_open (cf_env (pr_cfg p)) so (so_file_size so) (rx_world (pr_rx p)))"
  obtains evs rx where "rx_world rx = rx_world (pr_rx p)"
    and "tells (pr_cfg p) (EvOpen so (so_file_size so) # evs) rx (pr_rx (fst (main_loop (before @ i # after) p)))"
    and "\<And>ev. ev \<in> set evs \<Longrightarrow> \<exists>dp. ev = data_event dp \<and> P dp"
    and "\<And>d dp. d \<in> arriving after \<Longrightarrow> wire_packet (pr_cfg p) d dp \<Longrightarrow> data_event dp \<in> set evs"
proof -
  let ?cf = "pr_cfg p"
  define q where "q = fst (main_loop before p)"
  define v where "v = udp_plane (in_udp i) q"
  define r where "r = heartbeat (in_now i) (uds_plane (in_uds i) v)"
  have sub: "d \<in> arriving (before @ i # after)" if "d \<in> arriving before \<or> d \<in> arriving [i] \<or> d \<in> arriving after" for d
    using that by (auto simp: arriving_def)
  have early0: "early_from P (pr_rx p)" using no_early by (simp add: early_from_def)
  have P0: "\<forall>d\<in>arriving before. \<forall>dp. wire_packet ?cf d dp \<longrightarrow> P dp" using P sub by blast
  note q = idle_run [OF doc u before none early0 P0, folded q_def]
  have P1: "\<forall>d\<in>arriving [i]. \<forall>dp. wire_packet (pr_cfg q) d dp \<longrightarrow> P dp" using P sub q by auto
  have doc_q: "sse42_documented (cf_cpu (pr_cfg q))" "contexts (rx_world (pr_rx q)) = Map.empty" using doc none q by simp_all
  have i': "batch_fits i" "\<not> in_poll_failed i" using i by (simp_all add: opens_session_def)
  have q': "udp_ready (pr_udp q)" "early_from P (pr_rx q)" using q by simp_all
  note v = idle_udp [OF doc_q(1) q'(1) i'(1) doc_q(2) q'(2) P1, folded v_def]
  have v': "rx_world (pr_rx v) = rx_world (pr_rx p)" "pr_cfg v = ?cf" "pr_uds v = pr_uds p" using v q by simp_all
  obtain call bytes where call: "in_uds i = Some call" "uds_receive call (pr_uds p) = Some bytes"
    "parse_incoming (cf_codec ?cf) bytes CaseUnset = (True, EnvSessionOpen so, CaseSessionOpen)" using i by (auto simp: opens_session_def)
  define replay where "replay = (case rx_early (pr_rx v) (so_session_id so) of None \<Rightarrow> []
      | Some es \<Rightarrow> map (\<lambda>dg. data_event (early_packet (so_session_id so) dg)) (es_buffered es))"
  have ctl: "control_events ?cf (Some bytes) (pr_rx v) = EvOpen so (so_file_size so) # replay"
    using opens by (simp add: control_events_def call open_events_def v' replay_def)
  have r1: "tells ?cf (EvOpen so (so_file_size so) # replay) (pr_rx v) (pr_rx (uds_plane (in_uds i) v))"
    using on_control_tells [of ?cf "Some bytes" "pr_rx v"] by (simp add: ctl uds_plane_def call v')
  have "tells ?cf [] (pr_rx (uds_plane (in_uds i) v)) (pr_rx r)" unfolding r_def
    by (rule tells_idle) (auto simp: heartbeat_def on_heartbeat_def Let_def on_heartbeat_world)
  from tells_trans [OF r1 this] have r2: "tells ?cf (EvOpen so (so_file_size so) # replay) (pr_rx v) (pr_rx r)" by simp
  have r: "udp_ready (pr_udp r)" "pr_cfg r = ?cf" using v q by (simp_all add: r_def heartbeat_world uds_plane_world)
  have fits: "\<forall>i\<in>set after. batch_fits i" using after by (simp add: quiet_def)
  have tail: "tells ?cf (loop_events after r) (pr_rx r) (pr_rx (fst (main_loop after r)))"
    using loop_tells [OF r(1) fits] r(2) by simp
  have nofail: "\<forall>i\<in>set before. \<not> in_poll_failed i" using before by (simp add: quiet_def)
  have run: "main_loop (before @ i # after) p = main_loop after r"
    using i' by (simp add: main_loop_append [OF nofail] q_def [symmetric] r_def v_def)
  have doc_r: "sse42_documented (cf_cpu (pr_cfg r))" using doc r(2) by simp
  have after': "\<forall>i\<in>set after. batch_fits i \<and> \<not> in_poll_failed i \<and> in_uds i = None" using after by (simp add: quiet_def)
  have mem: "ev \<in> set (loop_events after r) \<longleftrightarrow> (\<exists>d\<in>arriving after. \<exists>dp. ev = data_event dp \<and> wire_packet ?cf d dp)" for ev
    using quiet_events [OF doc_r r(1) after'] r(2) by simp
  show ?thesis
  proof (rule that)
    show "rx_world (pr_rx v) = rx_world (pr_rx p)" by (rule v'(1))
    show "tells ?cf (EvOpen so (so_file_size so) # replay @ loop_events after r) (pr_rx v) (pr_rx (fst (main_loop (before @ i # after) p)))"
      using tells_trans [OF r2 tail] by (simp add: run)
    show "\<exists>dp. ev = data_event dp \<and> P dp" if "ev \<in> set (replay @ loop_events after r)" for ev
    proof (cases "ev \<in> set replay")
      case True
      then obtain es dg where "rx_early (pr_rx v) (so_session_id so) = Some es" "dg \<in> set (es_buffered es)"
        "ev = data_event (early_packet (so_session_id so) dg)"
        unfolding replay_def by (cases "rx_early (pr_rx v) (so_session_id so)") auto
      then show ?thesis using v(2) unfolding early_from_def by blast
    next
      case False
      then show ?thesis using that P sub by (auto simp: mem)
    qed
    show "data_event dp \<in> set (replay @ loop_events after r)" if "d \<in> arriving after" "wire_packet ?cf d dp" for d dp
      using that by (auto simp: mem)
  qed
qed


text \<open>
  C1: from \<open>main\<close> to the disk.  Start the receiver over a shared segment nobody has used yet; let datagrams,
  manifests and early data arrive; let the control socket then deliver the \<open>SessionOpen\<close> of a file, and after
  it any datagrams and heartbeats.  When every intact data frame on the wire is the sender's, and each block
  has k distinct symbols among the frames after the open, in any order and among any noise, then the file on
  disk is in the end the sender's, byte for byte, and the session manager has been sent a \<open>BlockDecoded\<close> for
  every block.  The sender's parameters need only be within the receiver's limits, with fewer than 174762
  symbols to wait for (the slots of the default arena).
\<close>

theorem receiver_life_delivers_file:
  assumes start: "start_up ln os argv = Inr p" and "unused_segments os" and "sse42_documented (ln_cpu ln)"
    and "isal_documented (sys_lib os)" and "cauchy_documented (sys_lib os) (unat (so_n so)) (unat (so_k so))"
    and ann: "announces so content" and use: "file_usable (sys_files os) so"
    and "unat (so_total_blocks so) * (unat (so_k so) - 1) < 174762"
    and "\<forall>i\<in>set before. quiet i" and "opens_session p so i" and "\<forall>i\<in>set after. quiet i"
    and "\<forall>d\<in>arriving (before @ i # after). \<forall>dp. wire_packet (pr_cfg p) d dp \<longrightarrow> sender_packet (sys_lib os) pad content so dp"
    and k: "\<forall>bid < so_total_blocks so. unat (so_k so) \<le> card (symbols_received (pr_cfg p) so after bid)"
  shows "let rx = pr_rx (fst (main_loop (before @ i # after) p))
         in mem_read 0 (length content) (durable (files (rx_world rx) (c_str (so_dest_path so)))) = content \<and>
            (\<forall>bid < so_total_blocks so. decoded_message (pr_cfg p) (so_session_id so) bid \<in> set (rx_sent rx))"
proof -
  let ?env = "cf_env (pr_cfg p)" and ?w = "rx_world (pr_rx p)" and ?sid = "so_session_id so" and ?T = "so_total_blocks so"
  let ?ctx = "opened_context ?env so 0" and ?D = "file_block pad content so" and ?fl = "map of_nat [0..<174762] :: u32 list"
  let ?rx = "pr_rx (fst (main_loop (before @ i # after) p))"
  note st = start_up_facts [OF start assms(2)]
  obtain creator where seg: "shm ?w = snd (init_header creator DEFAULT_ARENA_BYTES zero_segment)" using st(10) by blast
  have inv: "shm_inv (env_mgr ?env) (shm ?w) ?fl" 
    using fresh_segment_inv [OF st(9), of creator DEFAULT_ARENA_BYTES] by (simp only: seg default_slots)
  note new = fresh_segment_sessions [where creator = creator and ab = DEFAULT_ARENA_BYTES, folded seg]
  obtain r w' where h: "handle_session_open ?env so (so_file_size so) ?w = (r, w')" by fastforce
  have env: "file_usable (env_os ?env) so" "isal_documented (env_lib ?env)"
    "cauchy_documented (env_lib ?env) (unat (so_n so)) (unat (so_k so))" using assms(4,5) use st by simp_all
  note op = open_starts_transfer [OF inv st(7) new(1) new(2) ann env h]
  have tr: "transfer ?env ?sid ?ctx ?T ?D w'" using op(4) [of pad] by simp
  have doc: "sse42_documented (cf_cpu (pr_cfg p))" and opens: "fst (handle_session_open ?env so (so_file_size so) ?w)"
    using assms(3) st op(1) h by simp_all
  obtain evs rx where rx: "rx_world rx = ?w" and tells: "tells (pr_cfg p) (EvOpen so (so_file_size so) # evs) rx ?rx"
    and data: "\<And>ev. ev \<in> set evs \<Longrightarrow> \<exists>dp. ev = data_event dp \<and> sender_packet (sys_lib os) pad content so dp"
    and tail: "\<And>d dp. d \<in> arriving after \<Longrightarrow> wire_packet (pr_cfg p) d dp \<Longrightarrow> data_event dp \<in> set evs"
    by (rule open_phase [OF doc st(1,7,8) assms(9-12) opens]) (rule that; assumption)
  have fin: "rx_world ?rx = fold (apply_event ?env) evs w'"
    and told: "\<forall>bid\<in>set (reports ?env ?sid evs w'). decoded_message (pr_cfg p) ?sid bid \<in> set (rx_sent ?rx)"
    using tells rx h by (simp_all add: tells_def)
  have run: "run_ok ?env evs w'" using data by (intro data_run_ok) (fastforce simp: data_event_def)
  have c: "\<forall>ev\<in>set evs. carries (env_lib ?env) ?sid ?ctx ?T ?D ev"
    using data st(5) by (fastforce simp: data_event_def sender_packet_def file_symbols_def sent_symbols_def)
  have own: "\<forall>nid bid symid payload. EvData nid bid symid payload \<in> set evs \<longrightarrow> nid = ?sid"
    using data by (fastforce simp: data_event_def sender_packet_def)
  have sub: "symbols_received (pr_cfg p) so after bid \<subseteq> Delivery.delivered ?sid ?ctx evs bid" for bid
    using tail by (fastforce simp: symbols_received_def Delivery.delivered_def data_event_def)
  have fin_set: "finite (Delivery.delivered ?sid ?ctx evs bid)" for bid by (rule finite_subset [of _ UNIV]) simp_all
  have "unat (ctx_k ?ctx) \<le> card (Delivery.delivered ?sid ?ctx evs bid)" if "bid < ?T" for bid
    using order_trans [OF k [rule_format, OF that] card_mono [OF fin_set sub]] by simp
  then have enough: "\<forall>bid < ?T. unat (ctx_k ?ctx) \<le> card (Delivery.delivered ?sid ?ctx evs bid)" by blast
  have fresh: "\<forall>bid < ?T. block_at (shm w') (unat (ctx_session_idx ?ctx)) (unat bid) = zero_block" using op(5) by simp
  have ample: "ample ?env ?sid evs w'"
    using assms(8) by (intro ample_fresh [OF tr fresh run c own op(2)]) simp
  have "mem_read 0 (length content) (durable (files (rx_world ?rx) (c_str (so_dest_path so)))) = content"
    using transfer_lemma [OF tr fresh run c ample enough, of content] opened_splits [OF ann] fin by simp
  moreover have "decoded_message (pr_cfg p) ?sid bid \<in> set (rx_sent ?rx)" if "bid < ?T" for bid
  proof -
    have "count_list (reports ?env ?sid evs w') bid = 1" by (rule transfer_reports_once [OF tr fresh run c ample enough that])
    then have "bid \<in> set (reports ?env ?sid evs w')" by (metis count_list_0_iff zero_neq_one)
    with told show ?thesis by blast
  qed
  ultimately show ?thesis by (simp add: Let_def)
qed


section \<open>A receiver's life\<close>

definition life_linked :: "unit Linked" where
  "life_linked = demo_linked\<lparr>ln_parse := demo_parse\<rparr>"

definition life_start :: "nat Startup_os" where
  "life_start = demo_start\<lparr>sys_lib := isal_small\<rparr>"

definition life_early :: "nat LoopInput" where
  "life_early = \<lparr>in_poll_failed = False, in_udp = Some (Received [(wire_frame [0, 1, 4, 5, 6], 5)]), in_uds = None, in_now = 1000000000\<rparr>"

definition life_open :: "nat LoopInput" where
  "life_open = \<lparr>in_poll_failed = False, in_udp = None, in_uds = Some (RecvMessage [9]), in_now = 1200000000\<rparr>"

definition life_content :: "u8 list" where "life_content = [1, 2, 3, 4, 5, 6, 7, 8, 9, 10, 11]"

lemma life_blocks: "bid < 2 \<Longrightarrow> file_block (\<lambda>_. 0) life_content demo_open bid = demo_data bid"
  by (auto simp: below_2 file_block_def demo_open_def demo_data_def demo_block0_def demo_block1_def life_content_def upt_conv_Cons Let_def)

lemma life_symbols: "bid < 2 \<Longrightarrow> file_symbols isal_small (\<lambda>_. 0) life_content demo_open bid = sent_symbols isal_small demo_ctx (demo_data bid)"
  by (simp add: file_symbols_def sent_symbols_def life_blocks) (simp add: demo_open_def demo_ctx_def)

lemma life_arriving: "arriving ([life_early] @ life_open # demo_inputs) = arriving demo_inputs"
  by (auto simp: arriving_def life_early_def life_open_def demo_inputs_def demo_bodies_def)

lemma life_packets:
  assumes "cf_parse cf = demo_parse" and "d \<in> arriving demo_inputs" and "wire_packet cf d dp"
  shows "sender_packet isal_small (\<lambda>_. 0) life_content demo_open dp"
proof -
  have "wire_packet (pr_cfg demo_process) d dp" using assms(1,3) by (simp add: wire_packet_def demo_process_def)
  then have e: "data_event dp \<in> set demo_events" by (rule demo_packet_events [OF assms(2)])
  then have "dp_session_id dp = ''s1''" by (auto simp: demo_events_def data_event_def)
  moreover have "carries isal_small ''s1'' demo_ctx 2 demo_data (data_event dp)" using demo_carries e by simp
  ultimately show ?thesis using life_symbols by (auto simp: sender_packet_def data_event_def demo_open_def)
qed

theorem receiver_life_delivers_file_witness:
  "\<exists>p. start_up life_linked life_start demo_argv = Inr p \<and>
     (let rx = pr_rx (fst (main_loop ([life_early] @ life_open # demo_inputs) p))
      in mem_read 0 11 (durable (files (rx_world rx) ''/d'')) = [1, 2, 3, 4, 5, 6, 7, 8, 9, 10, 11] \<and>
         decoded_message (pr_cfg p) ''s1'' 1 \<in> set (rx_sent rx))"
proof -
  obtain p where p: "start_up life_linked life_start demo_argv = Inr p" and parse: "cf_parse (pr_cfg p) = demo_parse"
    and uds: "uds_fd (pr_uds p) = 4"
    using demo_starts_with [of life_linked isal_small] by (auto simp: life_start_def life_linked_def)
  have un: "unused_segments life_start"
    using create_success(2) [of shm_fine] by (simp add: unused_segments_def life_start_def demo_start_def)
  have so: "so_session_id demo_open = ''s1''" "so_k demo_open = 2" "so_n demo_open = 3" "so_block_bytes demo_open = 3"
    "so_total_blocks demo_open = 2" "so_dest_path demo_open = ''/d''" "so_file_size demo_open = 11" by (simp_all add: demo_open_def)
  have fields: "ln_cpu life_linked = intel_cpu" "ln_codec life_linked = demo_codec" "sys_lib life_start = isal_small"
    "sys_files life_start = os_ok" by (simp_all add: life_linked_def demo_linked_def life_start_def demo_start_def)
  have quiet: "\<forall>i\<in>set [life_early]. quiet i" "\<forall>i\<in>set demo_inputs. quiet i"
    by (simp_all add: quiet_def life_early_def demo_inputs_def batch_fits_def udp_sizes demo_bodies_def)
  have codec: "cf_codec (pr_cfg p) = demo_codec" using start_up_facts(4) [OF p un] fields by simp
  have op: "opens_session p demo_open life_open"
    by (simp add: opens_session_def life_open_def batch_fits_def uds codec parse_incoming_def demo_codec_def UDS_RECV_BUFFER_BYTES_def)
  have len: "length life_content = 11" by (simp add: life_content_def)
  have ann: "announces demo_open life_content" by (simp add: announces_def so len MAX_N_def SLOT_SIZE_def MAX_BLOCKS_PER_SESSION_def)
  have use: "file_usable (sys_files life_start) demo_open" by (simp add: file_usable_def fields os_ok_def so)
  have "2 \<le> card (symbols_received (pr_cfg p) demo_open demo_inputs bid)" if "bid < 2" for bid
    using demo_symbols [OF that] parse
    by (simp add: symbols_received_def so wire_packet_def demo_process_def)
  then have k: "\<forall>bid < so_total_blocks demo_open. unat (so_k demo_open) \<le> card (symbols_received (pr_cfg p) demo_open demo_inputs bid)"
    by (simp add: so)
  have pk: "\<forall>d\<in>arriving ([life_early] @ life_open # demo_inputs). \<forall>dp. wire_packet (pr_cfg p) d dp \<longrightarrow>
      sender_packet (sys_lib life_start) (\<lambda>_. 0) life_content demo_open dp"
    using life_packets [OF parse] unfolding life_arriving fields by blast
  have doc: "sse42_documented (ln_cpu life_linked)" "isal_documented (sys_lib life_start)"
    "cauchy_documented (sys_lib life_start) (unat (so_n demo_open)) (unat (so_k demo_open))"
    using sse42_documented_intel isal_small_documented isal_small_cauchy by (simp_all add: fields so)
  have small: "unat (so_total_blocks demo_open) * (unat (so_k demo_open) - 1) < 174762" by (simp add: so)
  have cs: "c_str ''/d'' = ''/d''" by (simp add: c_str_def)
  have "(1 :: u32) < 2" by simp
  with receiver_life_delivers_file [OF p un doc ann use small quiet(1) op quiet(2) pk k, unfolded Let_def so len cs] p
  show ?thesis unfolding Let_def life_content_def by blast
qed

end
